(* ===== verification/Prelude.thy ===== *)
theory Prelude
  imports Main "HOL-Library.Word" "HOL-Library.Multiset"
begin

text \<open>
  Shared vocabulary of the development: the machine integers of the program, Rust's
  \<^verbatim>\<open>Result\<close> as a sum, panics as values, interleavings of threads, and the generic facts on
  lists, maps and folds that several components use.
\<close>

section \<open>Automation collections\<close>

named_theorems result_simps \<open>evaluation of early returns and panics\<close>
named_theorems store_simps \<open>effects of database operations\<close>

section \<open>Machine integers\<close>

type_synonym u8 = "8 word"
type_synonym u16 = "16 word"
type_synonym u64 = "64 word"
type_synonym u128 = "128 word"

section \<open>Results and panics\<close>

text \<open>Rust's \<^verbatim>\<open>Result<T, E>\<close> is \<open>'e + 'a\<close>; the operator \<^verbatim>\<open>?\<close> is \<open>rbind\<close>.\<close>

abbreviation Ok :: "'a \<Rightarrow> 'e + 'a" where "Ok \<equiv> Inr"
abbreviation Err :: "'e \<Rightarrow> 'e + 'a" where "Err \<equiv> Inl"

definition rbind :: "'e + 'a \<Rightarrow> ('a \<Rightarrow> 'e + 'b) \<Rightarrow> 'e + 'b" where
  "rbind m f = (case m of Inl e \<Rightarrow> Inl e | Inr x \<Rightarrow> f x)"

lemma rbind_Ok [simp, result_simps]: "rbind (Ok x) f = f x"
  and rbind_Err [simp, result_simps]: "rbind (Err e) f = Err e"
  by (simp_all add: rbind_def)

lemma rbind_eq_Ok [result_simps]: "rbind m f = Ok y \<longleftrightarrow> (\<exists>x. m = Ok x \<and> f x = Ok y)"
  by (cases m) auto

lemma rbind_eq_Err [result_simps]:
  "rbind m f = Err e \<longleftrightarrow> m = Err e \<or> (\<exists>x. m = Ok x \<and> f x = Err e)"
  by (cases m) auto

lemma rbind_cong [fundef_cong]:
  "m = n \<Longrightarrow> (\<And>x. n = Ok x \<Longrightarrow> f x = g x) \<Longrightarrow> rbind m f = rbind n g"
  by (cases n) auto

text \<open>A call either returns a value or panics with the message of its \<^verbatim>\<open>expect\<close> or assertion.\<close>

datatype 'a outcome = Returns 'a | Panics string

definition obind :: "'a outcome \<Rightarrow> ('a \<Rightarrow> 'b outcome) \<Rightarrow> 'b outcome" where
  "obind m f = (case m of Returns x \<Rightarrow> f x | Panics msg \<Rightarrow> Panics msg)"

lemma obind_simps [simp]: "obind (Returns x) f = f x" "obind (Panics msg) f = Panics msg"
  by (simp_all add: obind_def)

lemma obind_cong [fundef_cong]:
  "m = n \<Longrightarrow> (\<And>x. n = Returns x \<Longrightarrow> f x = g x) \<Longrightarrow> obind m f = obind n g"
  by (cases n) auto

lemma obind_eq_Returns: "obind m f = Returns y \<longleftrightarrow> (\<exists>x. m = Returns x \<and> f x = Returns y)"
  by (cases m) auto

text \<open>A \<^verbatim>\<open>Mutex\<close> is poisoned when a thread panics while it holds the lock.\<close>

record 'a mutex =
  poisoned :: bool
  guarded :: 'a

definition new_mutex :: "'a \<Rightarrow> 'a mutex" where
  "new_mutex x = \<lparr>poisoned = False, guarded = x\<rparr>"

lemma new_mutex_simps [simp]: "poisoned (new_mutex x) = False" "guarded (new_mutex x) = x"
  by (simp_all add: new_mutex_def)

section \<open>Lists of key-value pairs\<close>

lemma mset_eq_of_map_of_eq:
  assumes "distinct (map fst xs)" and "distinct (map fst ys)" and "map_of xs = map_of ys"
  shows "mset xs = mset ys"
proof -
  have "set xs = set ys" using assms map_of_inject_set by blast
  moreover have "distinct xs" "distinct ys" using assms by (auto simp: distinct_map)
  ultimately show ?thesis by (simp add: set_eq_iff_mset_eq_distinct)
qed

lemma map_of_permute:
  assumes "distinct (map fst xs)" and "mset xs = mset ys"
  shows "map_of xs = map_of ys"
proof -
  have "mset (map fst xs) = mset (map fst ys)" using assms(2) by simp
  then have "distinct (map fst ys)" using assms(1) mset_eq_imp_distinct_iff by blast
  then show ?thesis using assms map_of_inject_set mset_eq_setD by blast
qed

lemma map_of_map_key:
  "inj f \<Longrightarrow> map_of (map (\<lambda>(k, v). (f k, v)) xs) (f k) = map_of xs k"
  by (induction xs) (auto simp: inj_eq)

lemma distinct_map_inj: "inj f \<Longrightarrow> distinct (map f xs) \<longleftrightarrow> distinct xs"
  by (metis distinct_map inj_on_subset subset_UNIV)

lemma entries_from_keys:
  "distinct (map fst xs) \<Longrightarrow> map (\<lambda>k. (k, the (map_of xs k))) (map fst xs) = xs"
  unfolding map_map comp_def by (rule map_idI) auto

lemma distinct_map_Pair [simp]: "distinct (map (Pair c \<circ> f) xs) \<longleftrightarrow> distinct (map f xs)"
  by (simp add: distinct_map inj_on_def)

text \<open>Merging maps of which at most one is defined at a key.\<close>

lemma foldl_map_add_None:
  "(\<forall>f \<in> set fs. f k = None) \<Longrightarrow> foldl (++) m fs k = m k"
  by (induction fs arbitrary: m) (auto simp: map_add_def)

lemma foldl_map_add_unique:
  assumes "i < length fs" and "\<And>j. j < length fs \<Longrightarrow> j \<noteq> i \<Longrightarrow> (fs ! j) k = None"
  shows "foldl (++) m fs k = (m ++ (fs ! i)) k"
proof -
  have fs: "fs = take i fs @ fs ! i # drop (Suc i) fs"
    using assms(1) by (rule id_take_nth_drop)
  have "\<forall>f \<in> set (take i fs). f k = None" and "\<forall>f \<in> set (drop (Suc i) fs). f k = None"
    using assms by (auto simp: in_set_conv_nth)
  then have "foldl (++) m (take i fs @ fs ! i # drop (Suc i) fs) k = (m ++ (fs ! i)) k"
    by (simp add: foldl_map_add_None map_add_def split: option.split)
  then show ?thesis using fs by metis
qed

section \<open>Interleavings of threads\<close>

text \<open>
  \<open>interleaves xss ys\<close>: \<open>ys\<close> is a schedule of the sequences \<open>xss\<close>, each run by one thread;
  every step takes the next element of one of them.
\<close>

inductive interleaves :: "'a list list \<Rightarrow> 'a list \<Rightarrow> bool" where
  nothing_left: "(\<forall>xs \<in> set xss. xs = []) \<Longrightarrow> interleaves xss []"
| take_turn: "i < length xss \<Longrightarrow> xss ! i = x # xs \<Longrightarrow> interleaves (xss[i := xs]) ys \<Longrightarrow>
     interleaves xss (x # ys)"

lemma mset_concat_update:
  "i < length xss \<Longrightarrow> xss ! i = x # xs \<Longrightarrow>
   mset (concat xss) = add_mset x (mset (concat (xss[i := xs])))"
proof (induction xss arbitrary: i)
  case Nil
  then show ?case by simp
next
  case (Cons a xss)
  then show ?case by (cases i) auto
qed

lemma interleaves_mset: "interleaves xss ys \<Longrightarrow> mset ys = mset (concat xss)"
proof (induction rule: interleaves.induct)
  case (nothing_left xss)
  then have "concat xss = []" by simp
  then show ?case by simp
next
  case (take_turn i xss x xs ys)
  then show ?case by (simp add: mset_concat_update del: mset_concat)
qed

lemma interleaves_concat: "interleaves xss (concat xss)"
proof (induction "length (concat xss)" arbitrary: xss)
  case 0
  then have "\<forall>xs \<in> set xss. xs = []" by simp
  then show ?case using interleaves.nothing_left [of xss] by (metis concat_eq_Nil_conv)
next
  case (Suc n)
  let ?P = "\<lambda>i. i < length xss \<and> xss ! i \<noteq> []"
  obtain j where "?P j"
    using Suc.hyps(2) by (metis concat_eq_Nil_conv in_set_conv_nth list.size(3) nat.distinct(1))
  then have least: "?P (LEAST i. ?P i)" by (rule LeastI)
  define i where "i = (LEAST i. ?P i)"
  obtain x xs where i: "i < length xss" "xss ! i = x # xs"
    using least unfolding i_def [symmetric] by (cases "xss ! i") auto
  have before: "\<forall>k < i. xss ! k = []"
    using not_less_Least [of _ ?P] i(1) unfolding i_def [symmetric] by auto
  have empty: "concat (take i xss) = []"
    using before i(1) by (auto simp: in_set_conv_nth)
  have split: "xss = take i xss @ (x # xs) # drop (Suc i) xss"
    using i by (metis id_take_nth_drop)
  have upd: "xss[i := xs] = take i xss @ xs # drop (Suc i) xss"
    using i(1) by (simp add: upd_conv_take_nth_drop)
  have c: "concat xss = x # concat (xss[i := xs])"
    using arg_cong [OF split, of concat] empty unfolding upd by simp
  then have "interleaves (xss[i := xs]) (concat (xss[i := xs]))"
    using Suc by simp
  then show ?case unfolding c by (rule interleaves.take_turn [OF i])
qed

end
