(* ===== verification/Rust_Maps.thy ===== *)
theory Rust_Maps
  imports Prelude "HOL-Library.AList"
begin

text \<open>
  The two maps of Rust's standard library that the program uses. A \<^verbatim>\<open>HashMap\<close> is an
  association list with distinct keys whose order stands for the (unspecified) iteration order:
  results that do not depend on that order are proved not to. A \<^verbatim>\<open>BTreeMap\<close> is an association
  list in strictly increasing key order. The locales state the contract their clients use, and
  both models are interpretations of it.
\<close>

section \<open>The contracts\<close>

locale finite_map =
  fixes empty :: 'm
    and insert :: "'k \<Rightarrow> 'v \<Rightarrow> 'm \<Rightarrow> 'm"
    and lookup :: "'m \<Rightarrow> 'k \<Rightarrow> 'v option"
    and entries :: "'m \<Rightarrow> ('k \<times> 'v) list"
    and invar :: "'m \<Rightarrow> bool"
  assumes lookup_empty: "lookup empty = Map.empty"
    and lookup_insert: "invar m \<Longrightarrow> lookup (insert k v m) = (lookup m)(k \<mapsto> v)"
    and invar_empty: "invar empty"
    and invar_insert: "invar m \<Longrightarrow> invar (insert k v m)"
    and entries_distinct: "invar m \<Longrightarrow> distinct (map fst (entries m))"
    and entries_lookup: "invar m \<Longrightarrow> map_of (entries m) = lookup m"
begin

lemma invar_insert_all: "invar m \<Longrightarrow> invar (fold (\<lambda>(k, v). insert k v) kvs m)"
  by (induction kvs arbitrary: m) (auto simp: invar_insert)

lemma lookup_insert_all:
  "invar m \<Longrightarrow> lookup (fold (\<lambda>(k, v). insert k v) kvs m) = lookup m ++ map_of (rev kvs)"
proof (induction kvs arbitrary: m)
  case Nil
  then show ?case by simp
next
  case (Cons kv kvs)
  then show ?case by (cases kv) (simp add: invar_insert lookup_insert map_add_def fun_eq_iff split: option.split)
qed

lemma lookup_insert_all_distinct:
  assumes "invar m" and "distinct (map fst kvs)"
  shows "lookup (fold (\<lambda>(k, v). insert k v) kvs m) = lookup m ++ map_of kvs"
proof -
  have "map_of (rev kvs) = map_of kvs"
    by (rule map_of_permute) (use assms(2) in \<open>simp_all flip: rev_map\<close>)
  then show ?thesis using lookup_insert_all [OF assms(1)] by simp
qed

lemma same_entries:
  "invar m \<Longrightarrow> invar n \<Longrightarrow> lookup m = lookup n \<Longrightarrow> mset (entries m) = mset (entries n)"
  by (intro mset_eq_of_map_of_eq) (simp_all add: entries_distinct entries_lookup)

lemma mset_entries_insert:
  assumes "invar m" and "lookup m k = None"
  shows "mset (entries (insert k v m)) = add_mset (k, v) (mset (entries m))"
proof -
  have new: "k \<notin> fst ` set (entries m)"
    using assms by (metis entries_lookup map_of_eq_None_iff)
  have "mset (entries (insert k v m)) = mset ((k, v) # entries m)"
    using assms new by (intro mset_eq_of_map_of_eq)
      (simp_all add: invar_insert entries_distinct entries_lookup lookup_insert)
  then show ?thesis by simp
qed

lemma length_entries_insert:
  assumes "invar m"
  shows "length (entries (insert k v m)) =
    (if lookup m k = None then Suc (length (entries m)) else length (entries m))"
proof -
  have len: "length (entries n) = card (dom (lookup n))" if "invar n" for n
  proof -
    have "dom (lookup n) = set (map fst (entries n))"
      using entries_lookup [OF that] by (metis dom_map_of_conv_image_fst list.set_map)
    then show ?thesis using entries_distinct [OF that] by (simp only: distinct_card length_map)
  qed
  have "finite (dom (lookup m))"
    using entries_lookup [OF assms] by (metis finite_dom_map_of)
  then show ?thesis
    using assms by (auto simp: len invar_insert lookup_insert insert_absorb domIff)
qed

end

locale ordered_map = finite_map empty insert lookup entries invar
  for empty :: 'm and insert :: "'k :: linorder \<Rightarrow> 'v \<Rightarrow> 'm \<Rightarrow> 'm" and lookup entries invar +
  fixes remove :: "'k \<Rightarrow> 'm \<Rightarrow> 'm"
  assumes lookup_remove: "invar m \<Longrightarrow> lookup (remove k m) = (lookup m)(k := None)"
    and invar_remove: "invar m \<Longrightarrow> invar (remove k m)"
    and entries_sorted: "invar m \<Longrightarrow> sorted (map fst (entries m))"
begin

text \<open>Equal contents are iterated equally: the order is canonical.\<close>

lemma canonical_entries:
  assumes "invar m" and "invar n" and "lookup m = lookup n"
  shows "entries m = entries n"
proof -
  have "map fst (entries m) = map fst (entries n)"
    using assms same_entries [OF assms] by (metis entries_sorted mset_map properties_for_sort
        sorted_sort_id)
  then show ?thesis
    using assms entries_from_keys [OF entries_distinct] entries_lookup by metis
qed

end

section \<open>HashMap\<close>

type_synonym ('k, 'v) hash_map = "('k \<times> 'v) list"

abbreviation hm_get :: "('k, 'v) hash_map \<Rightarrow> 'k \<Rightarrow> 'v option" where
  "hm_get \<equiv> map_of"

definition hm_insert :: "'k \<Rightarrow> 'v \<Rightarrow> ('k, 'v) hash_map \<Rightarrow> ('k, 'v) hash_map" where
  "hm_insert k v m = AList.update k v m"

text \<open>\<^verbatim>\<open>insert\<close> returns the previous value: that is a lookup before the update.\<close>

definition hm_wf :: "('k, 'v) hash_map \<Rightarrow> bool" where
  "hm_wf m \<longleftrightarrow> distinct (map fst m)"

definition hm_extend :: "('k, 'v) hash_map \<Rightarrow> ('k, 'v) hash_map \<Rightarrow> ('k, 'v) hash_map" where
  "hm_extend m kvs = fold (\<lambda>(k, v). hm_insert k v) kvs m"

definition hm_retain :: "('k \<Rightarrow> 'v \<Rightarrow> bool) \<Rightarrow> ('k, 'v) hash_map \<Rightarrow> ('k, 'v) hash_map" where
  "hm_retain P m = filter (\<lambda>(k, v). P k v) m"

lemma hm_wf_Nil [simp, intro]: "hm_wf []"
  by (simp add: hm_wf_def)

interpretation hm: finite_map "[]" hm_insert hm_get "\<lambda>m. m" hm_wf
  by unfold_locales (auto simp: hm_insert_def hm_wf_def update_conv' distinct_update)

lemma hm_get_insert [simp]: "hm_get (hm_insert k v m) = (hm_get m)(k \<mapsto> v)"
  by (simp add: hm_insert_def update_conv')

lemma hm_wf_insert [intro]: "hm_wf m \<Longrightarrow> hm_wf (hm_insert k v m)"
  by (rule hm.invar_insert)

lemma hm_wf_extend [intro]: "hm_wf m \<Longrightarrow> hm_wf (hm_extend m kvs)"
  unfolding hm_extend_def by (rule hm.invar_insert_all)

lemma hm_get_extend:
  "hm_wf m \<Longrightarrow> hm_wf kvs \<Longrightarrow> hm_get (hm_extend m kvs) = hm_get m ++ hm_get kvs"
  unfolding hm_extend_def by (rule hm.lookup_insert_all_distinct) (simp_all add: hm_wf_def)

lemma hm_wf_retain [intro]: "hm_wf m \<Longrightarrow> hm_wf (hm_retain P m)"
  unfolding hm_wf_def hm_retain_def by (rule distinct_map_filter)

lemma hm_retain_subset: "set (hm_retain P m) \<subseteq> set m"
  by (auto simp: hm_retain_def)

lemma hm_get_retain:
  "hm_wf m \<Longrightarrow> hm_get (hm_retain P m) k =
     (case hm_get m k of None \<Rightarrow> None | Some v \<Rightarrow> if P k v then Some v else None)"
  unfolding hm_wf_def hm_retain_def
  by (induction m) (auto split: option.splits simp: map_of_eq_None_iff image_iff)

section \<open>BTreeMap\<close>

type_synonym ('k, 'v) btree_map = "('k \<times> 'v) list"

definition bt_wf :: "('k :: linorder, 'v) btree_map \<Rightarrow> bool" where
  "bt_wf m \<longleftrightarrow> sorted_wrt (<) (map fst m)"

abbreviation bt_get :: "('k, 'v) btree_map \<Rightarrow> 'k \<Rightarrow> 'v option" where
  "bt_get \<equiv> map_of"

fun bt_insert :: "'k :: linorder \<Rightarrow> 'v \<Rightarrow> ('k, 'v) btree_map \<Rightarrow> ('k, 'v) btree_map" where
  "bt_insert k v [] = [(k, v)]"
| "bt_insert k v ((k', v') # m) =
     (if k' < k then (k', v') # bt_insert k v m
      else if k' = k then (k, v) # m
      else (k, v) # (k', v') # m)"

definition bt_remove :: "'k \<Rightarrow> ('k, 'v) btree_map \<Rightarrow> ('k, 'v) btree_map" where
  "bt_remove k m = filter (\<lambda>kv. fst kv \<noteq> k) m"

lemma keys_bt_insert: "fst ` set (bt_insert k v m) = insert k (fst ` set m)"
  by (induction k v m rule: bt_insert.induct) auto

lemma bt_wf_Cons: "bt_wf ((k, v) # m) \<longleftrightarrow> bt_wf m \<and> (\<forall>k' \<in> fst ` set m. k < k')"
  by (auto simp: bt_wf_def)

lemma bt_wf_Nil [simp, intro]: "bt_wf []"
  by (simp add: bt_wf_def)

lemma bt_wf_insert [intro]: "bt_wf m \<Longrightarrow> bt_wf (bt_insert k v m)"
  by (induction k v m rule: bt_insert.induct) (auto simp: bt_wf_Cons keys_bt_insert)

lemma bt_wf_remove [intro]: "bt_wf m \<Longrightarrow> bt_wf (bt_remove k m)"
  by (simp add: bt_wf_def bt_remove_def sorted_wrt_map sorted_wrt_filter)

lemma bt_get_insert [simp]: "bt_get (bt_insert k v m) = (bt_get m)(k \<mapsto> v)"
  by (induction k v m rule: bt_insert.induct) (auto simp: fun_eq_iff)

lemma bt_get_remove [simp]: "bt_get (bt_remove k m) = (bt_get m)(k := None)"
  by (induction m) (auto simp: bt_remove_def fun_eq_iff)

interpretation bt: ordered_map "[]" bt_insert bt_get "\<lambda>m. m" bt_wf bt_remove
proof (unfold_locales, goal_cases)
  case (5 m)
  then show ?case by (auto simp: bt_wf_def strict_sorted_iff)
next
  case (9 m)
  then show ?case by (simp add: bt_wf_def strict_sorted_iff)
qed auto

lemma bt_wf_distinct: "bt_wf m \<Longrightarrow> distinct (map fst m)"
  by (rule bt.entries_distinct)

end
