(* ===== verification/Trie_Types.thy ===== *)
theory Trie_Types
  imports Rust_Maps
begin

unbundle bit_operations_syntax

text \<open>
  The values every component handles: 32-byte hashes, nibble paths, compact branch nodes, and
  the \<^verbatim>\<open>TrieUpdates\<close> container of branch nodes, with its content as a map from the pair
  (trie, path) to the node. \<^verbatim>\<open>B256\<close> is a 256-bit word read big endian, so that the derived
  byte-wise order of the array is the order of the numbers (lemma \<open>b256_less_iff\<close>).
\<close>

section \<open>32-byte hashes\<close>

lemma u8_less: "unat (b :: u8) < 256"
proof -
  have "unat b < 2 ^ LENGTH(8)" by (rule unsigned_less)
  then show ?thesis by simp
qed

type_synonym b256 = "256 word"
type_synonym u256 = "256 word"

definition b256_byte :: "b256 \<Rightarrow> nat \<Rightarrow> u8" where
  "b256_byte w i = ucast (drop_bit (8 * (31 - i)) w)"

definition b256_bytes :: "b256 \<Rightarrow> u8 list" where
  "b256_bytes w = map (b256_byte w) [0..<32]"

definition b256_of_bytes :: "u8 list \<Rightarrow> b256" where
  "b256_of_bytes bs = foldl (\<lambda>acc b. push_bit 8 acc OR ucast b) 0 bs"

definition b256_zero :: b256 where "b256_zero = 0"

lemma length_b256_bytes [simp]: "length (b256_bytes w) = 32"
  by (simp add: b256_bytes_def)

lemma nth_b256_bytes [simp]: "i < 32 \<Longrightarrow> b256_bytes w ! i = b256_byte w i"
  by (simp add: b256_bytes_def)

lemma bit_b256_byte: "bit (b256_byte w i) n \<longleftrightarrow> n < 8 \<and> bit w (8 * (31 - i) + n)"
  by (auto simp: b256_byte_def bit_simps)

lemma bit_b256_of_bytes:
  "bit (b256_of_bytes bs) n \<longleftrightarrow> n < 256 \<and> n < 8 * length bs \<and> bit (rev bs ! (n div 8)) (n mod 8)"
proof (induction bs arbitrary: n rule: rev_induct)
  case Nil
  then show ?case by (simp add: b256_of_bytes_def)
next
  case (snoc b bs)
  have step: "b256_of_bytes (bs @ [b]) = push_bit 8 (b256_of_bytes bs) OR ucast b"
    by (simp add: b256_of_bytes_def)
  show ?case
  proof (cases "n < 8")
    case True
    then show ?thesis by (auto simp: step bit_simps)
  next
    case False
    then obtain m where m: "n = m + 8" by (metis add.commute le_Suc_ex linorder_not_less)
    have "bit b n \<longleftrightarrow> False" using False bit_imp_le_length [of b n] by auto
    moreover have "(m + 8) div 8 - Suc 0 = m div 8" by simp
    ultimately show ?thesis by (auto simp: step bit_simps m snoc.IH)
  qed
qed

lemma b256_of_bytes_bytes [simp]: "b256_of_bytes (b256_bytes w) = w"
proof (rule bit_word_eqI)
  fix n assume "n < LENGTH(256)"
  then have n: "n < 256" by simp
  then have "31 - (31 - n div 8) = n div 8" and "n div 8 < 32" by auto
  then show "bit (b256_of_bytes (b256_bytes w)) n \<longleftrightarrow> bit w n"
    using n by (simp add: bit_b256_of_bytes rev_nth bit_b256_byte)
qed

lemma b256_bytes_of_bytes [simp]:
  assumes "length bs = 32" shows "b256_bytes (b256_of_bytes bs) = bs"
proof (rule nth_equalityI)
  fix i assume "i < length (b256_bytes (b256_of_bytes bs))"
  then have i: "i < 32" by simp
  show "b256_bytes (b256_of_bytes bs) ! i = bs ! i"
  proof (rule bit_word_eqI)
    fix n assume "n < LENGTH(8)"
    then have n: "n < 8" by simp
    have "(8 * (31 - i) + n) div 8 = 31 - i" and "(8 * (31 - i) + n) mod 8 = n"
      using n by auto
    moreover have "8 * (31 - i) + n < 256" using i n by auto
    moreover have "31 - (31 - i) = i" using i by auto
    ultimately show "bit (b256_bytes (b256_of_bytes bs) ! i) n \<longleftrightarrow> bit (bs ! i) n"
      using i n by (simp add: bit_b256_byte bit_b256_of_bytes assms rev_nth)
  qed
qed (simp add: assms)

lemma b256_bytes_inject [simp]: "b256_bytes v = b256_bytes w \<longleftrightarrow> v = w"
  by (metis b256_of_bytes_bytes)

text \<open>The constructors of \<^verbatim>\<open>alloy_primitives::B256\<close> used by the code.\<close>

definition right_padding_from :: "u8 list \<Rightarrow> b256" where
  "right_padding_from bs = b256_of_bytes (bs @ replicate (32 - length bs) 0)"

definition repeat_byte :: "u8 \<Rightarrow> b256" where
  "repeat_byte b = b256_of_bytes (replicate 32 b)"

definition b256_set_byte :: "nat \<Rightarrow> u8 \<Rightarrow> b256 \<Rightarrow> b256" where
  "b256_set_byte i b w = b256_of_bytes ((b256_bytes w)[i := b])"

text \<open>The first nibble, as \<^verbatim>\<open>hashed_address[0] >> 4\<close> computes it.\<close>

definition first_nibble :: "b256 \<Rightarrow> u8" where
  "first_nibble a = drop_bit 4 (b256_byte a 0)"

lemma first_nibble_less: "unat (first_nibble a) < 16"
proof -
  have "unat (b256_byte a 0) < 256" by (rule u8_less)
  moreover have "unat (first_nibble a) = unat (b256_byte a 0) div 16"
    unfolding first_nibble_def unat_drop_bit_eq by (simp add: drop_bit_eq_div)
  ultimately show ?thesis by simp
qed

subsection \<open>The order of the bytes is the order of the words\<close>

definition byte_value :: "u8 list \<Rightarrow> nat" where
  "byte_value bs = foldl (\<lambda>acc b. 256 * acc + unat b) 0 bs"

lemma byte_value_snoc: "byte_value (bs @ [b]) = 256 * byte_value bs + unat b"
  by (simp add: byte_value_def)

lemma byte_value_less: "byte_value bs < 256 ^ length bs"
proof (induction bs rule: rev_induct)
  case Nil
  then show ?case by (simp add: byte_value_def)
next
  case (snoc b bs)
  have "unat b < 256" by (rule u8_less)
  then show ?case using snoc.IH by (simp add: byte_value_snoc)
qed

lemma byte_value_Cons: "byte_value (b # bs) = unat b * 256 ^ length bs + byte_value bs"
proof (induction bs rule: rev_induct)
  case Nil
  then show ?case by (simp add: byte_value_def)
next
  case (snoc c bs)
  then show ?case using byte_value_snoc [of "b # bs" c] by (simp add: byte_value_snoc)
qed

lemma unat_b256_of_bytes:
  "length bs \<le> 32 \<Longrightarrow> unat (b256_of_bytes bs) = byte_value bs"
proof (induction bs rule: rev_induct)
  case Nil
  then show ?case by (simp add: b256_of_bytes_def byte_value_def)
next
  case (snoc b bs)
  let ?w = "b256_of_bytes bs"
  have IH: "unat ?w = byte_value bs" using snoc by simp
  have small: "256 * byte_value bs + unat b < 2 ^ 256"
  proof -
    have "byte_value (bs @ [b]) < 256 ^ length (bs @ [b])" by (rule byte_value_less)
    also have "\<dots> \<le> 256 ^ 32" using snoc.prems by (intro power_increasing) auto
    finally show ?thesis by (simp add: byte_value_snoc)
  qed
  have sum: "push_bit 8 ?w OR ucast b = push_bit 8 ?w + (ucast b :: b256)"
  proof (rule disjunctive_add [symmetric])
    fix n
    show "\<not> bit (push_bit 8 ?w) n \<or> \<not> bit (ucast b :: b256) n"
      using bit_imp_le_length [of b n] by (auto simp: bit_simps)
  qed
  have shift: "push_bit 8 ?w = 256 * ?w" by (simp add: push_bit_eq_mult)
  have "b256_of_bytes (bs @ [b]) = push_bit 8 ?w OR ucast b" by (simp add: b256_of_bytes_def)
  then have eq: "b256_of_bytes (bs @ [b]) = 256 * ?w + (ucast b :: b256)"
    unfolding sum unfolding shift .
  have "unat (ucast b :: b256) = unat b" 
    using u8_less [of b] by (simp add: unsigned_ucast_eq take_bit_nat_eq_self_iff)
  then show ?case
    using small by (simp add: eq byte_value_snoc unat_word_ariths IH)
qed

lemma byte_value_lexord:
  "length xs = length ys \<Longrightarrow> ord.lexordp (<) xs ys \<Longrightarrow> byte_value xs < byte_value ys"
proof (induction xs ys rule: list_induct2)
  case Nil
  then show ?case by (simp add: ord.lexordp_simps)
next
  case (Cons x xs y ys)
  have bx: "byte_value xs < 256 ^ length ys"
    using byte_value_less [of xs] Cons.hyps by simp
  consider "x < y" | "x = y" "ord.lexordp (<) xs ys"
    using Cons.prems by (cases x y rule: linorder_cases) (auto simp: ord.lexordp_simps)
  then show ?case
  proof cases
    case 1
    then have "unat x < unat y" by (simp add: word_less_nat_alt)
    then have "Suc (unat x) * 256 ^ length ys \<le> unat y * 256 ^ length ys"
      by (intro mult_right_mono) auto
    then show ?thesis using bx Cons.hyps by (simp add: byte_value_Cons)
  next
    case 2
    then show ?thesis using Cons.IH Cons.hyps by (simp add: byte_value_Cons)
  qed
qed

lemma lexordp_total:
  "length xs = length ys \<Longrightarrow> ord.lexordp (<) xs ys \<or> xs = (ys :: u8 list) \<or> ord.lexordp (<) ys xs"
  by (induction xs ys rule: list_induct2) (auto simp: ord.lexordp_simps)

lemma b256_less_iff: "v < w \<longleftrightarrow> ord.lexordp (<) (b256_bytes v) (b256_bytes w)"
proof -
  have val: "unat u = byte_value (b256_bytes u)" for u
    using unat_b256_of_bytes [of "b256_bytes u"] by simp
  have one: "ord.lexordp (<) (b256_bytes v) (b256_bytes w) \<Longrightarrow> v < w" for v w
    using byte_value_lexord [of "b256_bytes v" "b256_bytes w"] by (simp add: word_less_nat_alt val)
  then show ?thesis
    using one [of v w] one [of w v] lexordp_total [of "b256_bytes v" "b256_bytes w"] by force
qed

section \<open>Paths, nodes and events\<close>

text \<open>
  A \<^verbatim>\<open>Nibbles\<close> value is a sequence of four-bit digits. \<^verbatim>\<open>BranchNodeCompact\<close> holds three
  16-bit masks, the child hashes and the optional root hash. \<^verbatim>\<open>Node\<close> of the writer is what a
  sink receives: the hashed address (\<open>None\<close> for the account trie), the path and the node.
\<close>

type_synonym nibble = "4 word"
type_synonym nibbles = "nibble list"

record branch_node =
  state_mask :: u16
  tree_mask :: u16
  hash_mask :: u16
  hashes :: "b256 list"
  root_hash :: "b256 option"

type_synonym node_key = "b256 option \<times> nibbles"
type_synonym node_event = "b256 option \<times> nibbles \<times> branch_node"

definition event_key :: "node_event \<Rightarrow> node_key" where
  "event_key e = (fst e, fst (snd e))"

definition event_node :: "node_event \<Rightarrow> branch_node" where
  "event_node e = snd (snd e)"

definition event_entry :: "node_event \<Rightarrow> node_key \<times> branch_node" where
  "event_entry e = (event_key e, event_node e)"

lemma event_simps [simp]:
  "event_key (a, p, n) = (a, p)" "event_node (a, p, n) = n" "event_entry (a, p, n) = ((a, p), n)"
  by (simp_all add: event_key_def event_node_def event_entry_def)

lemma event_key_pair: "event_key (a, x) = (a, fst x)"
  by (simp add: event_key_def)

lemma fst_event_entry [simp]: "fst (event_entry e) = event_key e"
  by (simp add: event_entry_def)

text \<open>The content a list of events stands for: the last node emitted for each key.\<close>

definition content_of :: "node_event list \<Rightarrow> node_key \<Rightarrow> branch_node option" where
  "content_of es = map_of (map event_entry (rev es))"

lemma content_of_Nil [simp]: "content_of [] = Map.empty"
  by (simp add: content_of_def)

lemma content_of_snoc [simp]:
  "content_of (es @ [e]) = (content_of es)(event_key e \<mapsto> event_node e)"
  by (simp add: content_of_def event_entry_def)

lemma content_of_append: "content_of (es @ fs) = content_of es ++ content_of fs"
  by (simp add: content_of_def)

lemma content_of_eq_None: "content_of es k = None \<longleftrightarrow> k \<notin> event_key ` set es"
  by (auto simp: content_of_def map_of_eq_None_iff image_image)

lemma content_of_permute:
  assumes "distinct (map event_key es)" and "mset es = mset fs"
  shows "content_of es = content_of fs"
proof -
  have "distinct (map fst (map event_entry (rev es)))"
    using assms(1) by (simp add: comp_def flip: rev_map)
  moreover have "mset (map event_entry (rev es)) = mset (map event_entry (rev fs))"
    using assms(2) by simp
  ultimately show ?thesis unfolding content_of_def by (rule map_of_permute)
qed

section \<open>TrieUpdates\<close>

text \<open>
  The fields of reth's \<^verbatim>\<open>StorageTrieUpdates\<close> and \<^verbatim>\<open>TrieUpdates\<close> that the code names; the
  removed account paths are the source of the \<open>None\<close> entries of the sorted form.
\<close>

record storage_trie_updates =
  storage_nodes :: "(nibbles, branch_node) hash_map"
  removed_nodes :: "nibbles list"

record trie_updates =
  account_nodes :: "(nibbles, branch_node) hash_map"
  removed_account_nodes :: "nibbles list"
  storage_tries :: "(b256, storage_trie_updates) hash_map"

definition default_storage_trie :: storage_trie_updates where
  "default_storage_trie = \<lparr>storage_nodes = [], removed_nodes = []\<rparr>"

definition default_updates :: trie_updates where
  "default_updates = \<lparr>account_nodes = [], removed_account_nodes = [], storage_tries = []\<rparr>"

definition entry_or_default :: "b256 \<Rightarrow> trie_updates \<Rightarrow> storage_trie_updates" where
  "entry_or_default a u = (case hm_get (storage_tries u) a of
     None \<Rightarrow> default_storage_trie | Some t \<Rightarrow> t)"

text \<open>The insertion both collecting sinks perform; \<open>updates_prev\<close> is the value it displaces.\<close>

definition updates_prev :: "node_event \<Rightarrow> trie_updates \<Rightarrow> branch_node option" where
  "updates_prev e u = (case e of (None, p, n) \<Rightarrow> hm_get (account_nodes u) p
     | (Some a, p, n) \<Rightarrow> hm_get (storage_nodes (entry_or_default a u)) p)"

definition updates_insert :: "node_event \<Rightarrow> trie_updates \<Rightarrow> trie_updates" where
  "updates_insert e u = (case e of
     (None, p, n) \<Rightarrow> u\<lparr>account_nodes := hm_insert p n (account_nodes u)\<rparr>
   | (Some a, p, n) \<Rightarrow>
       let t = entry_or_default a u in
       u\<lparr>storage_tries :=
           hm_insert a (t\<lparr>storage_nodes := hm_insert p n (storage_nodes t)\<rparr>) (storage_tries u)\<rparr>)"

definition storage_trie_wf :: "storage_trie_updates \<Rightarrow> bool" where
  "storage_trie_wf t \<longleftrightarrow> hm_wf (storage_nodes t)"

definition updates_wf :: "trie_updates \<Rightarrow> bool" where
  "updates_wf u \<longleftrightarrow> hm_wf (account_nodes u) \<and> hm_wf (storage_tries u) \<and>
     (\<forall>(a, t) \<in> set (storage_tries u). storage_trie_wf t)"

definition updates_lookup :: "trie_updates \<Rightarrow> node_key \<Rightarrow> branch_node option" where
  "updates_lookup u k = (case k of (None, p) \<Rightarrow> hm_get (account_nodes u) p
     | (Some a, p) \<Rightarrow> hm_get (storage_nodes (entry_or_default a u)) p)"

lemma updates_lookup_simps [simp]:
  "updates_lookup u (None, p) = hm_get (account_nodes u) p"
  "updates_lookup u (Some a, p) = hm_get (storage_nodes (entry_or_default a u)) p"
  by (simp_all add: updates_lookup_def)

lemma updates_prev_lookup: "updates_prev e u = updates_lookup u (event_key e)"
  by (cases e; cases "fst e") (auto simp: updates_prev_def)

lemma updates_lookup_default [simp]: "updates_lookup default_updates = Map.empty"
  by (auto simp: updates_lookup_def default_updates_def entry_or_default_def
      default_storage_trie_def fun_eq_iff split: option.split)

lemma updates_wf_default [simp, intro]: "updates_wf default_updates"
  by (simp add: updates_wf_def default_updates_def)

lemma entry_or_default_wf: "updates_wf u \<Longrightarrow> storage_trie_wf (entry_or_default a u)"
  by (auto simp: updates_wf_def entry_or_default_def storage_trie_wf_def default_storage_trie_def
      dest: map_of_SomeD split: option.split)

lemma updates_lookup_insert [simp]:
  "updates_lookup (updates_insert e u) = (updates_lookup u)(event_key e \<mapsto> event_node e)"
proof -
  obtain a p n where e: "e = (a, p, n)" by (cases e)
  show ?thesis
    by (cases a) (auto simp: e fun_eq_iff updates_insert_def updates_lookup_def
        entry_or_default_def Let_def split: option.split)
qed

lemma set_hm_insert: "set (hm_insert k v m) \<subseteq> insert (k, v) (set m)"
  by (induction m) (auto simp: hm_insert_def)

lemma updates_wf_insert [intro]: "updates_wf u \<Longrightarrow> updates_wf (updates_insert e u)"
proof -
  assume wf: "updates_wf u"
  obtain a p n where e: "e = (a, p, n)" by (cases e)
  show ?thesis
  proof (cases a)
    case None
    then show ?thesis using wf by (auto simp: e updates_insert_def updates_wf_def)
  next
    case (Some b)
    let ?t = "entry_or_default b u"
    let ?t' = "?t\<lparr>storage_nodes := hm_insert p n (storage_nodes ?t)\<rparr>"
    have "storage_trie_wf ?t'"
      using entry_or_default_wf [OF wf, of b] by (auto simp: storage_trie_wf_def)
    then have "\<forall>(c, t) \<in> set (hm_insert b ?t' (storage_tries u)). storage_trie_wf t"
      using wf set_hm_insert [of b ?t' "storage_tries u"] by (auto simp: updates_wf_def)
    then show ?thesis
      using wf Some by (auto simp: e updates_insert_def updates_wf_def Let_def)
  qed
qed

lemma updates_wf_inserts: "updates_wf u \<Longrightarrow> updates_wf (fold updates_insert es u)"
  by (induction es arbitrary: u) auto

lemma updates_lookup_inserts:
  "updates_lookup (fold updates_insert es u) = updates_lookup u ++ content_of es"
proof (induction es rule: rev_induct)
  case Nil
  then show ?case by simp
next
  case (snoc e es)
  then show ?case by (simp add: fun_eq_iff map_add_def)
qed

subsection \<open>The nodes of an update set, in its iteration order\<close>

definition storage_trie_events :: "b256 \<times> storage_trie_updates \<Rightarrow> node_event list" where
  "storage_trie_events at = map (Pair (Some (fst at))) (storage_nodes (snd at))"

definition updates_events :: "trie_updates \<Rightarrow> node_event list" where
  "updates_events u = map (Pair None) (account_nodes u) @
     concat (map storage_trie_events (storage_tries u))"

lemma account_keys: "map event_key (map (Pair None) xs) = map (Pair None) (map fst xs)"
  by (simp add: comp_def split_def event_key_pair)

lemma storage_keys:
  "map event_key (storage_trie_events at) = map (Pair (Some (fst at))) (map fst (storage_nodes (snd at)))"
  by (simp add: storage_trie_events_def comp_def split_def event_key_pair)

lemma storage_events_key:
  "e \<in> set (storage_trie_events at) \<Longrightarrow> fst e = Some (fst at)"
  by (auto simp: storage_trie_events_def)

lemma distinct_storage_events:
  assumes "distinct (map fst xs)" and "\<forall>(a, t) \<in> set xs. storage_trie_wf t"
  shows "distinct (map event_key (concat (map storage_trie_events xs)))"
  using assms
proof (induction xs)
  case Nil
  then show ?case by simp
next
  case (Cons at xs)
  have "distinct (map event_key (storage_trie_events at))"
    using Cons.prems unfolding storage_keys
    by (auto simp: storage_trie_wf_def hm_wf_def distinct_map_inj inj_def split: prod.splits)
  moreover have "fst at \<noteq> fst bt" if "bt \<in> set xs" for bt
    using Cons.prems(1) that by auto
  then have "event_key ` set (storage_trie_events at) \<inter>
      event_key ` (\<Union>bt \<in> set xs. set (storage_trie_events bt)) = {}"
    by (fastforce simp: event_key_def dest: storage_events_key)
  ultimately show ?case using Cons by simp
qed

lemma distinct_updates_events: "updates_wf u \<Longrightarrow> distinct (map event_key (updates_events u))"
proof -
  assume wf: "updates_wf u"
  let ?A = "map (Pair None) (account_nodes u) :: node_event list"
  let ?S = "concat (map storage_trie_events (storage_tries u))"
  have "distinct (map event_key ?A)"
    using wf unfolding account_keys by (simp add: updates_wf_def hm_wf_def distinct_map_inj inj_def)
  moreover have "distinct (map event_key ?S)"
    using wf by (intro distinct_storage_events) (simp_all add: updates_wf_def hm_wf_def)
  moreover have "set (map event_key ?A) \<inter> set (map event_key ?S) = {}"
    by (fastforce simp: event_key_def dest: storage_events_key)
  ultimately show ?thesis unfolding updates_events_def map_append distinct_append by blast
qed

lemma updates_events_iff:
  assumes "updates_wf u"
  shows "(a, p, n) \<in> set (updates_events u) \<longleftrightarrow> updates_lookup u (a, p) = Some n"
proof (cases a)
  case None
  have "distinct (map fst (account_nodes u))" using assms by (simp add: updates_wf_def hm_wf_def)
  then show ?thesis using None
    by (auto simp: updates_events_def dest: storage_events_key)
next
  case (Some b)
  have d: "distinct (map fst (storage_tries u))" using assms by (simp add: updates_wf_def hm_wf_def)
  have w: "(b, t) \<in> set (storage_tries u) \<Longrightarrow> distinct (map fst (storage_nodes t))" for t
    using assms by (auto simp: updates_wf_def storage_trie_wf_def hm_wf_def)
  have "(a, p, n) \<in> set (updates_events u) \<longleftrightarrow>
      (\<exists>t. (b, t) \<in> set (storage_tries u) \<and> (p, n) \<in> set (storage_nodes t))"
    by (fastforce simp: Some updates_events_def storage_trie_events_def)
  also have "\<dots> \<longleftrightarrow> updates_lookup u (a, p) = Some n"
  proof (cases "hm_get (storage_tries u) b")
    case None
    then have "(b, t) \<notin> set (storage_tries u)" for t
      by (auto simp: map_of_eq_None_iff image_iff)
    with None show ?thesis by (simp add: Some entry_or_default_def default_storage_trie_def)
  next
    case (Some t)
    then have t: "(b, t) \<in> set (storage_tries u)" by (rule map_of_SomeD)
    then have "map_of (storage_nodes t) p = Some n \<longleftrightarrow> (p, n) \<in> set (storage_nodes t)"
      by (intro map_of_eq_Some_iff w)
    moreover have "(b, t') \<in> set (storage_tries u) \<longleftrightarrow> t' = t" for t'
      using t eq_key_imp_eq_value [OF d] by blast
    ultimately show ?thesis
      using Some by (simp add: \<open>a = Some b\<close> entry_or_default_def)
  qed
  finally show ?thesis .
qed

lemma content_updates_events:
  assumes "updates_wf u" shows "content_of (updates_events u) = updates_lookup u"
proof (rule ext)
  fix k :: node_key
  have d: "distinct (map fst (map event_entry (rev (updates_events u))))"
    using distinct_updates_events [OF assms] by (simp add: comp_def flip: rev_map)
  have "content_of (updates_events u) k = Some n \<longleftrightarrow> updates_lookup u k = Some n" for n
  proof -
    have "content_of (updates_events u) k = Some n \<longleftrightarrow> (fst k, snd k, n) \<in> set (updates_events u)"
      unfolding content_of_def map_of_eq_Some_iff [OF d]
      by (force simp: event_entry_def event_key_def event_node_def image_iff)
    then show ?thesis using updates_events_iff [OF assms] by simp
  qed
  then show "content_of (updates_events u) k = updates_lookup u k"
    by (metis option.exhaust)
qed

text \<open>Two update sets with the same content emit the same nodes, in some order.\<close>

lemma mset_events_of_content:
  assumes "distinct (map event_key es)" and "distinct (map event_key fs)"
    and "content_of es = content_of fs"
  shows "mset es = mset fs"
proof -
  have d: "distinct (map fst (map event_entry gs))" if "distinct (map event_key gs)" for gs
    using that by (simp add: comp_def)
  have m: "map_of (map event_entry gs) = content_of gs" if "distinct (map event_key gs)" for gs
    unfolding content_of_def using d [OF that] by (intro map_of_permute) simp_all
  have "mset (map event_entry es) = mset (map event_entry fs)"
    using assms by (intro mset_eq_of_map_of_eq d) (simp_all add: m)
  moreover have "inj event_entry" by (auto simp: inj_def event_entry_def event_key_def event_node_def prod_eq_iff)
  ultimately show ?thesis by (metis mset_map multiset.inj_map_strong injD)
qed

lemma mset_events_of_lookup:
  assumes "updates_wf u" and "distinct (map event_key es)" and "content_of es = updates_lookup u"
  shows "mset (updates_events u) = mset es"
  using assms by (intro mset_events_of_content)
    (simp_all add: distinct_updates_events content_updates_events)

end
