(* ===== verification/Sink_Contract.thy ===== *)
theory Sink_Contract
  imports Trie_Types
begin

text \<open>
  The contract of a \<^verbatim>\<open>TrieSink\<close>: the partition workers call \<open>emit\<close> concurrently, in an order
  that depends on the scheduler, and what the run reports is a \<open>view\<close> of the sink. A sink says
  which pairs of nodes it may receive in either order (\<open>compat\<close>); its clients get that the view
  after a build does not depend on the schedule.
\<close>

locale trie_sink =
  fixes emit :: "node_event \<Rightarrow> 's \<Rightarrow> 's"
    and view :: "'s \<Rightarrow> 'o"
    and invar :: "'s \<Rightarrow> bool"
    and compat :: "node_event \<Rightarrow> node_event \<Rightarrow> bool"
  assumes invar_emit: "invar s \<Longrightarrow> invar (emit e s)"
    and view_cong: "invar s \<Longrightarrow> invar t \<Longrightarrow> view s = view t \<Longrightarrow> view (emit e s) = view (emit e t)"
    and compat_sym: "compat e f \<Longrightarrow> compat f e"
    and view_commute: "invar s \<Longrightarrow> compat e f \<Longrightarrow> view (emit e (emit f s)) = view (emit f (emit e s))"
begin

lemma invar_emits: "invar s \<Longrightarrow> invar (fold emit es s)"
  by (induction es arbitrary: s) (auto simp: invar_emit)

lemma view_emits_cong:
  "invar s \<Longrightarrow> invar t \<Longrightarrow> view s = view t \<Longrightarrow> view (fold emit es s) = view (fold emit es t)"
proof (induction es arbitrary: s t)
  case Nil
  then show ?case by simp
next
  case (Cons e es)
  then show ?case by (simp add: invar_emit view_cong [of s t])
qed

lemma view_emit_last:
  assumes "invar s" and "\<forall>f \<in> set es. compat e f"
  shows "view (fold emit (e # es) s) = view (fold emit (es @ [e]) s)"
  using assms
proof (induction es arbitrary: s)
  case Nil
  then show ?case by simp
next
  case (Cons f es)
  have "view (fold emit (e # f # es) s) = view (fold emit es (emit f (emit e s)))" by simp
  also have "\<dots> = view (fold emit es (emit e (emit f s)))"
    using Cons.prems by (intro view_emits_cong) (auto simp: invar_emit intro: view_commute compat_sym)
  also have "\<dots> = view (fold emit (es @ [e]) (emit f s))"
    using Cons.IH [of "emit f s"] Cons.prems by (simp add: invar_emit)
  finally show ?case by simp
qed

theorem order_irrelevant:
  assumes "invar s" and "sorted_wrt compat es" and "mset es = mset fs"
  shows "view (fold emit es s) = view (fold emit fs s)"
  using assms
proof (induction es arbitrary: s fs)
  case Nil
  then show ?case by simp
next
  case (Cons e es)
  have "e \<in> set fs" using Cons.prems(3) by (metis list.set_intros(1) mset_eq_setD)
  then obtain xs ys where fs: "fs = xs @ e # ys" by (meson split_list)
  have perm: "mset es = mset (xs @ ys)" using Cons.prems(3) by (simp add: fs)
  then have xs: "\<forall>f \<in> set xs. compat e f"
    using Cons.prems(2) mset_eq_setD [OF perm] by auto
  have "view (fold emit (e # es) s) = view (fold emit (xs @ ys) (emit e s))"
    using Cons.IH [of "emit e s" "xs @ ys"] Cons.prems perm by (simp add: invar_emit)
  also have "\<dots> = view (fold emit ys (fold emit (e # xs) s))" by simp
  also have "\<dots> = view (fold emit ys (fold emit (xs @ [e]) s))"
    using view_emit_last [OF Cons.prems(1) xs]
    by (intro view_emits_cong) (auto simp: Cons.prems(1) intro!: invar_emits invar_emit)
  finally show ?case by (simp add: fs)
qed

corollary schedule_irrelevant:
  assumes "invar s" and "sorted_wrt compat (concat ws)"
    and "interleaves ws es"
  shows "view (fold emit es s) = view (fold emit (concat ws) s)"
  using order_irrelevant [OF assms(1,2), of es] interleaves_mset [OF assms(3)] by simp

end

text \<open>The two notions of compatibility in use: any two nodes, or nodes with different keys.\<close>

definition any_order :: "node_event \<Rightarrow> node_event \<Rightarrow> bool" where
  "any_order e f \<longleftrightarrow> True"

definition other_key :: "node_event \<Rightarrow> node_event \<Rightarrow> bool" where
  "other_key e f \<longleftrightarrow> event_key e \<noteq> event_key f"

lemma sorted_wrt_any_order [simp]: "sorted_wrt any_order es"
  by (induction es) (auto simp: any_order_def)

lemma sorted_wrt_other_key [simp]: "sorted_wrt other_key es \<longleftrightarrow> distinct (map event_key es)"
  by (induction es) (auto simp: other_key_def)

end
