(* ===== verification/Node_Digest.thy ===== *)
theory Node_Digest
  imports Sink_Contract
begin

text \<open>
  The order-independent digest (\<^verbatim>\<open>digest.rs\<close>): the bytes of a node, the two seeded hashes folded
  with XOR by atomic operations, the 128-bit snapshot, and the digest of an update set. The hash
  (\<^verbatim>\<open>foldhash\<close>) and \<^verbatim>\<open>Nibbles::pack\<close> are not part of the program: they are the two fields of a
  \<open>hasher\<close>, an argument of every definition that uses them.
\<close>

section \<open>Model\<close>

record hasher =
  hash_one :: "u64 \<Rightarrow> u8 list \<Rightarrow> u64"
  pack_nibbles :: "nibbles \<Rightarrow> u8 list"

definition digest_seeds :: "u64 list" where
  "digest_seeds = [0x747269652d67656e, 0x6e6f64652d646967]"

text \<open>The running digest: the counter and the two 64-bit folds, each an atomic.\<close>

record node_digest =
  dg_count :: u64
  dg_fold0 :: u64
  dg_fold1 :: u64

record digest =
  count :: u64
  xor_fold :: u128

definition digest_default :: node_digest where
  "digest_default = \<lparr>dg_count = 0, dg_fold0 = 0, dg_fold1 = 0\<rparr>"

definition u16_be_bytes :: "u16 \<Rightarrow> u8 list" where
  "u16_be_bytes m = [ucast (drop_bit 8 m), ucast m]"

definition node_buf_capacity :: nat where
  "node_buf_capacity = 32 + 1 + 1 + 32 + 6 + 32 * 17 + 33"

definition opt_hash_bytes :: "b256 option \<Rightarrow> u8 list" where
  "opt_hash_bytes h = b256_bytes (case h of None \<Rightarrow> b256_zero | Some x \<Rightarrow> x)"

definition is_some_byte :: "'a option \<Rightarrow> u8" where
  "is_some_byte x = (case x of None \<Rightarrow> 0 | Some _ \<Rightarrow> 1)"

definition node_buf :: "hasher \<Rightarrow> node_event \<Rightarrow> u8 list" where
  "node_buf h e = (case e of (hashed_address, path, node) \<Rightarrow>
     opt_hash_bytes hashed_address
     @ [is_some_byte hashed_address]
     @ [of_nat (length path)]
     @ pack_nibbles h path
     @ u16_be_bytes (state_mask node)
     @ u16_be_bytes (tree_mask node)
     @ u16_be_bytes (hash_mask node)
     @ concat (map b256_bytes (hashes node))
     @ opt_hash_bytes (root_hash node)
     @ [is_some_byte (root_hash node)])"

text \<open>
  \<^verbatim>\<open>push\<close> is three relaxed atomic read-modify-write operations. They are kept as separate
  operations, so that pushes of several threads can interleave between them.
\<close>

datatype digest_op = Xor_Fold0 u64 | Xor_Fold1 u64 | Add_Count u64

fun run_op :: "digest_op \<Rightarrow> node_digest \<Rightarrow> node_digest" where
  "run_op (Xor_Fold0 x) d = d\<lparr>dg_fold0 := dg_fold0 d XOR x\<rparr>"
| "run_op (Xor_Fold1 x) d = d\<lparr>dg_fold1 := dg_fold1 d XOR x\<rparr>"
| "run_op (Add_Count n) d = d\<lparr>dg_count := dg_count d + n\<rparr>"

definition push_ops :: "hasher \<Rightarrow> node_event \<Rightarrow> digest_op list" where
  "push_ops h e = (let buf = node_buf h e in
     [Xor_Fold0 (hash_one h (digest_seeds ! 0) buf),
      Xor_Fold1 (hash_one h (digest_seeds ! 1) buf),
      Add_Count 1])"

definition push :: "hasher \<Rightarrow> node_event \<Rightarrow> node_digest \<Rightarrow> node_digest" where
  "push h e d = fold run_op (push_ops h e) d"

definition snapshot :: "node_digest \<Rightarrow> digest" where
  "snapshot d = \<lparr>count = dg_count d,
     xor_fold = push_bit 64 (ucast (dg_fold0 d)) OR ucast (dg_fold1 d)\<rparr>"

text \<open>The two loops of \<^verbatim>\<open>of_trie_updates\<close>, in the iteration order of the hash maps.\<close>

definition of_trie_updates :: "hasher \<Rightarrow> trie_updates \<Rightarrow> digest" where
  "of_trie_updates h u =
     snapshot
       (fold (\<lambda>(a, t). fold (\<lambda>(p, n). push h (Some a, p, n)) (storage_nodes t)) (storage_tries u)
         (fold (\<lambda>(p, n). push h (None, p, n)) (account_nodes u) digest_default))"

definition digest_on_branch_node :: "hasher \<Rightarrow> node_event \<Rightarrow> node_digest \<Rightarrow> node_digest" where
  "digest_on_branch_node h e d = push h e d"

section \<open>Folding\<close>

definition hash0 :: "hasher \<Rightarrow> node_event \<Rightarrow> u64" where
  "hash0 h e = hash_one h (digest_seeds ! 0) (node_buf h e)"

definition hash1 :: "hasher \<Rightarrow> node_event \<Rightarrow> u64" where
  "hash1 h e = hash_one h (digest_seeds ! 1) (node_buf h e)"

lemma push_eq:
  "push h e d = \<lparr>dg_count = dg_count d + 1, dg_fold0 = dg_fold0 d XOR hash0 h e,
     dg_fold1 = dg_fold1 d XOR hash1 h e\<rparr>"
  by (cases d) (simp add: push_def push_ops_def hash0_def hash1_def Let_def)

fun xor_all :: "u64 list \<Rightarrow> u64" where
  "xor_all [] = 0"
| "xor_all (x # xs) = x XOR xor_all xs"

lemma xor_all_append: "xor_all (xs @ ys) = xor_all xs XOR xor_all ys"
  by (induction xs) (simp_all add: xor.assoc)

lemma xor_cancel: "x XOR y = x XOR z \<longleftrightarrow> y = (z :: u64)"
proof
  assume "x XOR y = x XOR z"
  then have "x XOR (x XOR y) = x XOR (x XOR z)" by simp
  then show "y = z" unfolding xor.assoc [symmetric] by simp
qed simp

lemma push_all:
  "fold (push h) es d = \<lparr>dg_count = dg_count d + of_nat (length es),
     dg_fold0 = dg_fold0 d XOR xor_all (map (hash0 h) es),
     dg_fold1 = dg_fold1 d XOR xor_all (map (hash1 h) es)\<rparr>"
  by (induction es arbitrary: d) (simp_all add: push_eq xor.assoc add.assoc)

lemma run_op_commute: "run_op x (run_op y d) = run_op y (run_op x d)"
  by (cases x; cases y) (simp_all add: ac_simps)

lemma run_ops_permute:
  "mset xs = mset ys \<Longrightarrow> fold run_op xs d = fold run_op ys d"
  by (rule fold_multiset_equiv [THEN fun_cong]) (auto simp: fun_eq_iff run_op_commute)

lemma push_commute: "push h e (push h f d) = push h f (push h e d)"
  by (simp add: push_eq ac_simps)

lemma fold_push_ops: "fold run_op (concat (map (push_ops h) es)) d = fold (push h) es d"
  by (induction es arbitrary: d) (simp_all add: push_def)

text \<open>The snapshot loses nothing of the running digest.\<close>

lemma bit_snapshot:
  "n < 64 \<Longrightarrow> bit (xor_fold (snapshot d)) n \<longleftrightarrow> bit (dg_fold1 d) n"
  "n < 64 \<Longrightarrow> bit (xor_fold (snapshot d)) (n + 64) \<longleftrightarrow> bit (dg_fold0 d) n"
  by (auto simp: snapshot_def bit_simps dest: bit_imp_le_length)

lemma snapshot_inject: "snapshot d = snapshot e \<longleftrightarrow> d = e"
proof
  assume eq: "snapshot d = snapshot e"
  then have "dg_count d = dg_count e" by (simp add: snapshot_def)
  moreover have "dg_fold0 d = dg_fold0 e"
    by (rule bit_word_eqI) (use bit_snapshot(2) [of _ d] bit_snapshot(2) [of _ e] eq in simp)
  moreover have "dg_fold1 d = dg_fold1 e"
    by (rule bit_word_eqI) (use bit_snapshot(1) [of _ d] bit_snapshot(1) [of _ e] eq in simp)
  ultimately show "d = e" by simp
qed simp

interpretation digest_sink: trie_sink "digest_on_branch_node h" snapshot "\<lambda>_. True" any_order
  by unfold_locales
    (auto simp: any_order_def digest_on_branch_node_def push_commute snapshot_inject)

section \<open>The digest of an update set\<close>

lemma of_trie_updates_events:
  "of_trie_updates h u = snapshot (fold (push h) (updates_events u) digest_default)"
proof -
  have acc: "fold (push h) (map (Pair None) xs) d = fold (\<lambda>(p, n). push h (None, p, n)) xs d"
    for xs d by (induction xs arbitrary: d) auto
  have one: "fold (push h) (storage_trie_events (a, t)) d =
      fold (\<lambda>(p, n). push h (Some a, p, n)) (storage_nodes t) d" for a t d
  proof -
    have "fold (push h) (map (Pair (Some a)) xs) d =
        fold (\<lambda>(p, n). push h (Some a, p, n)) xs d" for xs
      by (induction xs arbitrary: d) auto
    then show ?thesis by (simp add: storage_trie_events_def)
  qed
  have all: "fold (push h) (concat (map storage_trie_events ts)) d =
      fold (\<lambda>(a, t). fold (\<lambda>(p, n). push h (Some a, p, n)) (storage_nodes t)) ts d" for ts d
    by (induction ts arbitrary: d) (auto simp: one)
  show ?thesis by (simp add: of_trie_updates_def updates_events_def acc all)
qed

lemma digest_permute:
  "mset es = mset fs \<Longrightarrow> snapshot (fold (push h) es d) = snapshot (fold (push h) fs d)"
  using digest_sink.order_irrelevant [where h = h and s = d and es = es and fs = fs]
  by (simp add: digest_on_branch_node_def [abs_def])

section \<open>The bytes of a node\<close>

text \<open>
  What \<^verbatim>\<open>nybbles::Nibbles::pack\<close> documents: two nibbles per byte, an odd last one in a byte of
  its own, so that the packed bytes and the number of nibbles determine the path.
  \<open>pack_pairs\<close> is such a function.
\<close>

definition packs_nibbles :: "(nibbles \<Rightarrow> u8 list) \<Rightarrow> bool" where
  "packs_nibbles pack \<longleftrightarrow> (\<forall>p. length (pack p) = (length p + 1) div 2) \<and>
     (\<forall>p q. length p = length q \<longrightarrow> pack p = pack q \<longrightarrow> p = q)"

fun pack_pairs :: "nibbles \<Rightarrow> u8 list" where
  "pack_pairs [] = []"
| "pack_pairs [a] = [push_bit 4 (ucast a)]"
| "pack_pairs (a # b # p) = (push_bit 4 (ucast a) OR ucast b) # pack_pairs p"

lemma nibble_pair_inject:
  fixes a b c d :: nibble
  assumes "push_bit 4 (ucast a :: u8) OR ucast b = push_bit 4 (ucast c) OR ucast d"
  shows "a = c" and "b = d"
proof -
  have hi: "bit (push_bit 4 (ucast x :: u8) OR ucast y) (n + 4) \<longleftrightarrow> bit x n" if "n < 4"
    for x y :: nibble and n
    using that bit_imp_le_length [of y "n + 4"] by (auto simp: bit_simps)
  have lo: "bit (push_bit 4 (ucast x :: u8) OR ucast y) n \<longleftrightarrow> bit y n" if "n < 4"
    for x y :: nibble and n
    using that by (auto simp: bit_simps)
  show "a = c"
    by (rule bit_word_eqI) (use hi [of _ a b] hi [of _ c d] assms in simp)
  show "b = d"
    by (rule bit_word_eqI) (use lo [of _ a b] lo [of _ c d] assms in simp)
qed

lemma packs_pack_pairs: "packs_nibbles pack_pairs"
  unfolding packs_nibbles_def
proof (intro conjI allI impI)
  fix p show "length (pack_pairs p) = (length p + 1) div 2"
    by (induction p rule: pack_pairs.induct) auto
next
  fix p q :: nibbles assume "length p = length q" and "pack_pairs p = pack_pairs q"
  then show "p = q"
  proof (induction p arbitrary: q rule: pack_pairs.induct)
    case 1
    then show ?case by simp
  next
    case (2 a)
    then obtain b where q: "q = [b]" by (cases q) auto
    then show ?case using 2 nibble_pair_inject(1) [of a 0 b 0] by simp
  next
    case (3 a b p)
    then obtain c q1 where "q = c # q1" by (cases q) auto
    with 3 obtain d q' where q: "q = c # d # q'" by (cases q1) auto
    then show ?case using 3 nibble_pair_inject [of a b c d] by simp
  qed
qed

lemma u16_be_bytes_inject: "u16_be_bytes m = u16_be_bytes n \<longleftrightarrow> m = n"
proof
  assume "u16_be_bytes m = u16_be_bytes n"
  then have hi: "(ucast (drop_bit 8 m) :: u8) = ucast (drop_bit 8 n)" and lo: "(ucast m :: u8) = ucast n"
    by (simp_all add: u16_be_bytes_def)
  show "m = n"
  proof (rule bit_word_eqI)
    fix i assume "i < LENGTH(16)"
    have "i < 8 \<Longrightarrow> bit (ucast m :: u8) i = bit (ucast n :: u8) i" using lo by simp
    moreover have "bit (ucast (drop_bit 8 m) :: u8) (i - 8) = bit (ucast (drop_bit 8 n) :: u8) (i - 8)"
      using hi by simp
    ultimately show "bit m i \<longleftrightarrow> bit n i"
      using \<open>i < LENGTH(16)\<close> by (cases "i < 8") (auto simp: bit_simps)
  qed
qed simp

lemma opt_hash_inject:
  "opt_hash_bytes a = opt_hash_bytes b \<Longrightarrow> is_some_byte a = is_some_byte b \<Longrightarrow> a = b"
  by (auto simp: opt_hash_bytes_def is_some_byte_def split: option.splits)

lemma length_opt_hash_bytes [simp]: "length (opt_hash_bytes a) = 32"
  by (simp add: opt_hash_bytes_def)

lemma length_u16_be_bytes [simp]: "length (u16_be_bytes m) = 2"
  by (simp add: u16_be_bytes_def)

lemma length_concat_hashes: "length (concat (map b256_bytes hs)) = 32 * length hs"
  by (induction hs) auto

lemma concat_hashes_inject:
  "length hs = length gs \<Longrightarrow> concat (map b256_bytes hs) = concat (map b256_bytes gs) \<Longrightarrow> hs = gs"
  by (induction hs gs rule: list_induct2) auto

lemma node_tail_inject:
  assumes "concat (map b256_bytes hs) @ opt_hash_bytes r @ [is_some_byte r] =
    concat (map b256_bytes gs) @ opt_hash_bytes s @ [is_some_byte s]"
  shows "hs = gs \<and> r = s"
proof -
  have "length hs = length gs"
    using arg_cong [OF assms, of length] by (simp add: length_concat_hashes)
  then show ?thesis
    using assms by (auto simp: length_concat_hashes dest: concat_hashes_inject opt_hash_inject)
qed

lemma node_buf_injective:
  assumes pack: "packs_nibbles (pack_nibbles h)"
    and small: "length p < 256" "length q < 256"
    and eq: "node_buf h (a, p, m) = node_buf h (b, q, n)"
  shows "(a, p, m) = (b, q, n)"
proof -
  have a: "a = b" and len: "(of_nat (length p) :: u8) = of_nat (length q)" and
    rest: "pack_nibbles h p @ u16_be_bytes (state_mask m) @ u16_be_bytes (tree_mask m) @
        u16_be_bytes (hash_mask m) @ concat (map b256_bytes (hashes m)) @
        opt_hash_bytes (root_hash m) @ [is_some_byte (root_hash m)] =
      pack_nibbles h q @ u16_be_bytes (state_mask n) @ u16_be_bytes (tree_mask n) @
        u16_be_bytes (hash_mask n) @ concat (map b256_bytes (hashes n)) @
        opt_hash_bytes (root_hash n) @ [is_some_byte (root_hash n)]"
    using eq by (auto simp: node_buf_def dest: opt_hash_inject)
  have "unat (of_nat (length p) :: u8) = unat (of_nat (length q) :: u8)" using len by simp
  then have pq: "length p = length q" using small by (simp add: unat_of_nat)
  then have "length (pack_nibbles h p) = length (pack_nibbles h q)"
    using pack by (simp add: packs_nibbles_def)
  then have pn: "pack_nibbles h p = pack_nibbles h q" and
    masks: "state_mask m = state_mask n" "tree_mask m = tree_mask n" "hash_mask m = hash_mask n" and
    tail: "concat (map b256_bytes (hashes m)) @ opt_hash_bytes (root_hash m) @ [is_some_byte (root_hash m)] =
      concat (map b256_bytes (hashes n)) @ opt_hash_bytes (root_hash n) @ [is_some_byte (root_hash n)]"
    using rest by (auto simp: u16_be_bytes_inject)
  have "p = q" using pn pq pack by (auto simp: packs_nibbles_def)
  moreover have "m = n" using masks node_tail_inject [OF tail] by (cases m; cases n) simp
  ultimately show ?thesis using a by simp
qed

lemma length_node_buf:
  assumes "packs_nibbles (pack_nibbles h)"
  shows "length (node_buf h (a, p, n)) = 73 + (length p + 1) div 2 + 32 * length (hashes n)"
  using assms by (simp add: node_buf_def packs_nibbles_def length_concat_hashes)

section \<open>Properties\<close>

text \<open>Concrete arguments for the examples below.\<close>

definition sample_hasher :: hasher where
  "sample_hasher = \<lparr>hash_one = (\<lambda>seed buf. seed + of_nat (length buf)), pack_nibbles = pack_pairs\<rparr>"

definition sample_node :: branch_node where
  "sample_node = \<lparr>state_mask = 3, tree_mask = 0, hash_mask = 1, hashes = [7], root_hash = None\<rparr>"

text \<open>
  C19: Lock-free updates. However the atomic operations of the pushes of any number of threads
  interleave, the snapshot taken afterwards is the one of pushing the same nodes one after the
  other in any order.
\<close>

theorem concurrent_pushes_linearise:
  assumes "interleaves (map (\<lambda>w. concat (map (push_ops h) w)) ws) ops"
    and "mset es = mset (concat ws)"
  shows "snapshot (fold run_op ops digest_default) = snapshot (fold (push h) es digest_default)"
proof -
  have "concat (map (\<lambda>w. concat (map (push_ops h) w)) ws) = concat (map (push_ops h) (concat ws))"
    by (induction ws) auto
  then have "mset ops = mset (concat (map (push_ops h) (concat ws)))"
    using interleaves_mset [OF assms(1)] by metis
  then have "fold run_op ops digest_default = fold (push h) (concat ws) digest_default"
    using run_ops_permute fold_push_ops by metis
  then show ?thesis using digest_permute [OF assms(2)] by simp
qed

theorem concurrent_pushes_linearise_witness:
  "let e = (None, [1], sample_node); f = (Some 5, [2, 3], sample_node); h = sample_hasher;
       ops = [push_ops h e ! 0, push_ops h f ! 0, push_ops h f ! 1, push_ops h e ! 1,
              push_ops h e ! 2, push_ops h f ! 2]
   in snapshot (fold run_op ops digest_default) = snapshot (fold (push h) [f, e] digest_default)"
proof -
  let ?e = "(None, [1], sample_node) :: node_event" and ?f = "(Some 5, [2, 3], sample_node) :: node_event"
  let ?o = "push_ops sample_hasher"
  have ops: "?o g = [?o g ! 0, ?o g ! 1, ?o g ! 2]" for g
    by (simp add: push_ops_def Let_def numeral_2_eq_2)
  have "interleaves [[?o ?e ! 0, ?o ?e ! 1, ?o ?e ! 2], [?o ?f ! 0, ?o ?f ! 1, ?o ?f ! 2]]
      [?o ?e ! 0, ?o ?f ! 0, ?o ?f ! 1, ?o ?e ! 1, ?o ?e ! 2, ?o ?f ! 2]"
    by (rule take_turn [of 0], simp, simp, rule take_turn [of 1], simp, simp,
        rule take_turn [of 1], simp, simp, rule take_turn [of 0], simp, simp,
        rule take_turn [of 0], simp, simp, rule take_turn [of 1], simp, simp)
      (simp add: nothing_left)
  then have "interleaves (map (\<lambda>w. concat (map ?o w)) [[?e], [?f]])
      [?o ?e ! 0, ?o ?f ! 0, ?o ?f ! 1, ?o ?e ! 1, ?o ?e ! 2, ?o ?f ! 2]"
    using ops [of ?e] ops [of ?f] by simp
  from concurrent_pushes_linearise [OF this, of "[?f, ?e]"] show ?thesis
    by (simp add: Let_def)
qed

text \<open>
  C20: The hashed bytes identify a node. With a packing that determines paths of equal length, two
  nodes with paths of fewer than 256 nibbles that give the same buffer have the same account,
  path, masks, hashes and root hash; in particular an absent hash and a zero hash differ.
\<close>

theorem node_buf_identifies_node:
  assumes "packs_nibbles (pack_nibbles h)" and "length p < 256" and "length q < 256"
    and "node_buf h (a, p, m) = node_buf h (b, q, n)"
  shows "a = b \<and> p = q \<and> m = n"
  using node_buf_injective [OF assms] by simp

theorem node_buf_identifies_node_witness:
  "node_buf sample_hasher (None, [1, 2, 3], sample_node) \<noteq>
   node_buf sample_hasher (Some 0, [1, 2, 3], sample_node)"
  using node_buf_identifies_node [of sample_hasher "[1, 2, 3]" "[1, 2, 3]" None sample_node "Some 0" sample_node]
    packs_pack_pairs
  by (auto simp: sample_hasher_def)

text \<open>
  The buffer never grows. A path has at most 64 nibbles and a branch node at most 16 child
  hashes, and then the buffer fits the capacity it is created with.
\<close>

theorem node_buf_within_capacity:
  assumes "packs_nibbles (pack_nibbles h)" and "length p \<le> 64" and "length (hashes n) \<le> 17"
  shows "length (node_buf h (a, p, n)) \<le> node_buf_capacity"
  using length_node_buf [OF assms(1), of a p n] assms(2,3) by (simp add: node_buf_capacity_def)

theorem node_buf_within_capacity_witness:
  "length (node_buf sample_hasher (Some 1, replicate 64 15, sample_node\<lparr>hashes := replicate 16 9\<rparr>))
     \<le> node_buf_capacity"
  by (rule node_buf_within_capacity)
    (use packs_pack_pairs in \<open>simp_all add: sample_hasher_def\<close>)

text \<open>
  C21: The digest notices a changed node: a run that emitted \<open>f\<close> in place of \<open>e\<close>, all else equal
  and in any order, reports the same digest if and only if both 64-bit hashes of the two collide.
\<close>

theorem digest_detects_changed_node:
  assumes "mset es = add_mset e M" and "mset fs = add_mset f M"
  shows "snapshot (fold (push h) es d) = snapshot (fold (push h) fs d) \<longleftrightarrow>
    hash0 h e = hash0 h f \<and> hash1 h e = hash1 h f"
proof -
  obtain xs where M: "M = mset xs" by (metis ex_mset)
  have "snapshot (fold (push h) es d) = snapshot (fold (push h) (xs @ [e]) d)"
    and "snapshot (fold (push h) fs d) = snapshot (fold (push h) (xs @ [f]) d)"
    by (rule digest_permute, simp add: assms M)+
  then show ?thesis by (simp add: snapshot_inject push_eq xor_cancel)
qed

theorem digest_detects_changed_node_witness:
  "snapshot (fold (push sample_hasher) [(None, [1], sample_node), (None, [2], sample_node)] digest_default) \<noteq>
   snapshot (fold (push sample_hasher) [(None, [2], sample_node), (None, [1, 2, 3], sample_node)] digest_default)"
proof -
  let ?e = "(None, [1], sample_node) :: node_event" and ?f = "(None, [1, 2, 3], sample_node) :: node_event"
  let ?g = "(None, [2], sample_node) :: node_event"
  have "hash0 sample_hasher ?e \<noteq> hash0 sample_hasher ?f"
    by (simp add: hash0_def sample_hasher_def node_buf_def length_concat_hashes)
  then show ?thesis
    using digest_detects_changed_node [of "[?e, ?g]" ?e "{#?g#}" "[?g, ?f]" ?f sample_hasher digest_default]
    by simp
qed

text \<open>
  Folding with XOR forgets pairs: any node emitted twice leaves the fold as it was, so two
  runs that each emit some node twice report the same digest, whatever the nodes and the hash.
  Equal count and fold identify sets of nodes, not multisets.
\<close>

theorem digest_blind_to_doubled_nodes:
  "snapshot (fold (push h) [e, e] d) = snapshot (fold (push h) [f, f] d)"
  by (simp add: push_eq xor.assoc)

text \<open>
  The digest of an update set depends on its nodes only, not on the iteration order of its
  hash maps, on storage tries without nodes, or on removed nodes.
\<close>

theorem of_trie_updates_by_content:
  assumes "updates_wf u" and "updates_wf v" and "updates_lookup u = updates_lookup v"
  shows "of_trie_updates h u = of_trie_updates h v"
  unfolding of_trie_updates_events
  by (intro digest_permute mset_events_of_lookup)
    (simp_all add: assms distinct_updates_events content_updates_events)

theorem of_trie_updates_by_content_witness:
  "let n = sample_node; m = n\<lparr>state_mask := 5\<rparr>;
       t = \<lparr>storage_nodes = [], removed_nodes = [[1]]\<rparr>;
       u = \<lparr>account_nodes = [([1], n), ([2], m)], removed_account_nodes = [], storage_tries = [(9, t)]\<rparr>;
       v = \<lparr>account_nodes = [([2], m), ([1], n)], removed_account_nodes = [[3]], storage_tries = []\<rparr>
   in of_trie_updates sample_hasher u = of_trie_updates sample_hasher v"
  unfolding Let_def
  by (rule of_trie_updates_by_content)
    (auto simp: updates_wf_def hm_wf_def storage_trie_wf_def updates_lookup_def entry_or_default_def
      default_storage_trie_def fun_eq_iff split: option.split)

end
