(* ===== verification/Updates_Sink.thy ===== *)
theory Updates_Sink
  imports Node_Digest
begin

text \<open>
  The collecting sink (\<^verbatim>\<open>updates.rs\<close>): sixteen mutex-protected \<^verbatim>\<open>TrieUpdates\<close> shards, selected
  by the first nibble of the account (storage nodes) or of the path (account nodes), merged at the
  end; and \<^verbatim>\<open>without_empty_storage_tries\<close> of \<^verbatim>\<open>lib.rs\<close>. The argument \<open>debug\<close> says whether the
  build has debug assertions.
\<close>

section \<open>Model\<close>

type_synonym updates_sink = "trie_updates mutex list"

definition updates_sink_default :: updates_sink where
  "updates_sink_default = replicate 16 (new_mutex default_updates)"

definition shard_of :: "node_event \<Rightarrow> nat outcome" where
  "shard_of e = (case e of
     (Some hashed_address, _, _) \<Rightarrow> Returns (unat (first_nibble hashed_address))
   | (None, path, _) \<Rightarrow> (case path of
       [] \<Rightarrow> Panics ''stored nodes have a non-empty path''
     | n # _ \<Rightarrow> Returns (unat n)))"

definition updates_on_branch_node ::
    "bool \<Rightarrow> node_event \<Rightarrow> updates_sink \<Rightarrow> updates_sink \<times> unit outcome" where
  "updates_on_branch_node debug e s = (case shard_of e of
     Panics msg \<Rightarrow> (s, Panics msg)
   | Returns i \<Rightarrow>
       let m = s ! i in
       if poisoned m then (s, Panics ''lock is not poisoned'')
       else if debug \<and> updates_prev e (guarded m) \<noteq> None
       then (s[i := \<lparr>poisoned = True, guarded = updates_insert e (guarded m)\<rparr>],
             Panics ''node emitted twice'')
       else (s[i := m\<lparr>guarded := updates_insert e (guarded m)\<rparr>], Returns ()))"

fun merge_shards :: "trie_updates \<Rightarrow> updates_sink \<Rightarrow> trie_updates outcome" where
  "merge_shards updates [] = Returns updates"
| "merge_shards updates (m # ms) =
     (if poisoned m then Panics ''lock is not poisoned''
      else merge_shards (updates\<lparr>
        account_nodes := hm_extend (account_nodes updates) (account_nodes (guarded m)),
        storage_tries := hm_extend (storage_tries updates) (storage_tries (guarded m))\<rparr>) ms)"

definition into_trie_updates :: "updates_sink \<Rightarrow> trie_updates outcome" where
  "into_trie_updates s = merge_shards default_updates s"

definition without_empty_storage_tries :: "trie_updates \<Rightarrow> trie_updates" where
  "without_empty_storage_tries u = u\<lparr>storage_tries :=
     hm_retain (\<lambda>_ t. storage_nodes t \<noteq> [] \<or> removed_nodes t \<noteq> []) (storage_tries u)\<rparr>"

text \<open>A thread emits its nodes one after the other and stops at a panic.\<close>

fun emit_all :: "bool \<Rightarrow> node_event list \<Rightarrow> updates_sink \<Rightarrow> updates_sink \<times> unit outcome" where
  "emit_all debug [] s = (s, Returns ())"
| "emit_all debug (e # es) s = (case updates_on_branch_node debug e s of
     (s', Returns _) \<Rightarrow> emit_all debug es s'
   | (s', Panics msg) \<Rightarrow> (s', Panics msg))"

section \<open>The shard invariant\<close>

definition storable :: "node_event \<Rightarrow> bool" where
  "storable e \<longleftrightarrow> (fst e = None \<longrightarrow> fst (snd e) \<noteq> [])"

definition key_shard :: "node_key \<Rightarrow> nat" where
  "key_shard k = (case k of (Some a, _) \<Rightarrow> unat (first_nibble a)
     | (None, []) \<Rightarrow> 0 | (None, n # _) \<Rightarrow> unat n)"

lemma key_shard_less: "key_shard k < 16"
proof -
  have "unat (n :: nibble) < 16" for n
  proof -
    have "unat n < 2 ^ LENGTH(4)" by (rule unsigned_less)
    then show ?thesis by simp
  qed
  then show ?thesis
    using first_nibble_less by (auto simp: key_shard_def split: option.split list.split prod.split)
qed

lemma shard_of_storable: "storable e \<Longrightarrow> shard_of e = Returns (key_shard (event_key e))"
  by (auto simp: storable_def shard_of_def key_shard_def event_key_def split: prod.split option.split list.split)

definition shard_ok :: "nat \<Rightarrow> trie_updates \<Rightarrow> bool" where
  "shard_ok i u \<longleftrightarrow> updates_wf u \<and>
     (\<forall>p \<in> dom (hm_get (account_nodes u)). key_shard (None, p) = i) \<and>
     (\<forall>a \<in> dom (hm_get (storage_tries u)). unat (first_nibble a) = i)"

definition sink_ok :: "updates_sink \<Rightarrow> bool" where
  "sink_ok s \<longleftrightarrow> length s = 16 \<and> (\<forall>i < 16. shard_ok i (guarded (s ! i)))"

definition unpoisoned :: "updates_sink \<Rightarrow> bool" where
  "unpoisoned s \<longleftrightarrow> (\<forall>m \<in> set s. \<not> poisoned m)"

text \<open>The content of the sink: each key is looked up in its shard.\<close>

definition sink_lookup :: "updates_sink \<Rightarrow> node_key \<Rightarrow> branch_node option" where
  "sink_lookup s k = updates_lookup (guarded (s ! key_shard k)) k"

lemma shard_ok_default: "shard_ok i default_updates"
  by (simp add: shard_ok_def) (simp add: default_updates_def)

lemma sink_ok_default [simp, intro]: "sink_ok updates_sink_default"
  by (simp add: sink_ok_def updates_sink_default_def shard_ok_default)

lemma unpoisoned_default [simp, intro]: "unpoisoned updates_sink_default"
  by (simp add: unpoisoned_def updates_sink_default_def)

lemma sink_lookup_default [simp]: "sink_lookup updates_sink_default = Map.empty"
  by (simp add: fun_eq_iff sink_lookup_def updates_sink_default_def key_shard_less)

lemma shard_ok_insert:
  assumes "shard_ok (key_shard (event_key e)) u"
  shows "shard_ok (key_shard (event_key e)) (updates_insert e u)"
proof -
  obtain a p n where e: "e = (a, p, n)" by (cases e)
  show ?thesis
    using assms updates_wf_insert [of u e]
    by (cases a) (auto simp: shard_ok_def e updates_insert_def Let_def key_shard_def)
qed

lemma nth_unpoisoned: "unpoisoned s \<Longrightarrow> i < length s \<Longrightarrow> \<not> poisoned (s ! i)"
  by (simp add: unpoisoned_def)

text \<open>One node, when it does not panic.\<close>

lemma emit_step:
  assumes ok: "sink_ok s" and up: "unpoisoned s" and st: "storable e"
    and fresh: "debug \<Longrightarrow> sink_lookup s (event_key e) = None"
  shows "\<exists>s'. updates_on_branch_node debug e s = (s', Returns ()) \<and> sink_ok s' \<and> unpoisoned s' \<and>
    sink_lookup s' = (sink_lookup s)(event_key e \<mapsto> event_node e)"
proof -
  let ?i = "key_shard (event_key e)"
  let ?m = "s ! ?i"
  let ?s = "s[?i := ?m\<lparr>guarded := updates_insert e (guarded ?m)\<rparr>]"
  have i: "?i < length s" using ok key_shard_less by (simp add: sink_ok_def)
  have np: "\<not> poisoned ?m" using up i by (rule nth_unpoisoned)
  have "updates_on_branch_node debug e s = (?s, Returns ())"
    using np fresh by (auto simp: updates_on_branch_node_def shard_of_storable [OF st] Let_def
        updates_prev_lookup sink_lookup_def)
  moreover have "sink_ok ?s"
    using ok i shard_ok_insert by (auto simp: sink_ok_def nth_list_update)
  moreover have "unpoisoned ?s"
    using up np by (auto simp: unpoisoned_def dest!: subsetD [OF set_update_subset_insert])
  moreover have "sink_lookup ?s = (sink_lookup s)(event_key e \<mapsto> event_node e)"
    using i by (auto simp: sink_lookup_def fun_eq_iff nth_list_update)
  ultimately show ?thesis by blast
qed

lemma emit_all_ok:
  assumes "sink_ok s" and "unpoisoned s" and "\<forall>e \<in> set es. storable e"
    and "debug \<Longrightarrow> distinct (map event_key es) \<and> (\<forall>e \<in> set es. sink_lookup s (event_key e) = None)"
  shows "\<exists>s'. emit_all debug es s = (s', Returns ()) \<and> sink_ok s' \<and> unpoisoned s' \<and>
    sink_lookup s' = sink_lookup s ++ content_of es"
  using assms
proof (induction es arbitrary: s)
  case Nil
  then show ?case by simp
next
  case (Cons e es)
  obtain s1 where s1: "updates_on_branch_node debug e s = (s1, Returns ())" "sink_ok s1" "unpoisoned s1"
      "sink_lookup s1 = (sink_lookup s)(event_key e \<mapsto> event_node e)"
    using emit_step [of s e debug] Cons.prems by auto
  have "distinct (map event_key es) \<and> (\<forall>f \<in> set es. sink_lookup s1 (event_key f) = None)" if debug
  proof -
    have all: "event_key e \<notin> event_key ` set es" "distinct (map event_key es)"
        "\<forall>f \<in> set es. sink_lookup s (event_key f) = None"
      using Cons.prems(4) [OF that] by simp_all
    have "event_key f \<noteq> event_key e" if "f \<in> set es" for f
      using all(1) that by (metis imageI)
    then show ?thesis using all(2,3) by (simp add: s1(4))
  qed
  then obtain s2 where "emit_all debug es s1 = (s2, Returns ())" "sink_ok s2" "unpoisoned s2"
      "sink_lookup s2 = sink_lookup s1 ++ content_of es"
    using Cons.IH [OF s1(2,3)] Cons.prems(3) by auto
  moreover have "sink_lookup s1 ++ content_of es = sink_lookup s ++ content_of (e # es)"
    using content_of_append [of "[e]" es] content_of_snoc [of "[]" e] by (simp add: s1(4))
  ultimately show ?case by (simp add: s1(1))
qed

section \<open>Merging the shards\<close>

lemma merge_shards_maps:
  assumes "hm_wf (account_nodes u)" and "hm_wf (storage_tries u)"
    and "\<forall>m \<in> set ms. \<not> poisoned m \<and> updates_wf (guarded m)"
    and "\<forall>(a, t) \<in> set (storage_tries u). storage_trie_wf t"
  shows "\<exists>r. merge_shards u ms = Returns r \<and> updates_wf r \<and>
    hm_get (account_nodes r) = foldl (++) (hm_get (account_nodes u)) (map (\<lambda>m. hm_get (account_nodes (guarded m))) ms) \<and>
    hm_get (storage_tries r) = foldl (++) (hm_get (storage_tries u)) (map (\<lambda>m. hm_get (storage_tries (guarded m))) ms)"
  using assms
proof (induction ms arbitrary: u)
  case Nil
  then show ?case by (simp add: updates_wf_def)
next
  case (Cons m ms)
  let ?u = "u\<lparr>account_nodes := hm_extend (account_nodes u) (account_nodes (guarded m)),
              storage_tries := hm_extend (storage_tries u) (storage_tries (guarded m))\<rparr>"
  have wf: "updates_wf (guarded m)" using Cons.prems by simp
  have sub: "set (hm_extend xs ys) \<subseteq> set xs \<union> set ys" for xs ys :: "(b256 \<times> storage_trie_updates) list"
    unfolding hm_extend_def
  proof (induction ys arbitrary: xs)
    case Nil
    then show ?case by simp
  next
    case (Cons y ys)
    then show ?case using set_hm_insert [of "fst y" "snd y" xs] by (fastforce simp: case_prod_unfold)
  qed
  have "\<exists>r. merge_shards ?u ms = Returns r \<and> updates_wf r \<and>
      hm_get (account_nodes r) = foldl (++) (hm_get (account_nodes ?u)) (map (\<lambda>m. hm_get (account_nodes (guarded m))) ms) \<and>
      hm_get (storage_tries r) = foldl (++) (hm_get (storage_tries ?u)) (map (\<lambda>m. hm_get (storage_tries (guarded m))) ms)"
    using Cons.prems wf sub [of "storage_tries u" "storage_tries (guarded m)"]
    by (intro Cons.IH) (auto simp: updates_wf_def)
  then show ?case
    using Cons.prems wf by (simp add: hm_get_extend updates_wf_def)
qed

lemma merged_content:
  assumes ok: "sink_ok s" and up: "unpoisoned s"
  shows "\<exists>u. into_trie_updates s = Returns u \<and> updates_wf u \<and> updates_lookup u = sink_lookup s"
proof -
  have wfs: "\<forall>m \<in> set s. \<not> poisoned m \<and> updates_wf (guarded m)"
  proof
    fix m assume m: "m \<in> set s"
    then obtain i where "i < length s" "m = s ! i" by (metis in_set_conv_nth)
    then show "\<not> poisoned m \<and> updates_wf (guarded m)"
      using ok up m by (simp add: sink_ok_def shard_ok_def unpoisoned_def)
  qed
  obtain u where u: "into_trie_updates s = Returns u" "updates_wf u"
    and acc: "hm_get (account_nodes u) = foldl (++) Map.empty (map (\<lambda>m. hm_get (account_nodes (guarded m))) s)"
    and sto: "hm_get (storage_tries u) = foldl (++) Map.empty (map (\<lambda>m. hm_get (storage_tries (guarded m))) s)"
  proof -
    have "account_nodes default_updates = []" and "storage_tries default_updates = []"
      by (simp_all add: default_updates_def)
    then have "\<exists>u. merge_shards default_updates s = Returns u \<and> updates_wf u \<and>
        hm_get (account_nodes u) = foldl (++) Map.empty (map (\<lambda>m. hm_get (account_nodes (guarded m))) s) \<and>
        hm_get (storage_tries u) = foldl (++) Map.empty (map (\<lambda>m. hm_get (storage_tries (guarded m))) s)"
      using merge_shards_maps [of default_updates s] wfs by simp
    then show ?thesis using that unfolding into_trie_updates_def by blast
  qed
  have len: "length s = 16" and sh: "\<And>i. i < 16 \<Longrightarrow> shard_ok i (guarded (s ! i))"
    using ok by (auto simp: sink_ok_def)
  have "updates_lookup u k = sink_lookup s k" for k
  proof (cases k)
    case (Pair a p)
    show ?thesis
    proof (cases a)
      case None
      let ?i = "key_shard (None, p)"
      have "hm_get (account_nodes (guarded (s ! j))) p = None" if "j < 16" "j \<noteq> ?i" for j
        using sh [OF that(1)] that(2) by (auto simp: shard_ok_def)
      then have "hm_get (account_nodes u) p = hm_get (account_nodes (guarded (s ! ?i))) p"
        unfolding acc using key_shard_less [of "(None, p)"]
        by (subst foldl_map_add_unique [of ?i]) (auto simp: len)
      then show ?thesis by (simp add: Pair None sink_lookup_def)
    next
      case (Some b)
      let ?i = "unat (first_nibble b)"
      have "hm_get (storage_tries (guarded (s ! j))) b = None" if "j < 16" "j \<noteq> ?i" for j
        using sh [OF that(1)] that(2) by (auto simp: shard_ok_def)
      then have "hm_get (storage_tries u) b = hm_get (storage_tries (guarded (s ! ?i))) b"
        unfolding sto using first_nibble_less [of b]
        by (subst foldl_map_add_unique [of ?i]) (auto simp: len)
      then show ?thesis by (simp add: Pair Some sink_lookup_def key_shard_def entry_or_default_def)
    qed
  qed
  then show ?thesis using u by blast
qed

lemma merge_shards_poisoned:
  "m \<in> set ms \<Longrightarrow> poisoned m \<Longrightarrow> merge_shards u ms = Panics ''lock is not poisoned''"
  by (induction ms arbitrary: u) auto

lemma merge_poisoned: "m \<in> set s \<Longrightarrow> poisoned m \<Longrightarrow> into_trie_updates s = Panics ''lock is not poisoned''"
  unfolding into_trie_updates_def by (rule merge_shards_poisoned)

text \<open>
  The sink contract: nodes under different keys may come in any order. The view is the content of
  the shards.
\<close>

definition collect :: "node_event \<Rightarrow> updates_sink \<Rightarrow> updates_sink" where
  "collect e s = fst (updates_on_branch_node False e s)"

lemma collect_not_storable: "\<not> storable e \<Longrightarrow> collect e s = s"
  by (auto simp: collect_def storable_def updates_on_branch_node_def shard_of_def split: prod.split)

lemma collect_storable:
  assumes "sink_ok s" and "unpoisoned s" and "storable e"
  shows "sink_ok (collect e s)" and "unpoisoned (collect e s)"
    and "sink_lookup (collect e s) = (sink_lookup s)(event_key e \<mapsto> event_node e)"
  using emit_step [OF assms, of False] by (auto simp: collect_def)

interpretation collecting_sink: trie_sink collect sink_lookup "\<lambda>s. sink_ok s \<and> unpoisoned s" other_key
proof (unfold_locales, goal_cases)
  case (1 s e)
  then show ?case by (cases "storable e") (simp_all add: collect_not_storable collect_storable)
next
  case (2 s t e)
  then show ?case by (cases "storable e") (simp_all add: collect_not_storable collect_storable)
next
  case (3 e f)
  then show ?case by (simp add: other_key_def)
next
  case (4 s e f)
  then show ?case
    by (cases "storable e"; cases "storable f")
      (auto simp: collect_not_storable collect_storable other_key_def)
qed

lemma without_empty_lookup:
  assumes "updates_wf u"
  shows "updates_wf (without_empty_storage_tries u)"
    and "updates_lookup (without_empty_storage_tries u) = updates_lookup u"
proof -
  have "hm_wf (storage_tries u)" using assms by (simp add: updates_wf_def)
  then show "updates_lookup (without_empty_storage_tries u) = updates_lookup u"
    by (auto simp: fun_eq_iff updates_lookup_def without_empty_storage_tries_def entry_or_default_def
        hm_get_retain default_storage_trie_def split: option.split)
  show "updates_wf (without_empty_storage_tries u)"
    using assms hm_retain_subset [THEN subsetD]
    by (fastforce simp: updates_wf_def without_empty_storage_tries_def intro: hm_wf_retain)
qed

section \<open>Properties\<close>

text \<open>
  C17: The collecting sink collects. Nodes under distinct keys, with non-empty account paths, are
  accepted without a panic (also with debug assertions), and merging the shards by plain insertion
  gives an update set that holds exactly the emitted nodes.
\<close>

theorem updates_sink_collects:
  assumes "\<forall>e \<in> set es. storable e" and "debug \<Longrightarrow> distinct (map event_key es)"
  shows "\<exists>s u. emit_all debug es updates_sink_default = (s, Returns ()) \<and>
    into_trie_updates s = Returns u \<and> updates_wf u \<and> updates_lookup u = content_of es"
proof -
  obtain s where s: "emit_all debug es updates_sink_default = (s, Returns ())" "sink_ok s" "unpoisoned s"
      and lk: "sink_lookup s = content_of es"
    using emit_all_ok [of updates_sink_default es debug] assms by auto
  obtain u where "into_trie_updates s = Returns u" "updates_wf u" "updates_lookup u = content_of es"
    using merged_content [OF s(2,3)] lk by auto
  then show ?thesis using s(1) by blast
qed

theorem updates_sink_collects_witness:
  "let n = sample_node; es = [(Some 5, [], n), (None, [1, 2], n), (Some 5, [4], n), (None, [15], n)]
   in \<exists>s u. emit_all True es updates_sink_default = (s, Returns ()) \<and>
     into_trie_updates s = Returns u \<and> updates_wf u \<and> updates_lookup u (Some 5, [4]) = Some n"
  using updates_sink_collects [of "[(Some 5, [], sample_node), (None, [1, 2], sample_node),
    (Some 5, [4], sample_node), (None, [15], sample_node)]" True]
  by (auto simp: storable_def Let_def content_of_def simp del: updates_lookup_simps)

text \<open>
  C18: Digest parity. For nodes under distinct keys, digesting them as they are emitted (the sink of
  a large run) gives the digest of the update set the collecting sink returns (the reference of a
  small run), whatever order either run emits in.
\<close>

theorem collected_digest_parity:
  assumes "\<forall>e \<in> set es. storable e" and "distinct (map event_key es)" and "mset fs = mset es"
    and "emit_all debug es updates_sink_default = (s, r)" and "into_trie_updates s = Returns u"
  shows "of_trie_updates h u = snapshot (fold (digest_on_branch_node h) fs digest_default)"
proof -
  obtain s' where s': "emit_all debug es updates_sink_default = (s', Returns ())" "sink_ok s'" "unpoisoned s'"
      and lk: "sink_lookup s' = content_of es"
    using emit_all_ok [of updates_sink_default es debug] assms(1,2) by auto
  then have "updates_wf u" and "updates_lookup u = content_of es"
    using merged_content [OF s'(2,3)] assms(4,5) by auto
  then have "mset (updates_events u) = mset fs"
    using assms(2,3) mset_events_of_lookup by metis
  then show ?thesis
    unfolding of_trie_updates_events digest_on_branch_node_def [abs_def] by (rule digest_permute)
qed

theorem collected_digest_parity_witness:
  "let n = sample_node; e = (None, [1], n); f = (Some 5, [4], n);
       s = fst (emit_all False [e, f] updates_sink_default)
   in \<exists>u. into_trie_updates s = Returns u \<and>
     of_trie_updates sample_hasher u =
     snapshot (fold (digest_on_branch_node sample_hasher) [f, e] digest_default)"
proof -
  let ?e = "(None, [1], sample_node) :: node_event" and ?f = "(Some 5, [4], sample_node) :: node_event"
  have "\<forall>e \<in> set [?e, ?f]. storable e" by (simp add: storable_def)
  from emit_all_ok [OF sink_ok_default unpoisoned_default this, of False] obtain s
    where s: "emit_all False [?e, ?f] updates_sink_default = (s, Returns ())" and ok: "sink_ok s" "unpoisoned s"
    by blast
  obtain u where u: "into_trie_updates s = Returns u"
    using merged_content [OF ok] by blast
  have "of_trie_updates sample_hasher u =
      snapshot (fold (digest_on_branch_node sample_hasher) [?f, ?e] digest_default)"
    by (rule collected_digest_parity [OF _ _ _ s u]) (auto simp: storable_def)
  then show ?thesis using s u by (auto simp: Let_def)
qed

text \<open>
  Scheduling of the workers. Workers that emit nodes under distinct keys leave the collecting
  sink with the same content however their calls interleave.
\<close>

theorem collecting_sink_schedule_irrelevant:
  assumes "distinct (map event_key (concat ws))" and "interleaves ws es"
  shows "sink_lookup (fold collect es updates_sink_default) =
    sink_lookup (fold collect (concat ws) updates_sink_default)"
  using assms by (intro collecting_sink.schedule_irrelevant) simp_all

theorem collecting_sink_schedule_irrelevant_witness:
  "let n = sample_node; e = (None, [1], n); f = (Some 5, [4], n); g = (None, [2], n)
   in sink_lookup (fold collect [f, e, g] updates_sink_default) =
      sink_lookup (fold collect [e, g, f] updates_sink_default)"
proof -
  let ?e = "(None, [1], sample_node) :: node_event" and ?f = "(Some 5, [4], sample_node) :: node_event"
  let ?g = "(None, [2], sample_node) :: node_event"
  have "interleaves [[?e, ?g], [?f]] [?f, ?e, ?g]"
    by (rule take_turn [of 1], simp, simp, rule take_turn [of 0], simp, simp,
        rule take_turn [of 0], simp, simp) (simp add: nothing_left)
  from collecting_sink_schedule_irrelevant [OF _ this] show ?thesis by (simp add: Let_def)
qed

text \<open>
  C22: A panic under the lock is not lost. With debug assertions, emitting a second node under a key
  the sink already holds panics and poisons that shard, after which no update set is returned:
  merging panics. Without them the second node replaces the first.
\<close>

theorem duplicate_node_poisons_sink:
  assumes "sink_ok s" and "unpoisoned s" and "storable e" and "sink_lookup s (event_key e) \<noteq> None"
  shows "(\<exists>s'. updates_on_branch_node True e s = (s', Panics ''node emitted twice'') \<and>
      into_trie_updates s' = Panics ''lock is not poisoned'') \<and>
    (\<exists>s' u. updates_on_branch_node False e s = (s', Returns ()) \<and>
      into_trie_updates s' = Returns u \<and> updates_lookup u = (sink_lookup s)(event_key e \<mapsto> event_node e))"
proof -
  let ?i = "key_shard (event_key e)"
  let ?m = "\<lparr>poisoned = True, guarded = updates_insert e (guarded (s ! ?i))\<rparr>"
  have i: "?i < length s" using assms(1) key_shard_less by (simp add: sink_ok_def)
  have np: "\<not> poisoned (s ! ?i)" using assms(2) i by (rule nth_unpoisoned)
  have "updates_on_branch_node True e s = (s[?i := ?m], Panics ''node emitted twice'')"
    using np assms(4) by (auto simp: updates_on_branch_node_def shard_of_storable [OF assms(3)] Let_def
        updates_prev_lookup sink_lookup_def)
  moreover have "into_trie_updates (s[?i := ?m]) = Panics ''lock is not poisoned''"
    by (rule merge_poisoned [OF set_update_memI [OF i]]) simp
  moreover obtain s' where s': "updates_on_branch_node False e s = (s', Returns ())" "sink_ok s'"
      "unpoisoned s'" "sink_lookup s' = (sink_lookup s)(event_key e \<mapsto> event_node e)"
    using emit_step [OF assms(1-3), of False] by blast
  moreover obtain u where "into_trie_updates s' = Returns u" "updates_lookup u = sink_lookup s'"
    using merged_content [OF s'(2,3)] by blast
  ultimately show ?thesis by metis
qed

theorem duplicate_node_poisons_sink_witness:
  "let e = (Some 5, [4], sample_node); s = fst (updates_on_branch_node True e updates_sink_default)
   in \<exists>s'. updates_on_branch_node True e s = (s', Panics ''node emitted twice'') \<and>
      into_trie_updates s' = Panics ''lock is not poisoned''"
proof -
  let ?e = "(Some 5, [4], sample_node) :: node_event"
  have st: "storable ?e" by (simp add: storable_def)
  from emit_step [OF sink_ok_default unpoisoned_default st, of True] obtain s
    where "updates_on_branch_node True ?e updates_sink_default = (s, Returns ())" "sink_ok s"
      "unpoisoned s" "sink_lookup s (event_key ?e) \<noteq> None"
    by auto
  then show ?thesis using duplicate_node_poisons_sink [OF _ _ st] by (simp add: Let_def)
qed

text \<open>
  C23: Dropping empty storage tries changes no node. The nodes and the digest of the update set are
  kept, exactly the tries with neither stored nor removed nodes disappear, and a second pass does
  nothing.
\<close>

theorem without_empty_storage_tries_correct:
  assumes "updates_wf u"
  shows "updates_lookup (without_empty_storage_tries u) = updates_lookup u \<and>
    of_trie_updates h (without_empty_storage_tries u) = of_trie_updates h u \<and>
    without_empty_storage_tries (without_empty_storage_tries u) = without_empty_storage_tries u \<and>
    (hm_get (storage_tries (without_empty_storage_tries u)) a = Some t \<longleftrightarrow>
     hm_get (storage_tries u) a = Some t \<and> (storage_nodes t \<noteq> [] \<or> removed_nodes t \<noteq> []))"
proof (intro conjI)
  let ?v = "without_empty_storage_tries u"
  note w = without_empty_lookup [OF assms]
  show "updates_lookup ?v = updates_lookup u" by (rule w(2))
  show "of_trie_updates h ?v = of_trie_updates h u"
    unfolding of_trie_updates_events by (intro digest_permute mset_events_of_lookup)
      (simp_all add: assms w distinct_updates_events content_updates_events)
  show "without_empty_storage_tries ?v = ?v"
    by (simp add: without_empty_storage_tries_def hm_retain_def)
  have "hm_wf (storage_tries u)" using assms by (simp add: updates_wf_def)
  then show "hm_get (storage_tries ?v) a = Some t \<longleftrightarrow>
      hm_get (storage_tries u) a = Some t \<and> (storage_nodes t \<noteq> [] \<or> removed_nodes t \<noteq> [])"
    by (auto simp: without_empty_storage_tries_def hm_get_retain split: option.split)
qed

theorem without_empty_storage_tries_correct_witness:
  "let t = \<lparr>storage_nodes = [([1], sample_node)], removed_nodes = []\<rparr>;
       u = \<lparr>account_nodes = [], removed_account_nodes = [], storage_tries = [(8, default_storage_trie), (9, t)]\<rparr>
   in hm_get (storage_tries (without_empty_storage_tries u)) 9 = Some t \<and>
      of_trie_updates sample_hasher (without_empty_storage_tries u) = of_trie_updates sample_hasher u"
proof -
  let ?t = "\<lparr>storage_nodes = [([1], sample_node)], removed_nodes = []\<rparr>"
  let ?u = "\<lparr>account_nodes = [], removed_account_nodes = [], storage_tries = [(8, default_storage_trie), (9, ?t)]\<rparr>"
  have "updates_wf ?u"
    by (simp add: updates_wf_def hm_wf_def storage_trie_wf_def default_storage_trie_def)
  from without_empty_storage_tries_correct [OF this, of sample_hasher 9 ?t] show ?thesis
    by (simp add: Let_def)
qed

end
