(* ===== verification/Trie_Store.thy ===== *)
theory Trie_Store
  imports Trie_Types
begin

text \<open>
  The database the code runs on. reth's \<^verbatim>\<open>Database\<close>, \<^verbatim>\<open>DbTx\<close>, \<^verbatim>\<open>DbTxMut\<close> and cursor traits, the key
  adapters and \<^verbatim>\<open>TrieUpdates::into_sorted\<close> are not part of the program: they are the fields of
  a \<open>trie_db\<close>, an argument of every definition that uses them, over an arbitrary type of
  databases, transactions and table keys. Every operation can fail. The locale \<open>trie_store\<close>
  states what the code relies on: the documented behaviour of a key-value table behind
  transactions. \<open>ref_db\<close> is a database in memory that has it.
\<close>

section \<open>The interface\<close>

text \<open>The code itself builds only \<^verbatim>\<open>DatabaseError::Other\<close>; all other variants come from the database.\<close>

datatype db_error = Other string | Backend nat

type_synonym sorted_nodes = "(nibbles \<times> branch_node option) list"

record sorted_updates =
  sorted_account_nodes :: sorted_nodes
  sorted_storage_tries :: "(b256, sorted_nodes) hash_map"

text \<open>\<^verbatim>\<open>reth_primitives_traits::Account\<close>, the value of the hashed account table.\<close>

record account =
  nonce :: u64
  balance :: u256
  bytecode_hash :: "b256 option"

text \<open>
  The boolean arguments select the key adapter: \<open>True\<close> is \<^verbatim>\<open>PackedKeyAdapter\<close>, \<open>False\<close> is
  \<^verbatim>\<open>LegacyKeyAdapter\<close>. A write cursor and its position are part of the transaction.
\<close>

record ('d, 't, 'k) trie_db =
  db_tx :: "'d \<Rightarrow> db_error + 't"
  db_tx_mut :: "'d \<Rightarrow> db_error + 't"
  tx_commit :: "'t \<Rightarrow> 'd \<Rightarrow> 'd \<times> (db_error + unit)"
  tx_clear_accounts :: "'t \<Rightarrow> db_error + 't"
  tx_clear_storages :: "'t \<Rightarrow> db_error + 't"
  tx_account_cursor :: "'t \<Rightarrow> db_error + 't"
  tx_storage_cursor :: "'t \<Rightarrow> db_error + 't"
  cur_upsert :: "'k \<Rightarrow> branch_node \<Rightarrow> 't \<Rightarrow> db_error + 't"
  cur_seek_exact :: "'k \<Rightarrow> 't \<Rightarrow> db_error + branch_node option \<times> 't"
  cur_delete_current :: "'t \<Rightarrow> db_error + 't"
  cur_write_storage :: "bool \<Rightarrow> b256 \<Rightarrow> sorted_nodes \<Rightarrow> 't \<Rightarrow> db_error + nat \<times> 't"
  tx_walk_accounts :: "'t \<Rightarrow> db_error + (db_error + 'k \<times> branch_node) list"
  tx_walk_storages :: "b256 \<Rightarrow> b256 \<Rightarrow> 't \<Rightarrow> db_error + (db_error + b256 \<times> 'k \<times> branch_node) list"
  tx_get_settings :: "'t \<Rightarrow> db_error + u8 list option"
  tx_put_settings :: "u8 list \<Rightarrow> 't \<Rightarrow> db_error + 't"
  tx_put_account :: "b256 \<Rightarrow> account \<Rightarrow> 't \<Rightarrow> db_error + 't"
  tx_put_slot :: "b256 \<Rightarrow> b256 \<times> u256 \<Rightarrow> 't \<Rightarrow> db_error + 't"
  account_key :: "bool \<Rightarrow> nibbles \<Rightarrow> 'k"
  account_key_to_nibbles :: "bool \<Rightarrow> 'k \<Rightarrow> nibbles"
  storage_subkey :: "bool \<Rightarrow> nibbles \<Rightarrow> 'k"
  subkey_to_nibbles :: "bool \<Rightarrow> 'k \<Rightarrow> nibbles"
  into_sorted :: "trie_updates \<Rightarrow> sorted_updates"

text \<open>
  \<^verbatim>\<open>let tx = db.tx_mut()?; ...; tx.commit()?\<close>: a body that fails drops its transaction, which
  leaves the database as it was.
\<close>

definition in_tx :: "('d, 't, 'k) trie_db \<Rightarrow> 'd \<Rightarrow> ('t \<Rightarrow> db_error + 'r \<times> 't) \<Rightarrow> 'd \<times> (db_error + 'r)" where
  "in_tx db d body = (case rbind (db_tx_mut db d) body of
     Err e \<Rightarrow> (d, Err e)
   | Ok (r, t) \<Rightarrow> (case tx_commit db t d of
       (d', Err e) \<Rightarrow> (d', Err e)
     | (d', Ok _) \<Rightarrow> (d', Ok r)))"

section \<open>What the sorted form of an update set holds\<close>

definition sorted_form_of :: "(nibbles, branch_node) hash_map \<Rightarrow> nibbles list \<Rightarrow> sorted_nodes \<Rightarrow> bool" where
  "sorted_form_of nodes removed ns \<longleftrightarrow> distinct (map fst ns) \<and>
     map_of ns = (\<lambda>p. case hm_get nodes p of Some n \<Rightarrow> Some (Some n)
       | None \<Rightarrow> if p \<in> set removed then Some None else None)"

text \<open>The effect of a storage trie update, as the storage trie cursor documents it.\<close>

type_synonym 'k table_rows = "b256 option \<times> 'k \<Rightarrow> branch_node option"

fun put_sorted :: "(nibbles \<Rightarrow> 'k) \<Rightarrow> b256 \<Rightarrow> sorted_nodes \<Rightarrow> 'k table_rows \<Rightarrow> 'k table_rows" where
  "put_sorted key a [] m = m"
| "put_sorted key a ((p, v) # ns) m =
     put_sorted key a ns (if p = [] then m else m((Some a, key p) := v))"

section \<open>The contract\<close>

locale trie_store =
  fixes db :: "('d, 't, 'k) trie_db"
    and rows :: "'t \<Rightarrow> 'k table_rows"
    and position :: "'t \<Rightarrow> 'k option"
    and committed :: "'d \<Rightarrow> 'k table_rows"
  assumes tx_rows: "db_tx db d = Ok t \<Longrightarrow> rows t = committed d"
    and tx_mut_rows: "db_tx_mut db d = Ok t \<Longrightarrow> rows t = committed d"
    and commit_rows: "tx_commit db t d = (d', Ok ()) \<Longrightarrow> committed d' = rows t"
    and commit_failed: "tx_commit db t d = (d', Err e) \<Longrightarrow> committed d' = committed d"
    and clear_accounts_rows: "tx_clear_accounts db t = Ok t' \<Longrightarrow>
      rows t' = (\<lambda>(a, k). if a = None then None else rows t (a, k))"
    and clear_storages_rows: "tx_clear_storages db t = Ok t' \<Longrightarrow>
      rows t' = (\<lambda>(a, k). if a = None then rows t (a, k) else None)"
    and account_cursor_rows: "tx_account_cursor db t = Ok t' \<Longrightarrow> rows t' = rows t"
    and storage_cursor_rows: "tx_storage_cursor db t = Ok t' \<Longrightarrow> rows t' = rows t"
    and upsert_rows: "cur_upsert db k n t = Ok t' \<Longrightarrow> rows t' = (rows t)((None, k) \<mapsto> n)"
    and seek_rows: "cur_seek_exact db k t = Ok (r, t') \<Longrightarrow> rows t' = rows t \<and> r = rows t (None, k)"
    and seek_position: "cur_seek_exact db k t = Ok (Some n, t') \<Longrightarrow> position t' = Some k"
    and delete_rows: "cur_delete_current db t = Ok t' \<Longrightarrow> position t = Some k \<Longrightarrow>
      rows t' = (rows t)((None, k) := None)"
    and write_storage_rows: "cur_write_storage db packed a ns t = Ok (c, t') \<Longrightarrow>
      rows t' = put_sorted (storage_subkey db packed) a ns (rows t)"
    and write_storage_count: "cur_write_storage db packed a ns t = Ok (c, t') \<Longrightarrow>
      c = length (filter (\<lambda>pv. fst pv \<noteq> []) ns)"
    and account_key_roundtrip: "account_key_to_nibbles db packed (account_key db packed p) = p"
    and subkey_roundtrip: "subkey_to_nibbles db packed (storage_subkey db packed p) = p"
    and sorted_accounts: "updates_wf u \<Longrightarrow>
      sorted_form_of (account_nodes u) (removed_account_nodes u) (sorted_account_nodes (into_sorted db u))"
    and sorted_storages: "updates_wf u \<Longrightarrow> distinct (map fst (sorted_storage_tries (into_sorted db u))) \<and>
      dom (hm_get (sorted_storage_tries (into_sorted db u))) = dom (hm_get (storage_tries u))"
    and sorted_storage: "updates_wf u \<Longrightarrow> hm_get (storage_tries u) a = Some st \<Longrightarrow>
      \<exists>ns. hm_get (sorted_storage_tries (into_sorted db u)) a = Some ns \<and>
        sorted_form_of (storage_nodes st) (removed_nodes st) ns"
begin

text \<open>
  The rows that store a content: each path under its key, in the account table for \<open>None\<close>, in the
  storage table otherwise, and nothing else.
\<close>

lemma account_key_inject: "account_key db packed p = account_key db packed q \<longleftrightarrow> p = q"
  by (metis account_key_roundtrip)

lemma subkey_inject: "storage_subkey db packed p = storage_subkey db packed q \<longleftrightarrow> p = q"
  by (metis subkey_roundtrip)

lemma in_tx_Ok:
  assumes "in_tx db d body = (d', Ok r)"
  shows "\<exists>t t'. rows t = committed d \<and> body t = Ok (r, t') \<and> committed d' = rows t'"
  using assms tx_mut_rows commit_rows
  by (fastforce simp: in_tx_def result_simps split: sum.splits prod.splits)

lemma in_tx_Err:
  assumes "in_tx db d body = (d', Err e)"
  shows "committed d' = committed d"
  using assms commit_failed
  by (fastforce simp: in_tx_def result_simps split: sum.splits prod.splits)

end

text \<open>The encoding of a content as rows, for a given adapter.\<close>

definition encode_rows :: "('d, 't, 'k) trie_db \<Rightarrow> bool \<Rightarrow> (node_key \<Rightarrow> branch_node option) \<Rightarrow> 'k table_rows" where
  "encode_rows db packed m = (\<lambda>(a, k). case a of
     None \<Rightarrow> (let p = account_key_to_nibbles db packed k in
       if account_key db packed p = k then m (None, p) else None)
   | Some b \<Rightarrow> (let p = subkey_to_nibbles db packed k in
       if storage_subkey db packed p = k then m (Some b, p) else None))"

lemma encode_rows_empty [simp]: "encode_rows db packed Map.empty = Map.empty"
  by (auto simp: encode_rows_def fun_eq_iff Let_def split: option.split)

context trie_store
begin

lemma encode_account:
  "encode_rows db packed m (None, account_key db packed p) = m (None, p)"
  by (simp add: encode_rows_def account_key_roundtrip)

lemma encode_storage:
  "encode_rows db packed m (Some a, storage_subkey db packed p) = m (Some a, p)"
  by (simp add: encode_rows_def subkey_roundtrip)

lemma encode_account_upd:
  "(encode_rows db packed m)((None, account_key db packed p) := v) = encode_rows db packed (m((None, p) := v))"
  by (auto simp: encode_rows_def fun_eq_iff Let_def account_key_roundtrip split: option.split)

lemma encode_storage_upd:
  "(encode_rows db packed m)((Some a, storage_subkey db packed p) := v) =
   encode_rows db packed (m((Some a, p) := v))"
  by (auto simp: encode_rows_def fun_eq_iff Let_def subkey_roundtrip split: option.split)

lemma encode_put_sorted:
  "put_sorted (storage_subkey db packed) a ns (encode_rows db packed m) =
   encode_rows db packed (put_sorted id a ns m)"
  by (induction ns arbitrary: m) (auto simp: encode_storage_upd)

text \<open>Different contents give different rows.\<close>

lemma encode_rows_inject:
  assumes "encode_rows db packed m = encode_rows db packed n" shows "m = n"
proof (rule ext)
  fix k :: node_key
  obtain a p where k: "k = (a, p)" by (cases k)
  show "m k = n k"
  proof (cases a)
    case None
    then show ?thesis using fun_cong [OF assms, of "(None, account_key db packed p)"] k
      by (simp add: encode_account)
  next
    case (Some b)
    then show ?thesis using fun_cong [OF assms, of "(Some b, storage_subkey db packed p)"] k
      by (simp add: encode_storage)
  qed
qed

end

text \<open>A scan returns every row once.\<close>

locale scannable_store = trie_store +
  assumes walk_accounts: "tx_walk_accounts db t = Ok (map Ok rs) \<Longrightarrow>
      distinct (map fst rs) \<and> map_of rs = (\<lambda>k. rows t (None, k))"
    and walk_storages: "tx_walk_storages db lo hi t = Ok (map Ok srs) \<Longrightarrow>
      distinct (map (\<lambda>r. (fst r, fst (snd r))) srs) \<and>
      (\<forall>a k n. (a, k, n) \<in> set srs \<longleftrightarrow> lo \<le> a \<and> a \<le> hi \<and> rows t (Some a, k) = Some n)"

text \<open>
  The other tables: the metadata entry with the storage settings, and the hashed state, of which
  the storage table keeps duplicates, so its content is a set of entries. Trie operations leave
  them alone, and they leave the trie tables alone.
\<close>

record hashed_tables =
  settings_entry :: "u8 list option"
  hashed_accounts :: "b256 \<Rightarrow> account option"
  hashed_slots :: "(b256 \<times> b256 \<times> u256) set"

locale full_store = scannable_store db rows position committed
  for db :: "('d, 't, 'k) trie_db" and rows and position and committed +
  fixes others :: "'t \<Rightarrow> hashed_tables"
    and committed_others :: "'d \<Rightarrow> hashed_tables"
  assumes tx_others: "db_tx db d = Ok t \<Longrightarrow> others t = committed_others d"
    and tx_mut_others: "db_tx_mut db d = Ok t \<Longrightarrow> others t = committed_others d"
    and commit_others: "tx_commit db t d = (d', Ok ()) \<Longrightarrow> committed_others d' = others t"
    and commit_failed_others: "tx_commit db t d = (d', Err e) \<Longrightarrow> committed_others d' = committed_others d"
    and clear_accounts_others: "tx_clear_accounts db t = Ok t' \<Longrightarrow> others t' = others t"
    and clear_storages_others: "tx_clear_storages db t = Ok t' \<Longrightarrow> others t' = others t"
    and account_cursor_others: "tx_account_cursor db t = Ok t' \<Longrightarrow> others t' = others t"
    and storage_cursor_others: "tx_storage_cursor db t = Ok t' \<Longrightarrow> others t' = others t"
    and upsert_others: "cur_upsert db k n t = Ok t' \<Longrightarrow> others t' = others t"
    and seek_others: "cur_seek_exact db k t = Ok (r, t') \<Longrightarrow> others t' = others t"
    and delete_others: "cur_delete_current db t = Ok t' \<Longrightarrow> others t' = others t"
    and write_storage_others: "cur_write_storage db packed a ns t = Ok (c, t') \<Longrightarrow> others t' = others t"
    and get_settings: "tx_get_settings db t = Ok s \<Longrightarrow> s = settings_entry (others t)"
    and put_settings: "tx_put_settings db bs t = Ok t' \<Longrightarrow>
      rows t' = rows t \<and> others t' = (others t)\<lparr>settings_entry := Some bs\<rparr>"
    and put_account: "tx_put_account db a acc t = Ok t' \<Longrightarrow> rows t' = rows t \<and>
      others t' = (others t)\<lparr>hashed_accounts := (hashed_accounts (others t))(a \<mapsto> acc)\<rparr>"
    and put_slot: "tx_put_slot db a (slot, v) t = Ok t' \<Longrightarrow> rows t' = rows t \<and>
      others t' = (others t)\<lparr>hashed_slots := insert (a, slot, v) (hashed_slots (others t))\<rparr>"
begin

lemma in_tx_full_Ok:
  assumes "in_tx db d body = (d', Ok r)"
  shows "\<exists>t t'. rows t = committed d \<and> others t = committed_others d \<and> body t = Ok (r, t') \<and>
    committed d' = rows t' \<and> committed_others d' = others t'"
  using assms tx_mut_rows commit_rows tx_mut_others commit_others
  by (fastforce simp: in_tx_def result_simps split: sum.splits prod.splits)

lemma in_tx_full_Err:
  assumes "in_tx db d body = (d', Err e)"
  shows "committed d' = committed d \<and> committed_others d' = committed_others d"
  using assms commit_failed commit_failed_others
  by (fastforce simp: in_tx_def result_simps split: sum.splits prod.splits)

lemma in_tx_keeps_others:
  assumes "in_tx db d body = (d', r)" and "\<And>t t' x. body t = Ok (x, t') \<Longrightarrow> others t' = others t"
  shows "committed_others d' = committed_others d"
proof (cases r)
  case (Inl e)
  then show ?thesis using in_tx_full_Err assms(1) by blast
next
  case (Inr x)
  then show ?thesis using in_tx_full_Ok [of d body d' x] assms by metis
qed

end

text \<open>A database on which no operation fails.\<close>

locale reliable_store = full_store +
  assumes tx_succeeds: "\<exists>t. db_tx db d = Ok t"
    and tx_mut_succeeds: "\<exists>t. db_tx_mut db d = Ok t"
    and commit_succeeds: "\<exists>d'. tx_commit db t d = (d', Ok ())"
    and clear_accounts_succeeds: "\<exists>t'. tx_clear_accounts db t = Ok t'"
    and clear_storages_succeeds: "\<exists>t'. tx_clear_storages db t = Ok t'"
    and account_cursor_succeeds: "\<exists>t'. tx_account_cursor db t = Ok t'"
    and storage_cursor_succeeds: "\<exists>t'. tx_storage_cursor db t = Ok t'"
    and upsert_succeeds: "\<exists>t'. cur_upsert db k n t = Ok t'"
    and seek_succeeds: "\<exists>r t'. cur_seek_exact db k t = Ok (r, t')"
    and delete_succeeds: "position t = Some k \<Longrightarrow> \<exists>t'. cur_delete_current db t = Ok t'"
    and write_storage_succeeds: "\<exists>c t'. cur_write_storage db packed a ns t = Ok (c, t')"
    and settings_succeeds: "\<exists>s. tx_get_settings db t = Ok s"
    and put_settings_succeeds: "\<exists>t'. tx_put_settings db s t = Ok t'"
    and put_account_succeeds: "\<exists>t'. tx_put_account db a acc t = Ok t'"
    and put_slot_succeeds: "\<exists>t'. tx_put_slot db a kv t = Ok t'"
    and walk_accounts_succeeds: "\<exists>rs. tx_walk_accounts db t = Ok (map Ok rs)"
    and walk_storages_succeeds: "\<exists>rs. tx_walk_storages db lo hi t = Ok (map Ok rs)"
begin

lemma in_tx_succeeds:
  assumes "\<And>t. rows t = committed d \<Longrightarrow> \<exists>r t'. body t = Ok (r, t')"
  shows "\<exists>d' r. in_tx db d body = (d', Ok r)"
proof -
  obtain t where t: "db_tx_mut db d = Ok t" using tx_mut_succeeds by blast
  then obtain r t' where b: "body t = Ok (r, t')" using assms tx_mut_rows by blast
  obtain d' where "tx_commit db t' d = (d', Ok ())" using commit_succeeds by blast
  then show ?thesis using t b by (auto simp: in_tx_def)
qed

end

section \<open>A database in memory\<close>

text \<open>
  One association list holds the rows of both tables; the packed keys are told from the legacy
  ones by a flag. A transaction is a private copy, made public by its commit.
\<close>

type_synonym ref_key = "bool \<times> nibbles"

record ref_tables =
  ref_rows :: "((b256 option \<times> ref_key) \<times> branch_node) list"
  ref_position :: "ref_key option"
  ref_others :: hashed_tables

definition ref_put :: "b256 option \<times> ref_key \<Rightarrow> branch_node option \<Rightarrow> ref_tables \<Rightarrow> ref_tables" where
  "ref_put k v t = t\<lparr>ref_rows := (case v of None \<Rightarrow> AList.delete k (ref_rows t)
     | Some n \<Rightarrow> AList.update k n (ref_rows t))\<rparr>"

fun ref_write_storage :: "bool \<Rightarrow> b256 \<Rightarrow> sorted_nodes \<Rightarrow> ref_tables \<Rightarrow> ref_tables" where
  "ref_write_storage packed a [] t = t"
| "ref_write_storage packed a ((p, v) # ns) t =
     ref_write_storage packed a ns (if p = [] then t else ref_put (Some a, packed, p) v t)"

definition ref_sorted_nodes :: "(nibbles, branch_node) hash_map \<Rightarrow> nibbles list \<Rightarrow> sorted_nodes" where
  "ref_sorted_nodes nodes removed = map (\<lambda>(p, n). (p, Some n)) nodes @
     map (\<lambda>p. (p, None)) (filter (\<lambda>p. hm_get nodes p = None) (remdups removed))"

definition ref_into_sorted :: "trie_updates \<Rightarrow> sorted_updates" where
  "ref_into_sorted u = \<lparr>
     sorted_account_nodes = ref_sorted_nodes (account_nodes u) (removed_account_nodes u),
     sorted_storage_tries = map (\<lambda>(a, t). (a, ref_sorted_nodes (storage_nodes t) (removed_nodes t))) (storage_tries u)\<rparr>"

definition ref_wf :: "ref_tables \<Rightarrow> bool" where
  "ref_wf t \<longleftrightarrow> distinct (map fst (ref_rows t))"

definition ref_lookup :: "ref_tables \<Rightarrow> ref_key table_rows" where
  "ref_lookup t = map_of (ref_rows t)"

text \<open>The scans list the rows without repetition whatever the list.\<close>

definition ref_row_list :: "ref_tables \<Rightarrow> ((b256 option \<times> ref_key) \<times> branch_node) list" where
  "ref_row_list t = AList.clearjunk (ref_rows t)"

definition ref_db :: "(ref_tables, ref_tables, ref_key) trie_db" where
  "ref_db = \<lparr>
     db_tx = (\<lambda>d. Ok d),
     db_tx_mut = (\<lambda>d. Ok d),
     tx_commit = (\<lambda>t d. (t, Ok ())),
     tx_clear_accounts = (\<lambda>t. Ok (t\<lparr>ref_rows := filter (\<lambda>r. fst (fst r) \<noteq> None) (ref_rows t)\<rparr>)),
     tx_clear_storages = (\<lambda>t. Ok (t\<lparr>ref_rows := filter (\<lambda>r. fst (fst r) = None) (ref_rows t)\<rparr>)),
     tx_account_cursor = (\<lambda>t. Ok (t\<lparr>ref_position := None\<rparr>)),
     tx_storage_cursor = (\<lambda>t. Ok t),
     cur_upsert = (\<lambda>k n t. Ok (ref_put (None, k) (Some n) (t\<lparr>ref_position := Some k\<rparr>))),
     cur_seek_exact = (\<lambda>k t. Ok (ref_lookup t (None, k),
       t\<lparr>ref_position := (if ref_lookup t (None, k) = None then None else Some k)\<rparr>)),
     cur_delete_current = (\<lambda>t. case ref_position t of
         None \<Rightarrow> Err (Backend 0)
       | Some k \<Rightarrow> Ok (ref_put (None, k) None t)),
     cur_write_storage = (\<lambda>packed a ns t.
       Ok (length (filter (\<lambda>pv. fst pv \<noteq> []) ns), ref_write_storage packed a ns t)),
     tx_walk_accounts = (\<lambda>t. Ok (map Ok (map (\<lambda>r. (snd (fst r), snd r))
       (filter (\<lambda>r. fst (fst r) = None) (ref_row_list t))))),
     tx_walk_storages = (\<lambda>lo hi t. Ok (map Ok (map (\<lambda>r. (the (fst (fst r)), snd (fst r), snd r))
       (filter (\<lambda>r. case fst (fst r) of None \<Rightarrow> False | Some a \<Rightarrow> lo \<le> a \<and> a \<le> hi) (ref_row_list t))))),
     tx_get_settings = (\<lambda>t. Ok (settings_entry (ref_others t))),
     tx_put_settings = (\<lambda>s t. Ok (t\<lparr>ref_others := (ref_others t)\<lparr>settings_entry := Some s\<rparr>\<rparr>)),
     tx_put_account = (\<lambda>a acc t. Ok (t\<lparr>ref_others := (ref_others t)
       \<lparr>hashed_accounts := (hashed_accounts (ref_others t))(a \<mapsto> acc)\<rparr>\<rparr>)),
     tx_put_slot = (\<lambda>a (k, v) t. Ok (t\<lparr>ref_others := (ref_others t)
       \<lparr>hashed_slots := insert (a, k, v) (hashed_slots (ref_others t))\<rparr>\<rparr>)),
     account_key = (\<lambda>packed p. (packed, p)),
     account_key_to_nibbles = (\<lambda>packed k. snd k),
     storage_subkey = (\<lambda>packed p. (packed, p)),
     subkey_to_nibbles = (\<lambda>packed k. snd k),
     into_sorted = ref_into_sorted\<rparr>"

lemma ref_lookup_put [simp]: "ref_lookup (ref_put k v t) = (ref_lookup t)(k := v)"
  by (simp add: ref_lookup_def ref_put_def update_conv' delete_conv' split: option.split)

lemma ref_lookup_position [simp]:
  "ref_lookup (t\<lparr>ref_position := x\<rparr>) = ref_lookup t"
  "ref_lookup (t\<lparr>ref_others := y\<rparr>) = ref_lookup t"
  by (simp_all add: ref_lookup_def)

lemma ref_lookup_write_storage:
  "ref_lookup (ref_write_storage packed a ns t) = put_sorted (Pair packed) a ns (ref_lookup t)"
  by (induction ns arbitrary: t) auto

lemma ref_others_put [simp]: "ref_others (ref_put k v t) = ref_others t"
  by (simp add: ref_put_def)

lemma ref_others_write_storage [simp]: "ref_others (ref_write_storage packed a ns t) = ref_others t"
  by (induction ns arbitrary: t) auto

lemma map_of_filter_key:
  "map_of (filter (\<lambda>r. P (fst r)) xs) k = (if P k then map_of xs k else None)"
  by (induction xs) auto

lemma ref_sorted_form: "hm_wf nodes \<Longrightarrow> sorted_form_of nodes removed (ref_sorted_nodes nodes removed)"
proof -
  assume wf: "hm_wf nodes"
  have fst_eq: "map fst (ref_sorted_nodes nodes removed) =
      map fst nodes @ filter (\<lambda>p. hm_get nodes p = None) (remdups removed)"
    by (simp add: ref_sorted_nodes_def comp_def split_def)
  have "map_of (map (\<lambda>(p, n). (p, Some n)) nodes) p = map_option Some (hm_get nodes p)" for p
    by (induction nodes) auto
  moreover have "map_of (map (\<lambda>p. (p, None :: branch_node option)) ps) p =
      (if p \<in> set ps then Some None else None)" for p and ps :: "nibbles list"
    by (induction ps) auto
  ultimately show ?thesis
    using wf by (auto simp: sorted_form_of_def fst_eq hm_wf_def map_of_eq_None_iff)
      (auto simp: ref_sorted_nodes_def fun_eq_iff map_add_def split: option.split)
qed

lemma ref_row_list: "distinct (map fst (ref_row_list t))" "map_of (ref_row_list t) = ref_lookup t"
  by (simp_all add: ref_row_list_def ref_lookup_def map_of_clearjunk distinct_clearjunk)

lemma ref_clear_accounts:
  "ref_lookup (t\<lparr>ref_rows := filter (\<lambda>r. fst (fst r) \<noteq> None) (ref_rows t)\<rparr>) =
   (\<lambda>(a, k). if a = None then None else ref_lookup t (a, k))"
  unfolding ref_lookup_def
  by (rule ext) (simp add: map_of_filter_key [of "\<lambda>k. fst k \<noteq> None"] split_def del: not_None_eq)

lemma ref_clear_storages:
  "ref_lookup (t\<lparr>ref_rows := filter (\<lambda>r. fst (fst r) = None) (ref_rows t)\<rparr>) =
   (\<lambda>(a, k). if a = None then ref_lookup t (a, k) else None)"
  unfolding ref_lookup_def
  by (rule ext) (auto simp: map_of_filter_key [of "\<lambda>k. fst k = None"])

lemma ref_sorted_storages:
  "map_of (map (\<lambda>(a, t). (a, ref_sorted_nodes (storage_nodes t) (removed_nodes t))) ts) a =
   map_option (\<lambda>t. ref_sorted_nodes (storage_nodes t) (removed_nodes t)) (map_of ts a)"
  by (induction ts) auto

lemma ref_walk_accounts:
  assumes "distinct (map fst xs)"
  shows "distinct (map fst (map (\<lambda>r. (snd (fst r), snd r)) (filter (\<lambda>r. fst (fst r) = None) xs))) \<and>
    map_of (map (\<lambda>r. (snd (fst r), snd r)) (filter (\<lambda>r. fst (fst r) = None) xs)) = (\<lambda>k. map_of xs (None, k))"
  using assms by (induction xs) (force simp: fun_eq_iff)+

lemma ref_walk_storages:
  fixes lo hi :: b256 and xs :: "((b256 option \<times> 'k) \<times> branch_node) list"
  assumes "distinct (map fst xs)"
  defines "ys \<equiv> map (\<lambda>r. (the (fst (fst r)), snd (fst r), snd r))
    (filter (\<lambda>r. case fst (fst r) of None \<Rightarrow> False | Some a \<Rightarrow> lo \<le> a \<and> a \<le> hi) xs)"
  shows "distinct (map (\<lambda>r. (fst r, fst (snd r))) ys) \<and>
    (\<forall>a k n. (a, k, n) \<in> set ys \<longleftrightarrow> lo \<le> a \<and> a \<le> hi \<and> map_of xs (Some a, k) = Some n)"
  using assms(1) unfolding ys_def
  by (induction xs) (force split: option.splits simp: map_of_eq_None_iff)+

interpretation ref_store: reliable_store ref_db ref_lookup ref_position ref_lookup ref_others ref_others
proof (unfold_locales, goal_cases)
  case (5 t t')
  then show ?case using ref_clear_accounts [of t] by (simp add: ref_db_def del: not_None_eq)
next
  case (6 t t')
  then show ?case using ref_clear_storages [of t] by (simp add: ref_db_def)
next
  case (11 k t n t')
  then show ?case by (auto simp: ref_db_def split: if_splits)
next
  case (12 t t' k)
  then show ?case by (auto simp: ref_db_def)
next
  case (13 packed a ns t c t')
  then show ?case by (auto simp: ref_db_def ref_lookup_write_storage)
next
  case (17 u)
  then show ?case by (simp add: ref_db_def ref_into_sorted_def ref_sorted_form updates_wf_def)
next
  case (18 u)
  then show ?case
    by (auto simp: ref_db_def ref_into_sorted_def updates_wf_def hm_wf_def comp_def split_def
        dom_map_of_conv_image_fst image_image)
next
  case (19 u a st)
  then have "hm_wf (storage_nodes st)"
    by (auto simp: updates_wf_def storage_trie_wf_def dest: map_of_SomeD)
  with 19 show ?case
    by (auto simp: ref_db_def ref_into_sorted_def ref_sorted_storages ref_sorted_form)
next
  case (20 t rs)
  then have "rs = map (\<lambda>r. (snd (fst r), snd r)) (filter (\<lambda>r. fst (fst r) = None) (ref_row_list t))"
    by (simp add: ref_db_def inj_map_eq_map inj_def del: map_map)
  then show ?case
    using ref_walk_accounts [OF ref_row_list(1) [of t]] by (simp add: ref_row_list(2))
next
  case (21 lo hi t rs)
  then have "rs = map (\<lambda>r. (the (fst (fst r)), snd (fst r), snd r))
      (filter (\<lambda>r. case fst (fst r) of None \<Rightarrow> False | Some a \<Rightarrow> lo \<le> a \<and> a \<le> hi) (ref_row_list t))"
    by (simp add: ref_db_def inj_map_eq_map inj_def del: map_map)
  then show ?case
    using ref_walk_storages [OF ref_row_list(1) [of t], of lo hi] by (simp add: ref_row_list(2))
qed (auto simp: ref_db_def simp del: map_map split: option.splits prod.splits)

end
