(* ===== verification/Mdbx_Settings.thy ===== *)
theory Mdbx_Settings
  imports Trie_Store
begin

text \<open>
  The storage settings in the metadata table (\<^verbatim>\<open>mdbx.rs\<close>): how the code decides which key
  encoding the trie tables use. The JSON form of reth's \<^verbatim>\<open>StorageSettings\<close> (\<^verbatim>\<open>serde_json\<close>) and
  \<^verbatim>\<open>is_v2\<close> are not part of the program: they are the fields of a \<open>settings_codec\<close>.
\<close>

record 'st settings_codec =
  to_vec :: "'st \<Rightarrow> u8 list option"
  from_slice :: "u8 list \<Rightarrow> 'st option"
  is_v2 :: "'st \<Rightarrow> bool"

definition uses_packed_trie_keys ::
    "('d, 't, 'k) trie_db \<Rightarrow> 'st settings_codec \<Rightarrow> 't \<Rightarrow> db_error + bool" where
  "uses_packed_trie_keys db codec t = rbind (tx_get_settings db t) (\<lambda>entry.
     Ok (case Option.bind entry (from_slice codec) of
         None \<Rightarrow> False
       | Some settings \<Rightarrow> is_v2 codec settings))"

definition write_storage_settings ::
    "('d, 't, 'k) trie_db \<Rightarrow> 'st settings_codec \<Rightarrow> 'd \<Rightarrow> 'st \<Rightarrow> ('d \<times> (db_error + unit)) outcome" where
  "write_storage_settings db codec d settings = (case db_tx_mut db d of
     Err e \<Rightarrow> Returns (d, Err e)
   | Ok t \<Rightarrow> (case to_vec codec settings of
       None \<Rightarrow> Panics ''storage settings serialize''
     | Some bytes \<Rightarrow> Returns (in_tx db d (\<lambda>t.
         rbind (tx_put_settings db bytes t) (\<lambda>t. Ok ((), t))))))"

text \<open>The encoding the committed settings of a database select.\<close>

definition packed_of :: "'st settings_codec \<Rightarrow> hashed_tables \<Rightarrow> bool" where
  "packed_of codec o' = (case Option.bind (settings_entry o') (from_slice codec) of
     None \<Rightarrow> False | Some settings \<Rightarrow> is_v2 codec settings)"

context full_store
begin

lemma uses_packed_Ok:
  "uses_packed_trie_keys db codec t = Ok packed \<Longrightarrow> packed = packed_of codec (others t)"
  using get_settings by (fastforce simp: uses_packed_trie_keys_def packed_of_def result_simps)

lemma write_storage_settings_Ok:
  assumes "write_storage_settings db codec d settings = Returns (d', Ok ())"
  shows "\<exists>bytes. to_vec codec settings = Some bytes \<and> committed d' = committed d \<and>
    committed_others d' = (committed_others d)\<lparr>settings_entry := Some bytes\<rparr>"
proof -
  obtain t bytes where "db_tx_mut db d = Ok t" and bytes: "to_vec codec settings = Some bytes"
    and tx: "in_tx db d (\<lambda>t. rbind (tx_put_settings db bytes t) (\<lambda>t. Ok ((), t))) = (d', Ok ())"
    using assms by (auto simp: write_storage_settings_def split: sum.splits option.splits)
  show ?thesis
    using in_tx_full_Ok [OF tx] bytes put_settings by (auto simp: result_simps)
qed

end

context reliable_store
begin

lemma uses_packed_succeeds:
  "uses_packed_trie_keys db codec t = Ok (packed_of codec (others t))"
  using settings_succeeds [of t] uses_packed_Ok [of codec t]
  by (auto simp: uses_packed_trie_keys_def)

end

section \<open>A codec\<close>

text \<open>The settings as their one flag, written as one byte.\<close>

definition flag_codec :: "bool settings_codec" where
  "flag_codec = \<lparr>to_vec = (\<lambda>b. Some [if b then 2 else 1]),
     from_slice = (\<lambda>bs. if bs = [1] then Some False else if bs = [2] then Some True else None),
     is_v2 = (\<lambda>b. b)\<rparr>"

definition ref_empty :: "bool \<Rightarrow> ref_tables" where
  "ref_empty packed = \<lparr>ref_rows = [], ref_position = None,
     ref_others = \<lparr>settings_entry = (if packed then Some [2] else None),
       hashed_accounts = Map.empty, hashed_slots = {}\<rparr>\<rparr>"

lemma ref_empty_simps [simp]:
  "ref_lookup (ref_empty packed) = Map.empty"
  "packed_of flag_codec (ref_others (ref_empty packed)) = packed"
  by (simp_all add: ref_empty_def ref_lookup_def packed_of_def flag_codec_def)

section \<open>Properties\<close>



text \<open>
  A database without the metadata entry, or with an entry that is not readable as settings, is
  read with the legacy keys; only a failing lookup is an error.
\<close>

theorem unreadable_settings_are_legacy:
  assumes "full_store db rows position committed others committed_others"
    and "settings_entry (others t) = None \<or>
      (\<exists>bytes. settings_entry (others t) = Some bytes \<and> from_slice codec bytes = None)"
  shows "uses_packed_trie_keys db codec t =
    (case tx_get_settings db t of Err e \<Rightarrow> Err e | Ok entry \<Rightarrow> Ok False)"
  using full_store.get_settings [OF assms(1), of t] assms(2)
  by (cases "tx_get_settings db t") (auto simp: uses_packed_trie_keys_def)

theorem unreadable_settings_are_legacy_witness:
  "uses_packed_trie_keys ref_db flag_codec
     (ref_empty True\<lparr>ref_others := (ref_others (ref_empty True))\<lparr>settings_entry := Some [7, 7]\<rparr>\<rparr>) = Ok False"
  using unreadable_settings_are_legacy [OF ref_store.full_store_axioms,
      of "ref_empty True\<lparr>ref_others := (ref_others (ref_empty True))\<lparr>settings_entry := Some [7, 7]\<rparr>\<rparr>" flag_codec]
  by (simp add: flag_codec_def ref_db_def)

end
