(* ===== verification/Memory_State.thy ===== *)
theory Memory_State
  imports Mdbx_Settings
begin

text \<open>
  The in-memory hashed state (\<^verbatim>\<open>memory.rs\<close>) and its transfer into the hashed state tables
  (\<^verbatim>\<open>write_hashed_state\<close> of \<^verbatim>\<open>mdbx.rs\<close>). The state refines a map of accounts and a map of slots
  whose default is zero, and the post-state it caches is never stale. reth's \<^verbatim>\<open>HashedStorage\<close> and
  \<^verbatim>\<open>HashedPostState::into_sorted\<close> are the fields of \<open>post_state_ops\<close>.
\<close>

section \<open>Model\<close>

record 'hs hashed_post_state =
  post_accounts :: "(b256, account option) hash_map"
  post_storages :: "(b256, 'hs) hash_map"

record ('hs, 'so) post_state_ops =
  storage_from_iter :: "(b256 \<times> u256) list \<Rightarrow> 'hs"
  post_into_sorted :: "'hs hashed_post_state \<Rightarrow> 'so"

text \<open>The cache is a \<^verbatim>\<open>OnceLock\<close>, empty until the first use.\<close>

record 'so memory_state =
  ms_accounts :: "(b256, account) btree_map"
  ms_storages :: "(b256, (b256, u256) btree_map) btree_map"
  ms_sorted :: "'so option"

definition memory_default :: "'so memory_state" where
  "memory_default = \<lparr>ms_accounts = [], ms_storages = [], ms_sorted = None\<rparr>"

definition insert_account :: "b256 \<Rightarrow> account \<Rightarrow> 'so memory_state \<Rightarrow> 'so memory_state" where
  "insert_account hashed_address acc s =
     s\<lparr>ms_sorted := None, ms_accounts := bt_insert hashed_address acc (ms_accounts s)\<rparr>"

definition slots_or_default :: "b256 \<Rightarrow> 'so memory_state \<Rightarrow> (b256, u256) btree_map" where
  "slots_or_default a s = (case bt_get (ms_storages s) a of None \<Rightarrow> [] | Some slots \<Rightarrow> slots)"

definition insert_storage :: "b256 \<Rightarrow> b256 \<Rightarrow> u256 \<Rightarrow> 'so memory_state \<Rightarrow> 'so memory_state" where
  "insert_storage hashed_address hashed_slot value s =
     (let slots = slots_or_default hashed_address s;
          slots' = (if value = 0 then bt_remove hashed_slot slots else bt_insert hashed_slot value slots)
      in s\<lparr>ms_sorted := None, ms_storages := bt_insert hashed_address slots' (ms_storages s)\<rparr>)"

definition account_count :: "'so memory_state \<Rightarrow> nat" where
  "account_count s = length (ms_accounts s)"

definition storage_count :: "'so memory_state \<Rightarrow> nat" where
  "storage_count s = sum_list (map (\<lambda>(a, slots). length slots) (ms_storages s))"

definition iter_accounts :: "'so memory_state \<Rightarrow> (b256 \<times> account) list" where
  "iter_accounts s = ms_accounts s"

definition iter_storage :: "b256 \<Rightarrow> 'so memory_state \<Rightarrow> (b256 \<times> u256) list" where
  "iter_storage hashed_address s = (case bt_get (ms_storages s) hashed_address of
     None \<Rightarrow> [] | Some slots \<Rightarrow> slots)"

definition build_post_state :: "('hs, 'so) post_state_ops \<Rightarrow> 'so memory_state \<Rightarrow> 'hs hashed_post_state" where
  "build_post_state ops s =
     \<lparr>post_accounts = fold (\<lambda>(addr, acc). hm_insert addr (Some acc)) (ms_accounts s) [],
      post_storages = fold (\<lambda>(addr, slots) m. if slots \<noteq> [] then hm_insert addr (storage_from_iter ops slots) m else m)
        (ms_storages s) []\<rparr>"

text \<open>\<open>sorted\<close> initialises the cache when it is empty and returns what it holds.\<close>

definition sorted_state :: "('hs, 'so) post_state_ops \<Rightarrow> 'so memory_state \<Rightarrow> 'so \<times> 'so memory_state" where
  "sorted_state ops s = (case ms_sorted s of
     Some p \<Rightarrow> (p, s)
   | None \<Rightarrow> (let p = post_into_sorted ops (build_post_state ops s) in (p, s\<lparr>ms_sorted := Some p\<rparr>)))"

text \<open>
  \<open>cf_new\<close> is reth's \<^verbatim>\<open>HashedPostStateCursorFactory::new\<close> over the empty cursor factory. A shared
  factory gives every partition a clone of the same one.
\<close>

definition cursor_factory :: "('hs, 'so) post_state_ops \<Rightarrow> ('so \<Rightarrow> 'cf) \<Rightarrow> 'so memory_state \<Rightarrow> 'cf \<times> 'so memory_state" where
  "cursor_factory ops cf_new s = (let (p, s') = sorted_state ops s in (cf_new p, s'))"

datatype 'cf shared_cursor_factory = SharedCursorFactory 'cf

definition provider_factory :: "('hs, 'so) post_state_ops \<Rightarrow> ('so \<Rightarrow> 'cf) \<Rightarrow> 'so memory_state \<Rightarrow>
    'cf shared_cursor_factory \<times> 'so memory_state" where
  "provider_factory ops cf_new s = (let (f, s') = cursor_factory ops cf_new s in (SharedCursorFactory f, s'))"

fun database_provider_ro :: "'cf shared_cursor_factory \<Rightarrow> 'e + 'cf" where
  "database_provider_ro (SharedCursorFactory f) = Ok f"

section \<open>Writing the state into the tables\<close>

fun put_slots :: "('d, 't, 'k) trie_db \<Rightarrow> b256 \<Rightarrow> (b256 \<times> u256) list \<Rightarrow> 't \<Rightarrow> db_error + 't" where
  "put_slots db a [] t = Ok t"
| "put_slots db a ((key, val) # kvs) t = rbind (tx_put_slot db a (key, val) t) (put_slots db a kvs)"

fun put_accounts_from :: "('d, 't, 'k) trie_db \<Rightarrow> 'so memory_state \<Rightarrow> (b256 \<times> account) list \<Rightarrow> 't \<Rightarrow> db_error + 't" where
  "put_accounts_from db state [] t = Ok t"
| "put_accounts_from db state ((hashed_address, acc) # accs) t =
     rbind (tx_put_account db hashed_address acc t) (\<lambda>t.
     rbind (put_slots db hashed_address (iter_storage hashed_address state) t) (\<lambda>t.
       put_accounts_from db state accs t))"

definition write_hashed_state :: "('d, 't, 'k) trie_db \<Rightarrow> 'so memory_state \<Rightarrow> 'd \<Rightarrow> 'd \<times> (db_error + unit)" where
  "write_hashed_state db state d = in_tx db d (\<lambda>t.
     rbind (put_accounts_from db state (iter_accounts state) t) (\<lambda>t. Ok ((), t)))"

section \<open>The abstract state\<close>

record hashed_state =
  hs_accounts :: "b256 \<Rightarrow> account option"
  hs_slots :: "b256 \<times> b256 \<Rightarrow> u256"

definition memory_abs :: "'so memory_state \<Rightarrow> hashed_state" where
  "memory_abs s = \<lparr>hs_accounts = bt_get (ms_accounts s),
     hs_slots = (\<lambda>(a, k). case bt_get (slots_or_default a s) k of None \<Rightarrow> 0 | Some v \<Rightarrow> v)\<rparr>"

definition memory_wf :: "('hs, 'so) post_state_ops \<Rightarrow> 'so memory_state \<Rightarrow> bool" where
  "memory_wf ops s \<longleftrightarrow> bt_wf (ms_accounts s) \<and> bt_wf (ms_storages s) \<and>
     (\<forall>(a, slots) \<in> set (ms_storages s). bt_wf slots \<and> (\<forall>(k, v) \<in> set slots. v \<noteq> 0)) \<and>
     (\<forall>p. ms_sorted s = Some p \<longrightarrow> p = post_into_sorted ops (build_post_state ops s))"

datatype memory_op = Insert_Account b256 account | Insert_Storage b256 b256 u256 | Sorted

fun run_memory_op :: "('hs, 'so) post_state_ops \<Rightarrow> memory_op \<Rightarrow> 'so memory_state \<Rightarrow> 'so memory_state" where
  "run_memory_op ops (Insert_Account a acc) s = insert_account a acc s"
| "run_memory_op ops (Insert_Storage a k v) s = insert_storage a k v s"
| "run_memory_op ops Sorted s = snd (sorted_state ops s)"

fun memory_effect :: "memory_op \<Rightarrow> hashed_state \<Rightarrow> hashed_state" where
  "memory_effect (Insert_Account a acc) h = h\<lparr>hs_accounts := (hs_accounts h)(a \<mapsto> acc)\<rparr>"
| "memory_effect (Insert_Storage a k v) h = h\<lparr>hs_slots := (hs_slots h)((a, k) := v)\<rparr>"
| "memory_effect Sorted h = h"

lemma build_post_state_cong:
  "ms_accounts s = ms_accounts s' \<Longrightarrow> ms_storages s = ms_storages s' \<Longrightarrow>
   build_post_state ops s = build_post_state ops s'"
  by (simp add: build_post_state_def)

lemma set_bt_insert: "set (bt_insert k v m) \<subseteq> insert (k, v) (set m)"
  by (induction k v m rule: bt_insert.induct) auto

lemma slots_or_default_wf:
  assumes "memory_wf ops s"
  shows "bt_wf (slots_or_default a s) \<and> (\<forall>(k, v) \<in> set (slots_or_default a s). v \<noteq> 0)"
proof (cases "bt_get (ms_storages s) a")
  case (Some slots)
  then have "(a, slots) \<in> set (ms_storages s)" by (rule map_of_SomeD)
  then show ?thesis using assms Some by (fastforce simp: memory_wf_def slots_or_default_def)
qed (simp add: slots_or_default_def)

lemma memory_wf_default: "memory_wf ops memory_default"
  by (simp add: memory_wf_def memory_default_def)

lemma memory_wf_step:
  assumes "memory_wf ops s" shows "memory_wf ops (run_memory_op ops op s)"
proof (cases op)
  case (Insert_Account a acc)
  then show ?thesis using assms by (auto simp: memory_wf_def insert_account_def)
next
  case (Insert_Storage a k v)
  let ?slots = "if v = 0 then bt_remove k (slots_or_default a s) else bt_insert k v (slots_or_default a s)"
  have "bt_wf ?slots \<and> (\<forall>(k, v) \<in> set ?slots. v \<noteq> 0)"
    using slots_or_default_wf [OF assms, of a] set_bt_insert [of k v "slots_or_default a s"]
    by (auto simp: bt_remove_def [of k] bt_wf_remove [unfolded bt_remove_def])
  then show ?thesis
    using assms set_bt_insert [of a ?slots "ms_storages s"]
    by (fastforce simp: Insert_Storage memory_wf_def insert_storage_def Let_def)
next
  case Sorted
  then show ?thesis
    using assms by (auto simp: memory_wf_def sorted_state_def Let_def build_post_state_def split: option.splits)
qed

lemma memory_step_refines:
  "memory_abs (run_memory_op ops op s) = memory_effect op (memory_abs s)"
proof (cases op)
  case (Insert_Account a acc)
  then show ?thesis
    by (simp add: memory_abs_def insert_account_def slots_or_default_def)
next
  case (Insert_Storage a k v)
  have "slots_or_default b (insert_storage a k v s) = (if b = a
      then if v = 0 then bt_remove k (slots_or_default a s) else bt_insert k v (slots_or_default a s)
      else slots_or_default b s)" for b
    by (simp add: slots_or_default_def insert_storage_def Let_def)
  then show ?thesis
    by (auto simp: Insert_Storage memory_abs_def fun_eq_iff insert_storage_def Let_def split: option.splits)
next
  case Sorted
  then show ?thesis
    by (auto simp: memory_abs_def sorted_state_def slots_or_default_def Let_def split: option.splits)
qed

lemma memory_wf_run: "memory_wf ops (fold (run_memory_op ops) os memory_default)"
  by (induction os rule: rev_induct) (simp_all add: memory_wf_default memory_wf_step)

lemma memory_run_refines:
  "memory_abs (fold (run_memory_op ops) os s) = fold memory_effect os (memory_abs s)"
  by (induction os rule: rev_induct) (simp_all add: memory_step_refines)

section \<open>Counts and iteration\<close>

definition slot_entries :: "'so memory_state \<Rightarrow> (b256 \<times> b256 \<times> u256) list" where
  "slot_entries s = concat (map (\<lambda>(a, slots). map (Pair a) slots) (ms_storages s))"

lemma iter_storage_slots: "iter_storage a s = slots_or_default a s"
  by (simp add: iter_storage_def slots_or_default_def)

lemma slots_iff:
  assumes "memory_wf ops s"
  shows "(k, v) \<in> set (slots_or_default a s) \<longleftrightarrow> v \<noteq> 0 \<and> hs_slots (memory_abs s) (a, k) = v"
proof -
  have wf: "bt_wf (slots_or_default a s)" "\<forall>(k, v) \<in> set (slots_or_default a s). v \<noteq> 0"
    using slots_or_default_wf [OF assms] by simp_all
  have "(k, v) \<in> set (slots_or_default a s) \<longleftrightarrow> bt_get (slots_or_default a s) k = Some v"
    using bt_wf_distinct [OF wf(1)] by simp
  then show ?thesis using wf(2) by (auto simp: memory_abs_def split: option.split)
qed

lemma slot_entries_iff:
  assumes "memory_wf ops s"
  shows "(a, k, v) \<in> set (slot_entries s) \<longleftrightarrow> v \<noteq> 0 \<and> hs_slots (memory_abs s) (a, k) = v"
proof -
  have d: "distinct (map fst (ms_storages s))"
    using assms by (intro bt_wf_distinct) (simp add: memory_wf_def)
  have "(a, k, v) \<in> set (slot_entries s) \<longleftrightarrow> (\<exists>slots. (a, slots) \<in> set (ms_storages s) \<and> (k, v) \<in> set slots)"
    by (auto simp: slot_entries_def)
  also have "\<dots> \<longleftrightarrow> (\<exists>slots. bt_get (ms_storages s) a = Some slots \<and> (k, v) \<in> set slots)"
    unfolding map_of_eq_Some_iff [OF d] ..
  also have "\<dots> \<longleftrightarrow> (k, v) \<in> set (slots_or_default a s)"
    by (cases "bt_get (ms_storages s) a") (simp_all add: slots_or_default_def)
  finally show ?thesis by (simp add: slots_iff [OF assms])
qed

lemma distinct_slot_entries:
  assumes "memory_wf ops s" shows "distinct (map (\<lambda>(a, k, v). (a, k)) (slot_entries s))"
proof -
  have "distinct (map fst ms) \<Longrightarrow> \<forall>(a, slots) \<in> set ms. bt_wf slots \<Longrightarrow>
      distinct (map (\<lambda>(a, k, v). (a, k)) (concat (map (\<lambda>(a, slots). map (Pair a) slots) ms)))"
    for ms :: "(b256 \<times> (b256, u256) btree_map) list"
  proof (induction ms)
    case Nil
    then show ?case by simp
  next
    case (Cons am ms)
    obtain a slots where am: "am = (a, slots)" by (cases am)
    then have "distinct (map fst slots)" using Cons.prems(2) bt_wf_distinct by auto
    moreover have "map (\<lambda>(a, k, v). (a, k)) (map (Pair a) slots) = map (Pair a) (map fst slots)"
      by (simp add: comp_def split_def)
    ultimately have "distinct (map (\<lambda>(a, k, v). (a, k)) (map (Pair a) slots))"
      by (simp only: distinct_map_inj inj_def prod.inject simp_thms)
    moreover have "a \<notin> fst ` set ms" using Cons.prems(1) am by simp
    ultimately show ?case using Cons am by (force simp: image_iff)
  qed
  then show ?thesis using assms bt_wf_distinct unfolding slot_entries_def memory_wf_def by fast
qed

lemma storage_count_entries: "storage_count s = length (slot_entries s)"
  by (simp add: storage_count_def slot_entries_def length_concat comp_def split_def)

lemma storage_count_card:
  assumes "memory_wf ops s"
  shows "storage_count s = card {ak. hs_slots (memory_abs s) ak \<noteq> 0}"
proof -
  let ?key = "\<lambda>(a :: b256, k :: b256, v :: u256). (a, k)"
  have "{ak. hs_slots (memory_abs s) ak \<noteq> 0} = set (map ?key (slot_entries s))"
    using slot_entries_iff [OF assms] by (force simp: image_iff)
  then show ?thesis
    using distinct_card [OF distinct_slot_entries [OF assms]] by (simp add: storage_count_entries)
qed

lemma account_count_card:
  assumes "memory_wf ops s" shows "account_count s = card (dom (hs_accounts (memory_abs s)))"
proof -
  have "bt_wf (ms_accounts s)" using assms by (simp add: memory_wf_def)
  then have "card (set (map fst (ms_accounts s))) = length (ms_accounts s)"
    using distinct_card [OF bt_wf_distinct] by simp
  then show ?thesis by (simp add: account_count_def memory_abs_def dom_map_of_conv_image_fst)
qed

section \<open>The post-state\<close>

text \<open>States with the same content agree on everything but storages without slots.\<close>

definition nonempty_storages :: "'so memory_state \<Rightarrow> (b256 \<times> (b256, u256) btree_map) list" where
  "nonempty_storages s = filter (\<lambda>(a, slots). slots \<noteq> []) (ms_storages s)"

lemma build_post_state_nonempty:
  "post_storages (build_post_state ops s) =
   fold (\<lambda>(addr, slots). hm_insert addr (storage_from_iter ops slots)) (nonempty_storages s) []"
proof -
  have "fold (\<lambda>(addr, slots) m. if slots \<noteq> [] then hm_insert addr (storage_from_iter ops slots) m else m) xs m =
      fold (\<lambda>(addr, slots). hm_insert addr (storage_from_iter ops slots)) (filter (\<lambda>(a, slots). slots \<noteq> []) xs) m"
    for m and xs :: "(b256 \<times> (b256, u256) btree_map) list"
    by (induction xs arbitrary: m) auto
  then show ?thesis by (simp add: build_post_state_def nonempty_storages_def)
qed

lemma bt_wf_filter: "bt_wf m \<Longrightarrow> bt_wf (filter P m)"
  by (simp add: bt_wf_def sorted_wrt_map sorted_wrt_filter)

lemma nonempty_storages_get:
  assumes "memory_wf ops s"
  shows "bt_get (nonempty_storages s) a = (if slots_or_default a s = [] then None else Some (slots_or_default a s))"
proof -
  have "distinct (map fst (ms_storages s))"
    using assms by (intro bt_wf_distinct) (simp add: memory_wf_def)
  then have "hm_get (hm_retain (\<lambda>a slots. slots \<noteq> []) (ms_storages s)) a =
      (case hm_get (ms_storages s) a of None \<Rightarrow> None | Some slots \<Rightarrow> if slots \<noteq> [] then Some slots else None)"
    by (intro hm_get_retain) (simp add: hm_wf_def)
  then show ?thesis
    by (auto simp: nonempty_storages_def hm_retain_def slots_or_default_def split: option.splits)
qed

lemma same_content_same_slots:
  assumes "memory_wf ops s" and "memory_wf ops s'" and "memory_abs s = memory_abs s'"
  shows "slots_or_default a s = slots_or_default a s'"
proof (rule bt.canonical_entries)
  show "bt_wf (slots_or_default a s)" "bt_wf (slots_or_default a s')"
    using slots_or_default_wf assms by blast+
  show "bt_get (slots_or_default a s) = bt_get (slots_or_default a s')"
  proof (rule ext)
    fix k
    have "(k, v) \<in> set (slots_or_default a s) \<longleftrightarrow> (k, v) \<in> set (slots_or_default a s')" for v
      using assms by (simp add: slots_iff [of ops])
    then have "bt_get (slots_or_default a s) k = Some v \<longleftrightarrow> bt_get (slots_or_default a s') k = Some v" for v
      using slots_or_default_wf [OF assms(1), of a] slots_or_default_wf [OF assms(2), of a]
      by (simp add: bt_wf_distinct)
    then show "bt_get (slots_or_default a s) k = bt_get (slots_or_default a s') k"
      by (metis not_None_eq)
  qed
qed

lemma same_content_same_post_state:
  assumes "memory_wf ops s" and "memory_wf ops s'" and "memory_abs s = memory_abs s'"
  shows "ms_accounts s = ms_accounts s' \<and> nonempty_storages s = nonempty_storages s' \<and>
    build_post_state ops s = build_post_state ops s'"
proof -
  have acc: "ms_accounts s = ms_accounts s'"
    using assms by (intro bt.canonical_entries) (simp_all add: memory_wf_def memory_abs_def)
  have sto: "nonempty_storages s = nonempty_storages s'"
  proof (rule bt.canonical_entries)
    show "bt_wf (nonempty_storages s)" "bt_wf (nonempty_storages s')"
      unfolding nonempty_storages_def using assms by (simp_all add: memory_wf_def bt_wf_filter)
    show "bt_get (nonempty_storages s) = bt_get (nonempty_storages s')"
      by (rule ext) (simp add: nonempty_storages_get [OF assms(1)] nonempty_storages_get [OF assms(2)]
          same_content_same_slots [OF assms])
  qed
  have "post_storages (build_post_state ops s) = post_storages (build_post_state ops s')"
    unfolding build_post_state_nonempty sto ..
  moreover have "post_accounts (build_post_state ops s) = post_accounts (build_post_state ops s')"
    by (simp add: build_post_state_def acc)
  ultimately show ?thesis using acc sto by simp
qed

lemma post_accounts_get:
  assumes "memory_wf ops s"
  shows "hm_get (post_accounts (build_post_state ops s)) a = map_option Some (hs_accounts (memory_abs s) a)"
proof -
  have "fold (\<lambda>(addr, acc). hm_insert addr (Some acc)) xs m =
      fold (\<lambda>(addr, acc). hm_insert addr acc) (map (\<lambda>(addr, acc). (addr, Some acc)) xs) m"
    for xs :: "(b256 \<times> account) list" and m by (induction xs arbitrary: m) auto
  moreover have "distinct (map fst (map (\<lambda>(addr, acc). (addr, Some acc)) (ms_accounts s)))"
    using assms bt_wf_distinct [of "ms_accounts s"] by (simp add: memory_wf_def comp_def split_def)
  ultimately show ?thesis
    using hm.lookup_insert_all_distinct [of "[]" "map (\<lambda>(addr, acc). (addr, Some acc)) (ms_accounts s)"]
    by (simp add: build_post_state_def memory_abs_def map_of_map)
qed

lemma post_storages_get:
  assumes "memory_wf ops s"
  shows "hm_get (post_storages (build_post_state ops s)) a =
    (if slots_or_default a s = [] then None else Some (storage_from_iter ops (slots_or_default a s)))"
proof -
  let ?f = "\<lambda>(addr :: b256, slots). (addr, storage_from_iter ops slots)"
  have "fold (\<lambda>(addr, slots). hm_insert addr (storage_from_iter ops slots)) xs m =
      fold (\<lambda>(addr, h). hm_insert addr h) (map ?f xs) m" for xs m by (induction xs arbitrary: m) auto
  moreover have "bt_wf (nonempty_storages s)"
    unfolding nonempty_storages_def using assms by (simp add: memory_wf_def bt_wf_filter)
  then have "distinct (map fst (map ?f (nonempty_storages s)))"
    using bt_wf_distinct [of "nonempty_storages s"] by (simp add: comp_def split_def)
  ultimately show ?thesis
    using hm.lookup_insert_all_distinct [of "[]" "map ?f (nonempty_storages s)"]
    by (simp add: build_post_state_nonempty map_of_map nonempty_storages_get [OF assms])
qed

section \<open>Writing into the tables\<close>

context full_store
begin

lemma put_slots_others:
  "put_slots db a kvs t = Ok t' \<Longrightarrow> rows t' = rows t \<and>
   others t' = (others t)\<lparr>hashed_slots := hashed_slots (others t) \<union> {(a, k, v) |k v. (k, v) \<in> set kvs}\<rparr>"
proof (induction kvs arbitrary: t)
  case Nil
  then show ?case by simp
next
  case (Cons kv kvs)
  obtain k v where kv: "kv = (k, v)" by (cases kv)
  obtain t1 where t1: "tx_put_slot db a (k, v) t = Ok t1" "put_slots db a kvs t1 = Ok t'"
    using Cons.prems by (auto simp: kv rbind_eq_Ok)
  have "insert (a, k, v) X \<union> {(a, x, y) |x y. (x, y) \<in> set kvs} =
      X \<union> {(a, x, y) |x y. (x, y) \<in> set ((k, v) # kvs)}" for X by auto
  then show ?case using Cons.IH [OF t1(2)] put_slot [OF t1(1)] by (simp add: kv)
qed

lemma put_accounts_others:
  "put_accounts_from db s accs t = Ok t' \<Longrightarrow> rows t' = rows t \<and>
   others t' = (others t)\<lparr>hashed_accounts := hashed_accounts (others t) ++ map_of (rev accs),
     hashed_slots := hashed_slots (others t) \<union>
       {(a, k, v) |a k v. a \<in> fst ` set accs \<and> (k, v) \<in> set (iter_storage a s)}\<rparr>"
proof (induction accs arbitrary: t)
  case Nil
  then show ?case by simp
next
  case (Cons aa accs)
  obtain a acc where aa: "aa = (a, acc)" by (cases aa)
  obtain t1 t2 where t1: "tx_put_account db a acc t = Ok t1" "put_slots db a (iter_storage a s) t1 = Ok t2"
      "put_accounts_from db s accs t2 = Ok t'"
    using Cons.prems by (auto simp: aa rbind_eq_Ok)
  have S: "X \<union> {(a, k, v) |k v. (k, v) \<in> set (iter_storage a s)} \<union>
        {(a, k, v) |a k v. a \<in> fst ` set accs \<and> (k, v) \<in> set (iter_storage a s)} =
      X \<union> {(b, k, v) |b k v. b \<in> fst ` set ((a, acc) # accs) \<and> (k, v) \<in> set (iter_storage b s)}" for X by force
  have A: "m(a \<mapsto> acc) ++ map_of (rev accs) = m ++ map_of (rev ((a, acc) # accs))" for m
    by (simp add: map_add_def fun_eq_iff split: option.split)
  have "rows t' = rows t" and "others t' = (others t)\<lparr>
      hashed_accounts := (hashed_accounts (others t))(a \<mapsto> acc) ++ map_of (rev accs),
      hashed_slots := hashed_slots (others t) \<union> {(a, k, v) |k v. (k, v) \<in> set (iter_storage a s)} \<union>
        {(a, k, v) |a k v. a \<in> fst ` set accs \<and> (k, v) \<in> set (iter_storage a s)}\<rparr>"
    using Cons.IH [OF t1(3)] put_slots_others [OF t1(2)] put_account [OF t1(1)]
    by (simp_all add: fun_upd_def)
  then show ?case unfolding A S aa by simp
qed

lemma write_hashed_state_result:
  assumes "memory_wf ops s" and "write_hashed_state db s d = (d', r)"
  shows "committed d' = committed d \<and> (case r of
      Err e \<Rightarrow> committed_others d' = committed_others d
    | Ok _ \<Rightarrow> committed_others d' = (committed_others d)\<lparr>
        hashed_accounts := hashed_accounts (committed_others d) ++ hs_accounts (memory_abs s),
        hashed_slots := hashed_slots (committed_others d) \<union>
          {(a, k, v). hs_accounts (memory_abs s) a \<noteq> None \<and> v \<noteq> 0 \<and> hs_slots (memory_abs s) (a, k) = v}\<rparr>)"
proof (cases r)
  case (Inl e)
  then show ?thesis using assms(2) in_tx_full_Err unfolding write_hashed_state_def by fastforce
next
  case (Inr x)
  obtain t t' where t: "rows t = committed d" "others t = committed_others d"
      "put_accounts_from db s (iter_accounts s) t = Ok t'" "committed d' = rows t'" "committed_others d' = others t'"
    using in_tx_full_Ok [OF assms(2) [unfolded Inr write_hashed_state_def]] by (auto simp: rbind_eq_Ok)
  have d: "distinct (map fst (ms_accounts s))"
    using assms(1) bt_wf_distinct [of "ms_accounts s"] by (simp add: memory_wf_def)
  have "map_of (rev (iter_accounts s)) = hs_accounts (memory_abs s)"
    unfolding iter_accounts_def memory_abs_def using d by (simp add: map_of_permute [of "rev (ms_accounts s)"] flip: rev_map)
  moreover have "{(a, k, v) |a k v. a \<in> fst ` set (iter_accounts s) \<and> (k, v) \<in> set (iter_storage a s)} =
      {(a, k, v). hs_accounts (memory_abs s) a \<noteq> None \<and> v \<noteq> 0 \<and> hs_slots (memory_abs s) (a, k) = v}"
  proof -
    have "a \<in> fst ` set (iter_accounts s) \<longleftrightarrow> hs_accounts (memory_abs s) a \<noteq> None" for a
      by (simp add: iter_accounts_def memory_abs_def map_of_eq_None_iff)
    then show ?thesis by (auto simp: iter_storage_slots slots_iff [OF assms(1)])
  qed
  ultimately show ?thesis using put_accounts_others [OF t(3)] t Inr by simp
qed

end

context reliable_store
begin

lemma put_slots_succeeds: "\<exists>t'. put_slots db a kvs t = Ok t'"
proof (induction kvs arbitrary: t)
  case Nil
  then show ?case by simp
next
  case (Cons kv kvs)
  obtain k v where kv: "kv = (k, v)" by (cases kv)
  obtain t1 where "tx_put_slot db a (k, v) t = Ok t1" using put_slot_succeeds by blast
  then show ?case using Cons.IH by (simp add: kv)
qed

lemma put_accounts_succeeds: "\<exists>t'. put_accounts_from db s accs t = Ok t'"
proof (induction accs arbitrary: t)
  case Nil
  then show ?case by simp
next
  case (Cons aa accs)
  obtain a acc where aa: "aa = (a, acc)" by (cases aa)
  obtain t1 where t1: "tx_put_account db a acc t = Ok t1" using put_account_succeeds by blast
  obtain t2 where "put_slots db a (iter_storage a s) t1 = Ok t2" using put_slots_succeeds by blast
  then show ?case using Cons.IH t1 by (simp add: aa)
qed

lemma write_hashed_state_succeeds: "\<exists>d'. write_hashed_state db s d = (d', Ok ())"
proof -
  have "\<exists>d' r. write_hashed_state db s d = (d', Ok r)"
    unfolding write_hashed_state_def
  proof (rule in_tx_succeeds)
    fix t
    obtain t' where "put_accounts_from db s (iter_accounts s) t = Ok t'"
      using put_accounts_succeeds by blast
    then show "\<exists>r t'. rbind (put_accounts_from db s (iter_accounts s) t) (\<lambda>t. Ok ((), t)) = Ok (r, t')"
      by simp
  qed
  then show ?thesis by simp
qed

end

section \<open>Properties\<close>

text \<open>
  C14: Whatever the sequence of insertions and uses of the post-state, the state holds the last
  account inserted for every address and the last value set for every slot, slots never set or set
  to zero reading as zero; \<open>account_count\<close> and \<open>storage_count\<close> are the number of accounts and of
  slots that are not zero; accounts and slots are iterated in increasing key order; and the
  post-state handed out is the one built from the present content, never a stale one.
\<close>

theorem memory_state_refines:
  fixes ops :: "('hs, 'so) post_state_ops"
  defines "run \<equiv> \<lambda>os. fold (run_memory_op ops) os memory_default"
  defines "content \<equiv> \<lambda>os. fold memory_effect os \<lparr>hs_accounts = Map.empty, hs_slots = (\<lambda>_. 0)\<rparr>"
  shows "memory_abs (run os) = content os \<and>
    account_count (run os) = card (dom (hs_accounts (content os))) \<and>
    storage_count (run os) = card {ak. hs_slots (content os) ak \<noteq> 0} \<and>
    sorted_wrt (<) (map fst (iter_accounts (run os))) \<and> map_of (iter_accounts (run os)) = hs_accounts (content os) \<and>
    sorted_wrt (<) (map fst (iter_storage a (run os))) \<and>
    (\<forall>k v. (k, v) \<in> set (iter_storage a (run os)) \<longleftrightarrow> v \<noteq> 0 \<and> hs_slots (content os) (a, k) = v) \<and>
    fst (sorted_state ops (run os)) = post_into_sorted ops (build_post_state ops (run os))"
proof -
  have wf: "memory_wf ops (run os)" unfolding run_def by (rule memory_wf_run)
  have init: "memory_abs (memory_default :: 'so memory_state) = \<lparr>hs_accounts = Map.empty, hs_slots = (\<lambda>_. 0)\<rparr>"
    by (simp add: memory_abs_def memory_default_def slots_or_default_def fun_eq_iff)
  have abs: "memory_abs (run os) = content os"
    unfolding run_def content_def memory_run_refines init ..
  show ?thesis
    unfolding abs [symmetric] iter_storage_slots
    using account_count_card [OF wf] storage_count_card [OF wf] slots_or_default_wf [OF wf, of a]
      slots_iff [OF wf] wf
    by (auto simp: bt_wf_def memory_wf_def iter_accounts_def memory_abs_def sorted_state_def Let_def split: option.split)
qed

text \<open>
  The post-state depends on the content only: two states with the same accounts and the same
  slots, however they were reached, hand reth the same post-state. It has every account, and a
  storage for exactly the addresses with a slot that is not zero.
\<close>

theorem post_state_of_content:
  assumes "memory_wf ops s" and "memory_wf ops s'" and "memory_abs s = memory_abs s'"
  shows "fst (sorted_state ops s) = fst (sorted_state ops s') \<and>
    (\<forall>a. hm_get (post_accounts (build_post_state ops s)) a = map_option Some (hs_accounts (memory_abs s) a)) \<and>
    (\<forall>a. hm_get (post_storages (build_post_state ops s)) a \<noteq> None \<longleftrightarrow> (\<exists>k. hs_slots (memory_abs s) (a, k) \<noteq> 0))"
proof -
  have "fst (sorted_state ops s) = post_into_sorted ops (build_post_state ops s)"
    "fst (sorted_state ops s') = post_into_sorted ops (build_post_state ops s')"
    using assms(1,2) by (auto simp: sorted_state_def memory_wf_def Let_def split: option.split)
  moreover have "build_post_state ops s = build_post_state ops s'"
    using same_content_same_post_state [OF assms] by blast
  moreover have "slots_or_default a s = [] \<longleftrightarrow> (\<forall>k. hs_slots (memory_abs s) (a, k) = 0)" for a
    using slots_iff [OF assms(1), of _ _ a] by (cases "slots_or_default a s") (auto, metis list.set_intros(1) prod.collapse)
  ultimately show ?thesis
    using post_accounts_get [OF assms(1)] post_storages_get [OF assms(1)] by auto
qed

definition sample_account :: account where
  "sample_account = \<lparr>nonce = 1, balance = 2, bytecode_hash = None\<rparr>"

definition sample_post_ops :: "((b256 \<times> u256) list, (b256 \<times> u256) list hashed_post_state) post_state_ops" where
  "sample_post_ops = \<lparr>storage_from_iter = (\<lambda>kvs. kvs), post_into_sorted = (\<lambda>p. p)\<rparr>"

definition sample_memory :: "(b256 \<times> u256) list hashed_post_state memory_state" where
  "sample_memory = memory_default"

lemma set_slot_idem: "hs_slots h ak = v \<Longrightarrow> h\<lparr>hs_slots := (hs_slots h)(ak := v)\<rparr> = h"
  by (cases h) (auto simp: fun_upd_idem)

theorem post_state_of_content_witness:
  "fst (sorted_state sample_post_ops (insert_storage 4 5 0 (insert_storage 4 5 6 (insert_account 1 sample_account sample_memory)))) =
   fst (sorted_state sample_post_ops (insert_account 1 sample_account sample_memory))"
proof -
  let ?s = "insert_account 1 sample_account sample_memory"
  let ?s' = "insert_storage 4 5 0 (insert_storage 4 5 6 ?s)"
  have "memory_wf sample_post_ops ?s" "memory_wf sample_post_ops ?s'"
    using memory_wf_run [of sample_post_ops "[Insert_Account 1 sample_account]"]
      memory_wf_run [of sample_post_ops "[Insert_Account 1 sample_account, Insert_Storage 4 5 6, Insert_Storage 4 5 0]"]
    by (simp_all add: sample_memory_def)
  moreover have "memory_abs ?s' = memory_abs ?s"
  proof -
    have "hs_slots (memory_abs ?s) (4, 5) = 0"
      by (simp add: memory_abs_def insert_account_def sample_memory_def memory_default_def slots_or_default_def)
    then show ?thesis
      using memory_run_refines [of sample_post_ops "[Insert_Storage 4 5 6, Insert_Storage 4 5 0]" ?s]
      by (simp add: set_slot_idem)
  qed
  ultimately show ?thesis using post_state_of_content [of sample_post_ops ?s' ?s] by blast
qed

text \<open>
  C15: \<open>write_hashed_state\<close> adds the state's accounts and the slots of the addresses that have an
  account to the hashed tables, in one transaction, and leaves the trie tables and the settings as
  they were. Slots of an address without an account are not written. A failed call changes nothing.
\<close>

theorem write_hashed_state_adds:
  assumes "full_store db rows position committed others committed_others"
    and "memory_wf ops s" and "write_hashed_state db s d = (d', r)"
  shows "committed d' = committed d \<and> (case r of
      Err e \<Rightarrow> committed_others d' = committed_others d
    | Ok _ \<Rightarrow> committed_others d' = (committed_others d)\<lparr>
        hashed_accounts := hashed_accounts (committed_others d) ++ hs_accounts (memory_abs s),
        hashed_slots := hashed_slots (committed_others d) \<union>
          {(a, k, v). hs_accounts (memory_abs s) a \<noteq> None \<and> v \<noteq> 0 \<and> hs_slots (memory_abs s) (a, k) = v}\<rparr>)"
  by (rule full_store.write_hashed_state_result [OF assms])

theorem write_hashed_state_adds_witness:
  "\<exists>d'. write_hashed_state ref_db (insert_storage 4 5 6 (insert_account 1 sample_account sample_memory))
      (ref_empty False) = (d', Ok ()) \<and> hashed_accounts (ref_others d') 1 = Some sample_account \<and>
    (4, 5, 6) \<notin> hashed_slots (ref_others d')"
proof -
  let ?s = "insert_storage 4 5 6 (insert_account 1 sample_account sample_memory)"
  have wf: "memory_wf sample_post_ops ?s"
    using memory_wf_run [of sample_post_ops "[Insert_Account 1 sample_account, Insert_Storage 4 5 6]"]
    by (simp add: sample_memory_def)
  obtain d' where run: "write_hashed_state ref_db ?s (ref_empty False) = (d', Ok ())"
    by (simp add: write_hashed_state_def in_tx_def iter_accounts_def iter_storage_def insert_account_def
        insert_storage_def sample_memory_def memory_default_def slots_or_default_def ref_db_def)
  show ?thesis
    using write_hashed_state_adds [OF ref_store.full_store_axioms wf run] run
    by (simp add: memory_abs_def insert_account_def insert_storage_def sample_memory_def memory_default_def
        ref_empty_def Let_def)
qed



end
