(* ===== verification/Rust_Fmt.thy ===== *)
theory Rust_Fmt
  imports Prelude
begin

text \<open>
  The text formats of Rust's standard library that the program prints and reads: decimal
  numbers, \<^verbatim>\<open>{:.2}\<close> of an exact number of hundredths, and \<^verbatim>\<open>usize::from_str\<close>, which accepts a
  leading plus sign and nothing that does not fit in 64 bits.
\<close>

definition digit_char :: "nat \<Rightarrow> char" where
  "digit_char d = char_of (48 + d :: nat)"

fun show_nat :: "nat \<Rightarrow> string" where
  "show_nat n = (if n < 10 then [digit_char n] else show_nat (n div 10) @ [digit_char (n mod 10)])"

declare show_nat.simps [simp del]

definition show_u64 :: "u64 \<Rightarrow> string" where
  "show_u64 n = show_nat (unat n)"

text \<open>\<open>p\<close> digits, and a number of \<open>10 ^ -p\<close>ths.\<close>

fun show_digits :: "nat \<Rightarrow> nat \<Rightarrow> string" where
  "show_digits 0 n = []"
| "show_digits (Suc p) n = show_digits p (n div 10) @ [digit_char (n mod 10)]"

lemma show_digits_numeral [simp]:
  "show_digits (numeral k) n = show_digits (pred_numeral k) (n div 10) @ [digit_char (n mod 10)]"
  by (simp only: numeral_eq_Suc [of k] show_digits.simps)

definition show_decimal :: "nat \<Rightarrow> nat \<Rightarrow> string" where
  "show_decimal p n = show_nat (n div 10 ^ p) @ (if p = 0 then [] else ''.'' @ show_digits p n)"

definition is_digit :: "char \<Rightarrow> bool" where
  "is_digit c \<longleftrightarrow> 48 \<le> (of_char c :: nat) \<and> (of_char c :: nat) < 58"

definition digits_value :: "string \<Rightarrow> nat" where
  "digits_value cs = foldl (\<lambda>n c. 10 * n + (of_char c - 48)) 0 cs"

definition parse_digits :: "string \<Rightarrow> u64 option" where
  "parse_digits cs = (if cs \<noteq> [] \<and> (\<forall>c \<in> set cs. is_digit c) \<and> digits_value cs < 2 ^ 64
     then Some (of_nat (digits_value cs)) else None)"

definition parse_usize :: "string \<Rightarrow> u64 option" where
  "parse_usize cs = (case cs of [] \<Rightarrow> None | c # cs' \<Rightarrow> if c = CHR ''+'' then parse_digits cs' else parse_digits cs)"

lemma of_char_digit_char: "d < 10 \<Longrightarrow> of_char (digit_char d) = 48 + d"
  by (simp add: digit_char_def of_char_of)

lemma is_digit_digit_char: "d < 10 \<Longrightarrow> is_digit (digit_char d)"
  by (simp add: is_digit_def of_char_digit_char)

lemma show_nat_digits: "\<forall>c \<in> set (show_nat n). is_digit c"
proof (induction n rule: show_nat.induct)
  case (1 n)
  then show ?case by (subst show_nat.simps) (auto simp: is_digit_digit_char)
qed

lemma show_nat_nonempty: "show_nat n \<noteq> []"
  by (subst show_nat.simps) simp

lemma digits_value_show_nat: "digits_value (show_nat n) = n"
proof (induction n rule: show_nat.induct)
  case (1 n)
  then show ?case
    by (subst show_nat.simps) (simp add: digits_value_def of_char_digit_char)
qed

lemma show_nat_no_plus: "hd (show_nat n) \<noteq> CHR ''+''"
proof -
  have "is_digit (hd (show_nat n))" using show_nat_digits show_nat_nonempty hd_in_set by blast
  then show ?thesis by (auto simp: is_digit_def)
qed

lemma parse_usize_show_u64 [simp]: "parse_usize (show_u64 n) = Some n"
proof -
  have "parse_digits (show_nat (unat n)) = Some n"
    using show_nat_digits [of "unat n"] unsigned_less [of n, where ?'a = nat]
    by (simp add: parse_digits_def show_nat_nonempty digits_value_show_nat)
  then show ?thesis
    using show_nat_nonempty [of "unat n"] show_nat_no_plus [of "unat n"]
    by (cases "show_nat (unat n)") (simp_all add: parse_usize_def show_u64_def)
qed

section \<open>Lower-case hexadecimal, and what numbers are read back from\<close>

definition hex_char :: "nat \<Rightarrow> char" where
  "hex_char d = char_of (if d < 10 then 48 + d else 87 + d :: nat)"

text \<open>\<^verbatim>\<open>{:0px}\<close> of a number below \<open>16 ^ p\<close>.\<close>

fun show_hex :: "nat \<Rightarrow> nat \<Rightarrow> string" where
  "show_hex 0 n = []"
| "show_hex (Suc p) n = show_hex p (n div 16) @ [hex_char (n mod 16)]"

lemma of_char_hex_char: "d < 16 \<Longrightarrow> of_char (hex_char d) = (if d < 10 then 48 + d else 87 + d)"
  by (simp add: hex_char_def of_char_of)

lemma hex_char_inj: "c < 16 \<Longrightarrow> d < 16 \<Longrightarrow> hex_char c = hex_char d \<Longrightarrow> c = d"
proof -
  assume c: "c < 16" "d < 16" and eq: "hex_char c = hex_char d"
  have "(if c < 10 then 48 + c else 87 + c) = (of_char (hex_char d) :: nat)"
    using of_char_hex_char [OF c(1)] by (simp only: eq)
  also have "\<dots> = (if d < 10 then 48 + d else 87 + d)" by (rule of_char_hex_char [OF c(2)])
  finally show "c = d" by (simp split: if_splits)
qed

lemma length_show_hex [simp]: "length (show_hex p n) = p"
  by (induction p arbitrary: n) simp_all

lemma show_hex_inj: "m < 16 ^ p \<Longrightarrow> n < 16 ^ p \<Longrightarrow> show_hex p m = show_hex p n \<Longrightarrow> m = n"
proof (induction p arbitrary: m n)
  case 0
  then show ?case by simp
next
  case (Suc p)
  then have "m div 16 = n div 16" by (intro Suc.IH) (simp_all add: less_mult_imp_div_less)
  moreover have "m mod 16 = n mod 16" using Suc.prems(3) by (intro hex_char_inj) simp_all
  ultimately show ?case by (metis div_mult_mod_eq)
qed

lemma show_nat_inj [simp]: "show_nat m = show_nat n \<longleftrightarrow> m = n"
  using digits_value_show_nat by metis

lemma show_u64_inj [simp]: "show_u64 m = show_u64 n \<longleftrightarrow> m = n"
  by (simp add: show_u64_def word_unat_eq_iff)

text \<open>A text up to a character that it does not have.\<close>

lemma stops_at: "c \<notin> set x \<Longrightarrow> c \<notin> set y \<Longrightarrow> x @ c # r = y @ c # s \<longleftrightarrow> x = y \<and> r = s"
proof (induction x arbitrary: y)
  case Nil
  then show ?case by (cases y) auto
next
  case (Cons a x)
  then show ?case by (cases y) auto
qed

lemma show_nat_chars: "c \<in> set (show_nat n) \<Longrightarrow> is_digit c"
  using show_nat_digits by blast

lemma show_u64_chars: "c \<in> set (show_u64 n) \<Longrightarrow> is_digit c"
  by (simp add: show_u64_def show_nat_chars)

lemma show_hex_chars: "c \<in> set (show_hex p n) \<Longrightarrow> 48 \<le> (of_char c :: nat)"
  by (induction p arbitrary: n) (auto simp: of_char_hex_char)

lemma numbers_no_space [simp]:
  "CHR '' '' \<notin> set (show_nat n)" "CHR '' '' \<notin> set (show_u64 w)" "CHR '' '' \<notin> set (show_hex p n)"
  "CHR '':'' \<notin> set (show_nat n)"
  using show_nat_chars [of "CHR '' ''" n] show_u64_chars [of "CHR '' ''" w] show_hex_chars [of "CHR '' ''" p n]
    show_nat_chars [of "CHR '':''" n] by (auto simp: is_digit_def)

end
