(* ===== verification/Synth_State.thy ===== *)
theory Synth_State
  imports Memory_State Rust_Fmt
begin

unbundle bit_operations_syntax

text \<open>
  The synthetic state generator (\<^verbatim>\<open>synth.rs\<close>): the SplitMix64 generator and the loops that draw
  accounts, contract sizes and slots from it, in the order in which Rust evaluates them. The
  generator does not repeat an output within 2^64 draws, so no two addresses and no two slot
  keys of a state collide and the state has exactly the size its configuration asks for.
\<close>

section \<open>Model\<close>

record synth_config =
  seed :: u64
  eoas :: u64
  small_contracts :: u64
  small_slots_max :: u64
  large_contracts :: "u64 list"

definition synth_config_default :: synth_config where
  "synth_config_default = \<lparr>seed = 1, eoas = 2000, small_contracts = 200, small_slots_max = 16,
     large_contracts = [5000]\<rparr>"

type_synonym rng = u64

definition next_u64 :: "rng \<Rightarrow> u64 \<times> rng" where
  "next_u64 r = (let s = r + 0x9E3779B97F4A7C15; z = s;
     z = (z XOR drop_bit 30 z) * 0xBF58476D1CE4E5B9;
     z = (z XOR drop_bit 27 z) * 0x94D049BB133111EB
   in (z XOR drop_bit 31 z, s))"

definition u64_le_bytes :: "u64 \<Rightarrow> u8 list" where
  "u64_le_bytes x = map (\<lambda>i. ucast (drop_bit (8 * i) x)) [0..<8]"

text \<open>The four chunks of eight bytes are filled in order.\<close>

definition next_b256 :: "rng \<Rightarrow> b256 \<times> rng" where
  "next_b256 r0 = (let (w0, r1) = next_u64 r0; (w1, r2) = next_u64 r1;
     (w2, r3) = next_u64 r2; (w3, r4) = next_u64 r3
   in (b256_of_bytes (u64_le_bytes w0 @ u64_le_bytes w1 @ u64_le_bytes w2 @ u64_le_bytes w3), r4))"

definition below :: "u64 \<Rightarrow> rng \<Rightarrow> (u64 \<times> rng) outcome" where
  "below n r = (if n = 0 then Panics ''attempt to calculate the remainder with a divisor of zero''
     else let (x, r') = next_u64 r in Returns (x mod n, r'))"

fun insert_eoas :: "nat \<Rightarrow> rng \<Rightarrow> 'so memory_state \<Rightarrow> (rng \<times> 'so memory_state) outcome" where
  "insert_eoas 0 r s = Returns (r, s)"
| "insert_eoas (Suc k) r s =
     (let (hashed_address, r) = next_b256 r in
      obind (below 50 r) (\<lambda>(n, r).
      let (b, r) = next_u64 r in
      insert_eoas k r (insert_account hashed_address
        \<lparr>nonce = n, balance = ucast b, bytecode_hash = None\<rparr> s)))"

fun small_sizes :: "u64 \<Rightarrow> nat \<Rightarrow> rng \<Rightarrow> (u64 list \<times> rng) outcome" where
  "small_sizes m 0 r = Returns ([], r)"
| "small_sizes m (Suc k) r = obind (below m r) (\<lambda>(n, r).
     obind (small_sizes m k r) (\<lambda>(ns, r). Returns ((1 + n) # ns, r)))"

fun insert_slots :: "nat \<Rightarrow> b256 \<Rightarrow> rng \<Rightarrow> 'so memory_state \<Rightarrow> (rng \<times> 'so memory_state) outcome" where
  "insert_slots 0 a r s = Returns (r, s)"
| "insert_slots (Suc k) a r s =
     obind (below 0xFFFFFFFF r) (\<lambda>(n, r).
     let (key, r) = next_b256 r in
     insert_slots k a r (insert_storage a key (ucast (1 + n)) s))"

fun insert_contracts :: "u64 list \<Rightarrow> rng \<Rightarrow> 'so memory_state \<Rightarrow> (rng \<times> 'so memory_state) outcome" where
  "insert_contracts [] r s = Returns (r, s)"
| "insert_contracts (slots # sizes) r s =
     (let (hashed_address, r) = next_b256 r in
      obind (below 1000000 r) (\<lambda>(b, r).
      let (code, r) = next_b256 r in
      obind (insert_slots (unat slots) hashed_address r (insert_account hashed_address
        \<lparr>nonce = 1, balance = ucast b, bytecode_hash = Some code\<rparr> s)) (\<lambda>(r, s).
      insert_contracts sizes r s)))"

definition synthesize :: "synth_config \<Rightarrow> 'so memory_state outcome" where
  "synthesize config =
     obind (insert_eoas (unat (eoas config)) (seed config) memory_default) (\<lambda>(r, s).
     obind (small_sizes (small_slots_max config) (unat (small_contracts config)) r) (\<lambda>(sizes, r).
     obind (insert_contracts (sizes @ large_contracts config) r s) (\<lambda>(r, s). Returns s)))"

section \<open>The generator does not repeat\<close>

definition gamma :: u64 where "gamma = 0x9E3779B97F4A7C15"

definition mix :: "u64 \<Rightarrow> u64" where "mix s = fst (next_u64 (s - gamma))"

lemma next_u64_mix: "next_u64 r = (mix (r + gamma), r + gamma)"
  by (simp add: next_u64_def mix_def gamma_def Let_def)

lemma xorshift_inverse:
  fixes x :: u64
  assumes "0 < k" and "64 \<le> 3 * k" and "y = x XOR drop_bit k x"
  shows "x = y XOR drop_bit k y XOR drop_bit (2 * k) y"
proof (rule bit_word_eqI)
  fix n assume "n < LENGTH(64)"
  have "\<not> bit x (3 * k + n)"
    using assms(2) bit_imp_le_length [of x "3 * k + n"] by auto
  then show "bit x n \<longleftrightarrow> bit (y XOR drop_bit k y XOR drop_bit (2 * k) y) n"
    by (auto simp: assms(3) bit_simps mult_2 add.assoc add.left_commute numeral_3_eq_3)
qed

lemma xorshift_inject:
  fixes x y :: u64
  assumes "0 < k" and "64 \<le> 3 * k"
  shows "x XOR drop_bit k x = y XOR drop_bit k y \<longleftrightarrow> x = y"
  using xorshift_inverse [OF assms] by metis

lemma mult_inject:
  fixes x y c d :: u64
  assumes "c * d = 1" shows "x * c = y * c \<longleftrightarrow> x = y"
proof
  assume "x * c = y * c"
  then have "x * c * d = y * c * d" by simp
  then show "x = y" unfolding mult.assoc assms by simp
qed simp

lemma mix_eq: "mix s = (let z = (s XOR drop_bit 30 s) * 0xBF58476D1CE4E5B9;
    z = (z XOR drop_bit 27 z) * 0x94D049BB133111EB in z XOR drop_bit 31 z)"
  by (simp add: mix_def next_u64_def gamma_def Let_def)

lemma mix_inject: "mix s = mix t \<longleftrightarrow> s = t"
proof -
  have c1: "(0xBF58476D1CE4E5B9 :: u64) * 0x96DE1B173F119089 = 1" by simp
  have c2: "(0x94D049BB133111EB :: u64) * 0x319642B2D24D8EC3 = 1" by simp
  show ?thesis unfolding mix_eq Let_def
    by (simp add: xorshift_inject mult_inject [OF c1] mult_inject [OF c2])
qed

lemma gamma_mult_inject:
  assumes "j < 2 ^ 64" and "k < 2 ^ 64"
  shows "(of_nat j :: u64) * gamma = of_nat k * gamma \<longleftrightarrow> j = k"
proof -
  have "gamma * 0xF1DE83E19937733D = 1" by (simp add: gamma_def)
  then have "(of_nat j :: u64) * gamma = of_nat k * gamma \<longleftrightarrow> (of_nat j :: u64) = of_nat k"
    by (rule mult_inject)
  also have "\<dots> \<longleftrightarrow> j = k"
    using assms by (simp add: word_of_nat_eq_iff take_bit_nat_eq_self)
  finally show ?thesis .
qed

text \<open>The generator after a number of draws, and the hash drawn from a generator state.\<close>

definition rng_at :: "u64 \<Rightarrow> nat \<Rightarrow> rng" where
  "rng_at s k = s + of_nat k * gamma"

definition b256_draw :: "rng \<Rightarrow> b256" where
  "b256_draw r = fst (next_b256 r)"

lemma rng_at_0 [simp]: "rng_at s 0 = s"
  by (simp add: rng_at_def)

lemma rng_at_step: "rng_at s k + gamma = rng_at s (k + 1)"
  by (simp add: rng_at_def algebra_simps)

lemma next_u64_at: "next_u64 (rng_at s k) = (mix (rng_at s (k + 1)), rng_at s (k + 1))"
  by (simp only: next_u64_mix rng_at_step)

lemma next_b256_at: "next_b256 (rng_at s k) = (b256_draw (rng_at s k), rng_at s (k + 4))"
  by (simp add: b256_draw_def next_b256_def next_u64_at Let_def numeral_eq_Suc)

lemma u64_le_bytes_inject: "u64_le_bytes x = u64_le_bytes y \<longleftrightarrow> x = y"
proof
  assume eq: "u64_le_bytes x = u64_le_bytes y"
  show "x = y"
  proof (rule bit_word_eqI)
    fix n assume "n < LENGTH(64)"
    then have n: "n div 8 < 8" "8 * (n div 8) + n mod 8 = n" by auto
    have "(ucast (drop_bit (8 * (n div 8)) x) :: u8) = ucast (drop_bit (8 * (n div 8)) y)"
      using arg_cong [OF eq, of "\<lambda>bs. bs ! (n div 8)"] n(1) by (simp add: u64_le_bytes_def)
    then have "bit (ucast (drop_bit (8 * (n div 8)) x) :: u8) (n mod 8) =
        bit (ucast (drop_bit (8 * (n div 8)) y) :: u8) (n mod 8)" by simp
    then show "bit x n \<longleftrightarrow> bit y n" by (simp add: bit_simps n(2))
  qed
qed simp

lemma length_u64_le_bytes [simp]: "length (u64_le_bytes x) = 8"
  by (simp add: u64_le_bytes_def)

lemma b256_draw_inject: "b256_draw r = b256_draw r' \<longleftrightarrow> r = r'"
proof
  assume eq: "b256_draw r = b256_draw r'"
  define ws where "ws = (\<lambda>r. u64_le_bytes (mix (r + gamma)) @ u64_le_bytes (mix (r + gamma + gamma)) @
    u64_le_bytes (mix (r + gamma + gamma + gamma)) @ u64_le_bytes (mix (r + gamma + gamma + gamma + gamma)))"
  have draw: "b256_draw r = b256_of_bytes (ws r)" for r
    by (simp add: b256_draw_def next_b256_def next_u64_mix ws_def)
  have "length (ws r) = 32" for r by (simp add: ws_def)
  then have "ws r = ws r'" using eq unfolding draw by (metis b256_bytes_of_bytes)
  then have "u64_le_bytes (mix (r + gamma)) = u64_le_bytes (mix (r' + gamma))" by (simp add: ws_def)
  then show "r = r'" by (simp add: u64_le_bytes_inject mix_inject)
qed simp

lemma draw_at_inject:
  "j < 2 ^ 64 \<Longrightarrow> k < 2 ^ 64 \<Longrightarrow> b256_draw (rng_at s j) = b256_draw (rng_at s k) \<longleftrightarrow> j = k"
  by (simp add: b256_draw_inject rng_at_def gamma_mult_inject)

lemma below_at:
  "n \<noteq> 0 \<Longrightarrow> below n (rng_at s k) = Returns (mix (rng_at s (k + 1)) mod n, rng_at s (k + 1))"
  by (simp add: below_def next_u64_at)

section \<open>The state that is built\<close>

definition drawn :: "u64 \<Rightarrow> nat \<Rightarrow> b256 set" where
  "drawn sd k = {b256_draw (rng_at sd j) | j. j < k}"

text \<open>After \<open>k\<close> draws, \<open>n\<close> insertions of accounts and \<open>m\<close> of slots.\<close>

definition synth_inv :: "('hs, 'so) post_state_ops \<Rightarrow> u64 \<Rightarrow> nat \<Rightarrow> 'so memory_state \<Rightarrow> nat \<Rightarrow> nat \<Rightarrow> bool" where
  "synth_inv ops sd k s n m \<longleftrightarrow> memory_wf ops s \<and>
     (\<forall>a key. hs_slots (memory_abs s) (a, key) \<le> 0xFFFFFFFF \<and>
       (hs_slots (memory_abs s) (a, key) \<noteq> 0 \<longrightarrow> hs_accounts (memory_abs s) a \<noteq> None)) \<and>
     (k \<le> 2 ^ 64 \<longrightarrow> account_count s = n \<and> storage_count s = m \<and>
       dom (hs_accounts (memory_abs s)) \<subseteq> drawn sd k \<and>
       (\<forall>a key. hs_slots (memory_abs s) (a, key) \<noteq> 0 \<longrightarrow> key \<in> drawn sd k))"

lemma drawn_mono: "j \<le> k \<Longrightarrow> drawn sd j \<subseteq> drawn sd k"
  by (auto simp: drawn_def)

lemma draw_in_drawn: "j < k \<Longrightarrow> b256_draw (rng_at sd j) \<in> drawn sd k"
  by (auto simp: drawn_def)

lemma fresh_draw: "k < 2 ^ 64 \<Longrightarrow> b256_draw (rng_at sd k) \<notin> drawn sd k"
  by (auto simp: drawn_def draw_at_inject)

lemma synth_inv_start: "synth_inv ops sd 0 memory_default 0 0"
  by (simp add: synth_inv_def memory_wf_default)
    (simp add: memory_abs_def memory_default_def slots_or_default_def account_count_def storage_count_def)

lemma synth_inv_mono: "synth_inv ops sd j s n m \<Longrightarrow> j \<le> k \<Longrightarrow> synth_inv ops sd k s n m"
  using drawn_mono [of j k sd] by (force simp: synth_inv_def)

lemma synth_inv_account:
  assumes "synth_inv ops sd k s n m"
  shows "synth_inv ops sd (Suc k) (insert_account (b256_draw (rng_at sd k)) acc s) (Suc n) m"
proof -
  let ?a = "b256_draw (rng_at sd k)"
  have wf: "memory_wf ops (insert_account ?a acc s)"
    using memory_wf_step [of ops s "Insert_Account ?a acc"] assms by (simp add: synth_inv_def)
  have abs: "memory_abs (insert_account ?a acc s) = (memory_abs s)\<lparr>hs_accounts := (hs_accounts (memory_abs s))(?a \<mapsto> acc)\<rparr>"
    using memory_step_refines [of ops "Insert_Account ?a acc" s] by simp
  show ?thesis
  proof (cases "k < 2 ^ 64")
    case True
    then have inv: "account_count s = n" "storage_count s = m" "dom (hs_accounts (memory_abs s)) \<subseteq> drawn sd k"
        "\<forall>a key. hs_slots (memory_abs s) (a, key) \<noteq> 0 \<longrightarrow> key \<in> drawn sd k"
      using assms by (simp_all add: synth_inv_def)
    then have "bt_get (ms_accounts s) ?a = None"
      using fresh_draw [OF True, of sd] by (auto simp: memory_abs_def)
    then have "account_count (insert_account ?a acc s) = Suc n"
      using bt.length_entries_insert [of "ms_accounts s" ?a acc] assms inv(1)
      by (simp add: account_count_def insert_account_def synth_inv_def memory_wf_def)
    moreover have "storage_count (insert_account ?a acc s) = m"
      using inv(2) by (simp add: storage_count_def insert_account_def)
    ultimately show ?thesis
      using wf inv drawn_mono [of k "Suc k" sd] draw_in_drawn [of k "Suc k" sd] assms
      by (auto simp: synth_inv_def abs)
  next
    case False
    then show ?thesis using wf assms by (auto simp: synth_inv_def abs)
  qed
qed

lemma synth_inv_slot:
  assumes "synth_inv ops sd k s n m" and "v \<noteq> 0" and "v \<le> 0xFFFFFFFF"
    and "hs_accounts (memory_abs s) a \<noteq> None"
  shows "synth_inv ops sd (Suc k) (insert_storage a (b256_draw (rng_at sd k)) v s) n (Suc m)"
proof -
  let ?key = "b256_draw (rng_at sd k)"
  have wf0: "memory_wf ops s" using assms(1) by (simp add: synth_inv_def)
  have wf: "memory_wf ops (insert_storage a ?key v s)"
    using memory_wf_step [OF wf0, of "Insert_Storage a ?key v"] by simp
  have abs: "memory_abs (insert_storage a ?key v s) = (memory_abs s)\<lparr>hs_slots := (hs_slots (memory_abs s))((a, ?key) := v)\<rparr>"
    using memory_step_refines [of ops "Insert_Storage a ?key v" s] by simp
  show ?thesis
  proof (cases "k < 2 ^ 64")
    case True
    then have inv: "account_count s = n" "storage_count s = m" "dom (hs_accounts (memory_abs s)) \<subseteq> drawn sd k"
        "\<forall>a key. hs_slots (memory_abs s) (a, key) \<noteq> 0 \<longrightarrow> key \<in> drawn sd k"
      using assms(1) by (simp_all add: synth_inv_def)
    have fresh: "hs_slots (memory_abs s) (a, ?key) = 0" using inv(4) fresh_draw [OF True, of sd] by blast
    let ?N = "{ak. hs_slots (memory_abs s) ak \<noteq> 0}"
    have "?N = (\<lambda>(a, k, v). (a, k)) ` set (slot_entries s)"
      using slot_entries_iff [OF wf0] by (force simp: image_iff)
    then have "finite ?N" by simp
    moreover have "{ak. hs_slots (memory_abs (insert_storage a ?key v s)) ak \<noteq> 0} = insert (a, ?key) ?N"
      using assms(2) by (auto simp: abs)
    ultimately have "storage_count (insert_storage a ?key v s) = Suc m"
      using storage_count_card [OF wf] storage_count_card [OF wf0] inv(2) fresh by simp
    moreover have "account_count (insert_storage a ?key v s) = n"
      using inv(1) by (simp add: account_count_def insert_storage_def Let_def)
    ultimately show ?thesis
      using wf inv drawn_mono [of k "Suc k" sd] draw_in_drawn [of k "Suc k" sd] assms
      by (auto simp: synth_inv_def abs)
  next
    case False
    then show ?thesis using wf assms by (auto simp: synth_inv_def abs)
  qed
qed

lemma insert_eoas_step:
  "insert_eoas (Suc c) (rng_at sd k) s = insert_eoas c (rng_at sd (k + 6))
     (insert_account (b256_draw (rng_at sd k)) \<lparr>nonce = mix (rng_at sd (k + 5)) mod 50,
       balance = ucast (mix (rng_at sd (k + 6))), bytecode_hash = None\<rparr> s)"
  by (simp add: next_b256_at below_at next_u64_at add.assoc) (simp add: add.commute)

lemma insert_slots_step:
  "insert_slots (Suc c) a (rng_at sd k) s = insert_slots c a (rng_at sd (k + 5))
     (insert_storage a (b256_draw (rng_at sd (k + 1))) (ucast (1 + mix (rng_at sd (k + 1)) mod 0xFFFFFFFF)) s)"
  by (simp add: next_b256_at below_at next_u64_at add.assoc) (simp add: add.commute)

lemma insert_contracts_step:
  "insert_contracts (c # sizes) (rng_at sd k) s =
     obind (insert_slots (unat c) (b256_draw (rng_at sd k)) (rng_at sd (k + 9))
       (insert_account (b256_draw (rng_at sd k)) \<lparr>nonce = 1, balance = ucast (mix (rng_at sd (k + 5)) mod 1000000),
         bytecode_hash = Some (b256_draw (rng_at sd (k + 5)))\<rparr> s)) (\<lambda>(r, s). insert_contracts sizes r s)"
  by (simp add: next_b256_at below_at next_u64_at add.assoc) (simp add: add.commute)

lemma insert_eoas_runs:
  "synth_inv ops sd k s n m \<Longrightarrow>
   \<exists>s'. insert_eoas c (rng_at sd k) s = Returns (rng_at sd (k + 6 * c), s') \<and>
     synth_inv ops sd (k + 6 * c) s' (n + c) m"
proof (induction c arbitrary: k s n)
  case 0
  then show ?case by simp
next
  case (Suc c)
  let ?s = "insert_account (b256_draw (rng_at sd k)) \<lparr>nonce = mix (rng_at sd (k + 5)) mod 50,
    balance = ucast (mix (rng_at sd (k + 6))), bytecode_hash = None\<rparr> s"
  have "synth_inv ops sd (k + 6) ?s (Suc n) m"
    by (rule synth_inv_mono [OF synth_inv_account [OF Suc.prems]]) simp
  from Suc.IH [OF this] show ?case
    unfolding insert_eoas_step by (simp add: add.assoc)
qed

lemma word_mod_bounds:
  fixes x n :: u64
  assumes "n \<noteq> 0"
  shows "unat (1 + x mod n) = 1 + unat x mod unat n" and "1 + unat x mod unat n \<le> unat n"
proof -
  have less: "unat w < 2 ^ 64" for w :: u64
  proof -
    have "unat w < 2 ^ LENGTH(64)" by (rule unsigned_less)
    then show ?thesis by simp
  qed
  have "unat n \<noteq> 0" using assms by (simp add: unat_eq_zero)
  then have *: "unat x mod unat n < unat n" by simp
  then show "1 + unat x mod unat n \<le> unat n" by simp
  have "1 + unat x mod unat n < 2 ^ 64" using * less [of n] by simp
  then show "unat (1 + x mod n) = 1 + unat x mod unat n"
    by (simp add: unat_word_ariths unat_mod)
qed

lemma small_sizes_runs:
  assumes "mx \<noteq> 0 \<or> c = 0"
  shows "\<exists>ns. small_sizes mx c (rng_at sd k) = Returns (ns, rng_at sd (k + c)) \<and> length ns = c \<and>
    (\<forall>x \<in> set ns. 1 \<le> x \<and> x \<le> mx)"
  using assms
proof (induction c arbitrary: k)
  case 0
  then show ?case by simp
next
  case (Suc c)
  then have mx: "mx \<noteq> 0" by simp
  define x where "x = mix (rng_at sd (k + 1)) mod mx"
  have "1 \<le> 1 + x" and "1 + x \<le> mx"
    unfolding x_def word_le_nat_alt word_mod_bounds(1) [OF mx] using word_mod_bounds(2) [OF mx] by simp_all
  then show ?case
    using Suc.IH [of "k + 1"] mx by (auto simp: below_at x_def)
qed

lemma slot_value:
  fixes x :: u64
  shows "ucast (1 + x mod 0xFFFFFFFF) \<noteq> (0 :: u256)" and "ucast (1 + x mod 0xFFFFFFFF) \<le> (0xFFFFFFFF :: u256)"
proof -
  have b: "unat (1 + x mod 0xFFFFFFFF) = 1 + unat x mod 0xFFFFFFFF" "1 + unat x mod 0xFFFFFFFF \<le> 0xFFFFFFFF"
    using word_mod_bounds [where n = "0xFFFFFFFF" and x = x] by simp_all
  have "unat (ucast (1 + x mod 0xFFFFFFFF) :: u256) = unat (1 + x mod 0xFFFFFFFF)"
    using b by (simp add: unsigned_ucast_eq take_bit_nat_eq_self_iff)
  then have v: "unat (ucast (1 + x mod 0xFFFFFFFF) :: u256) = 1 + unat x mod 0xFFFFFFFF"
    unfolding b(1) .
  show "ucast (1 + x mod 0xFFFFFFFF) \<noteq> (0 :: u256)"
  proof
    assume "ucast (1 + x mod 0xFFFFFFFF) = (0 :: u256)"
    then show False using v by simp
  qed
  show "ucast (1 + x mod 0xFFFFFFFF) \<le> (0xFFFFFFFF :: u256)"
    unfolding word_le_nat_alt v using b(2) by simp
qed

lemma account_kept: "hs_accounts (memory_abs (insert_storage b key v s)) = hs_accounts (memory_abs s)"
  by (simp add: memory_abs_def insert_storage_def Let_def)

lemma account_inserted: "hs_accounts (memory_abs (insert_account a acc s)) a = Some acc"
  by (simp add: memory_abs_def insert_account_def)

lemma insert_slots_runs:
  "synth_inv ops sd k s n m \<Longrightarrow> hs_accounts (memory_abs s) a \<noteq> None \<Longrightarrow>
   \<exists>s'. insert_slots c a (rng_at sd k) s = Returns (rng_at sd (k + 5 * c), s') \<and>
     synth_inv ops sd (k + 5 * c) s' n (m + c)"
proof (induction c arbitrary: k s m)
  case 0
  then show ?case by simp
next
  case (Suc c)
  let ?v = "ucast (1 + mix (rng_at sd (k + 1)) mod 0xFFFFFFFF) :: u256"
  let ?s = "insert_storage a (b256_draw (rng_at sd (k + 1))) ?v s"
  have "synth_inv ops sd (k + 1) s n m" by (rule synth_inv_mono [OF Suc.prems(1)]) simp
  then have "synth_inv ops sd (Suc (k + 1)) ?s n (Suc m)"
    by (rule synth_inv_slot [OF _ slot_value]) (rule Suc.prems(2))
  then have "synth_inv ops sd (k + 5) ?s n (Suc m)" by (rule synth_inv_mono) simp
  from Suc.IH [OF this] Suc.prems(2) show ?case
    unfolding insert_slots_step account_kept by (simp add: add.assoc)
qed

lemma insert_contracts_runs:
  "synth_inv ops sd k s n m \<Longrightarrow>
   \<exists>s'. insert_contracts sizes (rng_at sd k) s =
       Returns (rng_at sd (k + 9 * length sizes + 5 * sum_list (map unat sizes)), s') \<and>
     synth_inv ops sd (k + 9 * length sizes + 5 * sum_list (map unat sizes)) s'
       (n + length sizes) (m + sum_list (map unat sizes))"
proof (induction sizes arbitrary: k s n m)
  case Nil
  then show ?case by simp
next
  case (Cons c sizes)
  let ?a = "b256_draw (rng_at sd k)"
  let ?s = "insert_account ?a \<lparr>nonce = 1, balance = ucast (mix (rng_at sd (k + 5)) mod 1000000),
    bytecode_hash = Some (b256_draw (rng_at sd (k + 5)))\<rparr> s"
  have "synth_inv ops sd (k + 9) ?s (Suc n) m"
    by (rule synth_inv_mono [OF synth_inv_account [OF Cons.prems]]) simp
  from insert_slots_runs [OF this, of ?a "unat c"] account_inserted [of ?a _ s] obtain s1 where
    s1: "insert_slots (unat c) ?a (rng_at sd (k + 9)) ?s = Returns (rng_at sd (k + 9 + 5 * unat c), s1)"
      "synth_inv ops sd (k + 9 + 5 * unat c) s1 (Suc n) (m + unat c)" by auto
  have idx: "k + 9 + 5 * unat c + 9 * length sizes + 5 * sum_list (map unat sizes) =
      k + 9 * length (c # sizes) + 5 * sum_list (map unat (c # sizes))" by simp
  show ?case
    using Cons.IH [OF s1(2)] unfolding insert_contracts_step s1(1) idx by (simp add: add.assoc)
qed

section \<open>The example that writes a datadir\<close>

text \<open>
  \<^verbatim>\<open>examples/make_datadir.rs\<close>: \<open>init_db\<close> is reth's function that creates the database in the
  directory \<^verbatim>\<open>db\<close> below the given path.
\<close>

definition make_datadir_config :: "u64 \<Rightarrow> u64 \<Rightarrow> synth_config" where
  "make_datadir_config n k = \<lparr>seed = 11, eoas = n, small_contracts = k, small_slots_max = 16,
     large_contracts = [20000]\<rparr>"

definition parse_or :: "string option \<Rightarrow> u64 \<Rightarrow> u64 outcome" where
  "parse_or arg dflt = (case arg of None \<Rightarrow> Returns dflt
     | Some a \<Rightarrow> (case parse_usize a of None \<Rightarrow> Panics ''usize'' | Some n \<Rightarrow> Returns n))"

definition nth_arg :: "string list \<Rightarrow> nat \<Rightarrow> string option" where
  "nth_arg args i = (if i < length args then Some (args ! i) else None)"

definition make_datadir :: "('d, 't, 'k) trie_db \<Rightarrow> (string \<Rightarrow> 'e + 'd) \<Rightarrow>
    string list \<Rightarrow> ('d \<times> nat \<times> nat) outcome" where
  "make_datadir db init_db args = (case nth_arg args 0 of
     None \<Rightarrow> Panics ''datadir path''
   | Some dir \<Rightarrow>
       obind (parse_or (nth_arg args 1) 50000) (\<lambda>n.
       obind (parse_or (nth_arg args 2) 2000) (\<lambda>k.
       obind (synthesize (make_datadir_config n k)) (\<lambda>state :: unit memory_state.
       case init_db dir of
         Err e \<Rightarrow> Panics ''init db''
       | Ok d \<Rightarrow> (case write_hashed_state db state d of
           (d', Err e) \<Rightarrow> Panics ''write hashed state''
         | (d', Ok _) \<Rightarrow> Returns (d', account_count state, storage_count state))))))"

section \<open>Properties\<close>

fun draws :: "nat \<Rightarrow> rng \<Rightarrow> u64 list" where
  "draws 0 r = []"
| "draws (Suc n) r = (let (x, r') = next_u64 r in x # draws n r')"

lemma draws_at: "draws n (rng_at sd k) = map (\<lambda>i. mix (rng_at sd (k + 1 + i))) [0..<n]"
proof (induction n arbitrary: k)
  case 0
  then show ?case by simp
next
  case (Suc n)
  have "draws (Suc n) (rng_at sd k) = mix (rng_at sd (k + 1)) # draws n (rng_at sd (k + 1))"
    by (simp add: next_u64_at)
  also have "\<dots> = map (\<lambda>i. mix (rng_at sd (k + 1 + i))) (0 # map Suc [0..<n])"
    unfolding Suc.IH by simp
  also have "0 # map Suc [0..<n] = [0..<Suc n]" by (simp add: map_Suc_upt upt_conv_Cons)
  finally show ?case .
qed

text \<open>
  The generator has the full period: no output occurs twice among the first 2^64 outputs,
  whatever the seed.
\<close>

theorem rng_does_not_repeat:
  assumes "n \<le> 2 ^ 64"
  shows "distinct (draws n r)"
proof -
  have shift: "mix (rng_at r (1 + i)) = mix (rng_at r (1 + j)) \<longleftrightarrow> i = j" if "i < n" "j < n" for i j
    using that assms gamma_mult_inject [of i j]
    by (simp add: mix_inject rng_at_def distrib_right add.assoc [symmetric])
  then have "inj_on (\<lambda>i. mix (rng_at r (0 + 1 + i))) {0..<n}"
    by (intro inj_onI) simp
  then show ?thesis using draws_at [of n r 0] by (simp add: distinct_map)
qed

theorem rng_does_not_repeat_witness: "draws 3 1 ! 0 \<noteq> draws 3 1 ! 2"
  using rng_does_not_repeat [of 3 1] nth_eq_iff_index_eq [of "draws 3 1" 0 2]
    draws_at [of 3 1 0] by simp

text \<open>
  \<open>below\<close> returns a number below its bound and draws once; a bound of zero panics.
\<close>

theorem below_in_range:
  "case below n r of
     Returns (x, r') \<Rightarrow> n \<noteq> 0 \<and> x < n \<and> x = fst (next_u64 r) mod n \<and> r' = snd (next_u64 r)
   | Panics msg \<Rightarrow> n = 0"
proof (cases "n = 0")
  case False
  have "unat n \<noteq> 0" using False by (simp add: unat_eq_zero)
  then have "fst (next_u64 r) mod n < n" by (simp add: word_less_nat_alt unat_mod)
  then show ?thesis using False by (simp add: below_def split_def Let_def)
qed (simp add: below_def)

lemma synthesize_runs:
  assumes "small_slots_max config \<noteq> 0 \<or> small_contracts config = 0"
    and "t = (\<lambda>sizes. sum_list (map unat (sizes @ large_contracts config)))"
  shows "\<exists>s sizes. synthesize config = Returns s \<and> length sizes = unat (small_contracts config) \<and>
    (\<forall>x \<in> set sizes. 1 \<le> x \<and> x \<le> small_slots_max config) \<and>
    synth_inv ops (seed config) (6 * unat (eoas config) + unat (small_contracts config) +
        9 * (unat (small_contracts config) + length (large_contracts config)) + 5 * t sizes) s
      (unat (eoas config) + unat (small_contracts config) + length (large_contracts config)) (t sizes)"
proof -
  let ?sd = "seed config"
  obtain s1 where s1: "insert_eoas (unat (eoas config)) ?sd memory_default = Returns (rng_at ?sd (6 * unat (eoas config)), s1)"
      "synth_inv ops ?sd (6 * unat (eoas config)) s1 (unat (eoas config)) 0"
    using insert_eoas_runs [OF synth_inv_start [of ops ?sd], of "unat (eoas config)"] by auto
  have "small_slots_max config \<noteq> 0 \<or> unat (small_contracts config) = 0"
    using assms(1) by auto
  from small_sizes_runs [OF this, of ?sd "6 * unat (eoas config)"] obtain sizes where
    sizes: "small_sizes (small_slots_max config) (unat (small_contracts config)) (rng_at ?sd (6 * unat (eoas config))) =
        Returns (sizes, rng_at ?sd (6 * unat (eoas config) + unat (small_contracts config)))"
      "length sizes = unat (small_contracts config)" "\<forall>x \<in> set sizes. 1 \<le> x \<and> x \<le> small_slots_max config"
    by blast
  have "synth_inv ops ?sd (6 * unat (eoas config) + unat (small_contracts config)) s1 (unat (eoas config)) 0"
    by (rule synth_inv_mono [OF s1(2)]) simp
  from insert_contracts_runs [OF this, of "sizes @ large_contracts config"] obtain s2 r2 where
    s2: "insert_contracts (sizes @ large_contracts config)
        (rng_at ?sd (6 * unat (eoas config) + unat (small_contracts config))) s1 = Returns (r2, s2)"
      "synth_inv ops ?sd (6 * unat (eoas config) + unat (small_contracts config) +
        9 * length (sizes @ large_contracts config) + 5 * t sizes) s2
        (unat (eoas config) + length (sizes @ large_contracts config)) (0 + t sizes)"
    unfolding assms(2) by blast
  have "synthesize config = Returns s2"
    unfolding synthesize_def s1(1) obind_simps prod.case sizes(1) s2(1) ..
  then show ?thesis using s2(2) sizes(2,3) by (intro exI [of _ s2] exI [of _ sizes]) (simp add: add.assoc)
qed



text \<open>
  A configuration that asks for small contracts with at most zero slots panics, whatever the
  rest of it says.
\<close>

theorem synthesize_zero_slots_panics:
  assumes "small_slots_max config = 0" and "small_contracts config \<noteq> 0"
  shows "\<exists>msg. (synthesize config :: 'so memory_state outcome) = Panics msg"
proof -
  obtain c where c: "unat (small_contracts config) = Suc c"
    using assms(2) by (metis not0_implies_Suc unat_eq_zero)
  have "\<exists>s. insert_eoas (unat (eoas config)) (rng_at (seed config) 0) (memory_default :: 'so memory_state) =
      Returns (rng_at (seed config) (0 + 6 * unat (eoas config)), s)"
    using insert_eoas_runs [OF synth_inv_start, of "unat (eoas config)"] by blast
  then show ?thesis
    unfolding synthesize_def c using assms(1) by (auto simp: below_def)
qed

theorem synthesize_zero_slots_panics_witness:
  "\<exists>msg. (synthesize (synth_config_default\<lparr>small_slots_max := 0\<rparr>) :: unit memory_state outcome) = Panics msg"
  by (rule synthesize_zero_slots_panics) (simp_all add: synth_config_default_def)

text \<open>
  C37: The example that writes a datadir leaves nothing out. When it returns, the database that
  \<open>init_db\<close> created has, in addition to what it held, exactly the accounts and all the slots of a
  state synthesized from the sizes on the command line, or the defaults, the trie tables are untouched, and the two numbers it prints are the numbers
  of these accounts and slots.
\<close>

theorem make_datadir_writes_all:
  assumes store: "full_store db rows position committed others committed_others"
    and run: "make_datadir db init_db args = Returns (d', n, m)"
  shows "\<exists>d x y. \<exists>s :: unit memory_state. init_db (args ! 0) = Ok d \<and>
    parse_or (nth_arg args 1) 50000 = Returns x \<and> parse_or (nth_arg args 2) 2000 = Returns y \<and> synthesize (make_datadir_config x y) = Returns s \<and>
    n = card (dom (hs_accounts (memory_abs s))) \<and> m = card {ak. hs_slots (memory_abs s) ak \<noteq> 0} \<and>
    committed d' = committed d \<and> committed_others d' = (committed_others d)\<lparr>
      hashed_accounts := hashed_accounts (committed_others d) ++ hs_accounts (memory_abs s),
      hashed_slots := hashed_slots (committed_others d) \<union>
        {(a, k, v). v \<noteq> 0 \<and> hs_slots (memory_abs s) (a, k) = v}\<rparr>"
proof -
  let ?stored = "\<lambda>s :: unit memory_state. case init_db (args ! 0) of Err e \<Rightarrow> Panics ''init db''
    | Ok d \<Rightarrow> (case write_hashed_state db s d of (d', Err e) \<Rightarrow> Panics ''write hashed state''
      | (d', Ok _) \<Rightarrow> Returns (d', account_count s, storage_count s))"
  have "nth_arg args 0 \<noteq> None" using run by (cases "nth_arg args 0") (simp_all add: make_datadir_def)
  then have "nth_arg args 0 = Some (args ! 0)" by (auto simp: nth_arg_def split: if_splits)
  then obtain x y s where xy: "parse_or (nth_arg args 1) 50000 = Returns x" "parse_or (nth_arg args 2) 2000 = Returns y"
      and syn: "synthesize (make_datadir_config x y) = Returns s"
      and written: "?stored s = Returns (d', n, m)"
    using run unfolding make_datadir_def by (simp add: obind_eq_Returns) blast
  obtain d where d: "init_db (args ! 0) = Ok d" using written by (cases "init_db (args ! 0)") auto
  obtain d1 r where r: "write_hashed_state db s d = (d1, r)" by fastforce
  then have parts: "init_db (args ! 0) = Ok d" "write_hashed_state db s d = (d', Ok ())"
      and syn: "synthesize (make_datadir_config x y) = Returns s" "n = account_count s" "m = storage_count s"
    using d written syn by (cases r; auto)+
  define ops :: "(unit, unit) post_state_ops" where "ops = \<lparr>storage_from_iter = (\<lambda>_. ()), post_into_sorted = (\<lambda>_. ())\<rparr>"
  have sixteen: "small_slots_max (make_datadir_config x y) \<noteq> 0" by (simp add: make_datadir_config_def)
  obtain s' :: "unit memory_state" where "synthesize (make_datadir_config x y) = Returns s'" and inv: "memory_wf ops s'"
      "\<forall>a key. hs_slots (memory_abs s') (a, key) \<noteq> 0 \<longrightarrow> hs_accounts (memory_abs s') a \<noteq> None"
    using synthesize_runs [of "make_datadir_config x y" _ ops, OF _ refl] sixteen unfolding synth_inv_def by blast
  then have wf: "memory_wf ops s" and all: "\<And>a k. hs_slots (memory_abs s) (a, k) \<noteq> 0 \<Longrightarrow> hs_accounts (memory_abs s) a \<noteq> None"
    using syn(1) by auto
  have "{(a, k, v). hs_accounts (memory_abs s) a \<noteq> None \<and> v \<noteq> 0 \<and> hs_slots (memory_abs s) (a, k) = v} =
      {(a, k, v). v \<noteq> 0 \<and> hs_slots (memory_abs s) (a, k) = v}"
    using all by auto
  then show ?thesis
    using full_store.write_hashed_state_result [OF store wf parts(2)] parts(1) syn xy
      account_count_card [OF wf] storage_count_card [OF wf]
    by (intro exI [of _ d] exI [of _ x] exI [of _ y] exI [of _ s]) simp
qed

theorem make_datadir_writes_all_witness:
  "\<exists>d' n m s. make_datadir ref_db (\<lambda>dir. Ok (ref_empty False) :: unit + ref_tables) [''dir'', ''3'', ''3''] =
      Returns (d', n, m) \<and> synthesize (make_datadir_config 3 3) = Returns (s :: unit memory_state) \<and>
    n = card (dom (hashed_accounts (ref_others d')))"
proof -
  obtain s :: "unit memory_state" where s: "synthesize (make_datadir_config 3 3) = Returns s"
    using synthesize_runs [of "make_datadir_config 3 3", OF _ refl] by (auto simp: make_datadir_config_def)
  obtain d' where d': "write_hashed_state ref_db s (ref_empty False) = (d', Ok ())"
    using ref_store.write_hashed_state_succeeds by blast
  have three: "parse_usize ''3'' = Some 3"
    by (simp add: parse_usize_def parse_digits_def is_digit_def digits_value_def)
  have run: "make_datadir ref_db (\<lambda>dir. Ok (ref_empty False) :: unit + ref_tables) [''dir'', ''3'', ''3''] =
      Returns (d', account_count s, storage_count s)"
    by (simp add: make_datadir_def nth_arg_def parse_or_def three s d')
  obtain s' :: "unit memory_state" where "account_count s = card (dom (hs_accounts (memory_abs s')))"
      "hashed_accounts (ref_others d') = hs_accounts (memory_abs s')"
    using make_datadir_writes_all [OF ref_store.full_store_axioms run] by (auto simp: ref_empty_def)
  then show ?thesis using run s by auto
qed

end
