(* ===== verification/Rust_F64.thy ===== *)
theory Rust_F64
  imports Complex_Main
begin

text \<open>
  The \<^verbatim>\<open>f64\<close> of Rust as far as the program uses it: binary64 without negative numbers. Conversion from
  integers, sums, products and quotients round the exact result to 53 bits, ties to even; a finite
  float is a mantissa and an exponent. What a finite float stands for is \<open>f64_value\<close>.
\<close>

section \<open>Rounding\<close>

datatype f64 = Finite nat int | Infinite | Not_A_Number

text \<open>The natural number closest to \<open>n / d\<close>, ties to even.\<close>

definition round_even :: "nat \<Rightarrow> nat \<Rightarrow> nat" where
  "round_even n d = (let q = n div d; r = n mod d in if 2 * r < d \<or> 2 * r = d \<and> even q then q else q + 1)"

fun bits :: "nat \<Rightarrow> nat" where
  "bits n = (if n = 0 then 0 else Suc (bits (n div 2)))"

declare bits.simps [simp del]

text \<open>The exponent \<open>e\<close> for which \<open>n / d\<close> has 53 bits before the point in units of \<open>2 ^ e\<close>.\<close>

definition quotient_exponent :: "nat \<Rightarrow> nat \<Rightarrow> int" where
  "quotient_exponent n d = (let e = int (bits n) - int (bits d) - 53
     in if n * 2 ^ nat (- e) < 2 ^ 53 * (d * 2 ^ nat e) then e else e + 1)"

definition round_f64 :: "nat \<Rightarrow> nat \<Rightarrow> f64" where
  "round_f64 n d = (if n = 0 then Finite 0 0 else
     let e = max (quotient_exponent n d) (- 1074); m = round_even (n * 2 ^ nat (- e)) (d * 2 ^ nat e)
     in if m * 2 ^ nat e < 2 ^ 1024 then Finite m e else Infinite)"

section \<open>Operations\<close>

fun f64_num :: "nat \<Rightarrow> int \<Rightarrow> nat" where "f64_num m e = m * 2 ^ nat e"
fun f64_den :: "int \<Rightarrow> nat" where "f64_den e = 2 ^ nat (- e)"

definition f64_of_nat :: "nat \<Rightarrow> f64" where "f64_of_nat n = round_f64 n 1"

fun f64_add :: "f64 \<Rightarrow> f64 \<Rightarrow> f64" where
  "f64_add (Finite m e) (Finite n f) =
     round_f64 (f64_num m e * f64_den f + f64_num n f * f64_den e) (f64_den e * f64_den f)"
| "f64_add Not_A_Number y = Not_A_Number"
| "f64_add x Not_A_Number = Not_A_Number"
| "f64_add x y = Infinite"

fun f64_mul :: "f64 \<Rightarrow> f64 \<Rightarrow> f64" where
  "f64_mul (Finite m e) (Finite n f) = round_f64 (f64_num m e * f64_num n f) (f64_den e * f64_den f)"
| "f64_mul Not_A_Number y = Not_A_Number"
| "f64_mul x Not_A_Number = Not_A_Number"
| "f64_mul (Finite m e) Infinite = (if m = 0 then Not_A_Number else Infinite)"
| "f64_mul Infinite (Finite m e) = (if m = 0 then Not_A_Number else Infinite)"
| "f64_mul Infinite Infinite = Infinite"

fun f64_div :: "f64 \<Rightarrow> f64 \<Rightarrow> f64" where
  "f64_div (Finite m e) (Finite n f) = (if n = 0 then (if m = 0 then Not_A_Number else Infinite)
     else round_f64 (f64_num m e * f64_den f) (f64_den e * f64_num n f))"
| "f64_div Not_A_Number y = Not_A_Number"
| "f64_div x Not_A_Number = Not_A_Number"
| "f64_div (Finite m e) Infinite = Finite 0 0"
| "f64_div Infinite (Finite m e) = Infinite"
| "f64_div Infinite Infinite = Not_A_Number"

text \<open>Comparison with a number, and the nearest multiple of \<open>1 / k\<close>, as \<^verbatim>\<open>{:.2}\<close> prints it for \<open>k = 100\<close>.\<close>

fun f64_ge :: "f64 \<Rightarrow> nat \<Rightarrow> bool" where
  "f64_ge (Finite m e) k = (k * f64_den e \<le> f64_num m e)"
| "f64_ge Infinite k = True"
| "f64_ge Not_A_Number k = False"

fun f64_parts :: "nat \<Rightarrow> f64 \<Rightarrow> nat option" where
  "f64_parts k (Finite m e) = Some (round_even (k * f64_num m e) (f64_den e))"
| "f64_parts k x = None"

fun f64_value :: "f64 \<Rightarrow> real" where
  "f64_value (Finite m e) = real m * 2 powi e"
| "f64_value x = 0"

fun is_finite :: "f64 \<Rightarrow> bool" where
  "is_finite (Finite m e) = True"
| "is_finite x = False"

section \<open>Rounding is close\<close>

lemma round_even_mult [simp]: "0 < d \<Longrightarrow> round_even (k * d) d = k"
  by (simp add: round_even_def)

lemma round_even_zero [simp]: "round_even 0 d = 0"
  by (auto simp: round_even_def)

lemma round_even_close:
  assumes "0 < d"
  shows "\<bar>real (round_even n d) - real n / real d\<bar> \<le> 1 / 2"
proof -
  let ?q = "n div d" and ?r = "n mod d"
  have n: "real n = real ?q * real d + real ?r"
    by (metis div_mult_mod_eq of_nat_add of_nat_mult)
  have x: "real n / real d = real ?q + real ?r / real d"
    using assms unfolding n by (simp add: field_simps)
  have r: "real ?r < real d" using assms by simp
  show ?thesis
  proof (cases "2 * ?r < d \<or> 2 * ?r = d \<and> even ?q")
    case True
    then have "real ?r / real d \<le> 1 / 2" using assms by (auto simp: field_simps)
    then show ?thesis using True unfolding x by (simp add: round_even_def Let_def)
  next
    case False
    then have "real d \<le> 2 * real ?r" by linarith
    then have "1 / 2 \<le> real ?r / real d" "real ?r / real d \<le> 1" using assms r by (simp_all add: field_simps)
    then show ?thesis using False unfolding x by (auto simp: round_even_def Let_def abs_le_iff)
  qed
qed

text \<open>A number that is closer to \<open>k\<close> than a half is rounded to \<open>k\<close>.\<close>

lemma round_even_unique:
  assumes "0 < d" and "\<bar>real n / real d - real k\<bar> < 1 / 2"
  shows "round_even n d = k"
  using round_even_close [OF assms(1), of n] assms(2) by linarith

lemma round_even_double: "round_even n d * d \<le> 2 * n"
proof (cases "d = 0")
  case False
  let ?q = "n div d" and ?r = "n mod d"
  have n: "n = ?q * d + ?r" by simp
  have "(?q + 1) * d = ?q * d + d" by simp
  then have "(?q + 1) * d \<le> 2 * n" if "d \<le> 2 * ?r" using n that by linarith
  moreover have "?q * d \<le> 2 * n" using n by linarith
  ultimately show ?thesis by (auto simp: round_even_def Let_def)
qed simp

lemma bits_bounds: "0 < n \<Longrightarrow> 2 ^ (bits n - 1) \<le> n \<and> n < 2 ^ bits n \<and> 0 < bits n"
proof (induction n rule: bits.induct)
  case (1 n)
  show ?case
  proof (cases "n div 2 = 0")
    case True
    then have "n = 1" using 1(2) by simp
    then show ?thesis by (simp add: bits.simps)
  next
    case False
    then have IH: "2 ^ (bits (n div 2) - 1) \<le> n div 2" "n div 2 < 2 ^ bits (n div 2)" "0 < bits (n div 2)"
      using 1 by simp_all
    have b: "bits n = Suc (bits (n div 2))" using 1(2) by (simp add: bits.simps)
    have "2 ^ bits (n div 2) = (2 :: nat) * 2 ^ (bits (n div 2) - 1)"
      using IH(3) by (simp add: power_eq_if)
    moreover have "2 * (n div 2) \<le> n" "n < 2 * (n div 2) + 2" by linarith+
    ultimately show ?thesis using IH b by simp linarith
  qed
qed

lemma two_powi: "(2 :: real) powi e = 2 ^ nat e / 2 ^ nat (- e)"
  by (cases "0 \<le> e") (simp_all add: power_int_def divide_simps)

lemma scaled_quotient: "real (n * 2 ^ nat (- e)) / real (d * 2 ^ nat e) = real n / real d / 2 powi e"
  by (simp add: two_powi)

lemma two_powi_pos [simp]: "0 < (2 :: real) powi e"
  by simp

lemma quotient_exponent_bounds:
  assumes "0 < n" and "0 < d"
  shows "2 ^ 52 * 2 powi quotient_exponent n d \<le> real n / real d \<and>
    real n / real d < 2 ^ 53 * 2 powi quotient_exponent n d"
proof -
  define x where "x = real n / real d"
  let ?e = "int (bits n) - int (bits d) - 53"
  note bn = bits_bounds [OF assms(1)] and bd = bits_bounds [OF assms(2)]
  have n: "2 powi (int (bits n) - 1) \<le> real n" "real n < 2 powi int (bits n)"
  proof -
    have "(2 :: real) powi (int (bits n) - 1) = real (2 ^ (bits n - 1))"
      using bn by (simp add: power_int_def nat_diff_distrib)
    then show "2 powi (int (bits n) - 1) \<le> real n" using bn by (simp only: of_nat_le_iff)
    have "real n < real (2 ^ bits n)" using bn by (simp only: of_nat_less_iff)
    then show "real n < 2 powi int (bits n)" by simp
  qed
  have d: "2 powi (int (bits d) - 1) \<le> real d" "real d < 2 powi int (bits d)"
  proof -
    have "(2 :: real) powi (int (bits d) - 1) = real (2 ^ (bits d - 1))"
      using bd by (simp add: power_int_def nat_diff_distrib)
    then show "2 powi (int (bits d) - 1) \<le> real d" using bd by (simp only: of_nat_le_iff)
    have "real d < real (2 ^ bits d)" using bd by (simp only: of_nat_less_iff)
    then show "real d < 2 powi int (bits d)" by simp
  qed
  have lo: "2 ^ 52 * 2 powi ?e < x"
  proof -
    have "(2 :: real) ^ 52 * 2 powi ?e = 2 powi (int (bits n) - 1) / 2 powi int (bits d)"
      by (simp add: power_int_diff power_int_add)
    also have "\<dots> \<le> real n / 2 powi int (bits d)" by (rule divide_right_mono) (use n in simp_all)
    also have "\<dots> < x" unfolding x_def using d assms by (intro divide_strict_left_mono) simp_all
    finally show ?thesis .
  qed
  have hi: "x < 2 ^ 53 * 2 powi (?e + 1)"
  proof -
    have "x \<le> real n / 2 powi (int (bits d) - 1)" unfolding x_def using d assms by (intro divide_left_mono) simp_all
    also have "\<dots> < 2 powi int (bits n) / 2 powi (int (bits d) - 1)"
      by (rule divide_strict_right_mono) (use n in simp_all)
    also have "\<dots> = 2 ^ 53 * 2 powi (?e + 1)" by (simp add: power_int_diff power_int_add)
    finally show ?thesis .
  qed
  have "n * 2 ^ nat (- ?e) < 2 ^ 53 * (d * 2 ^ nat ?e) \<longleftrightarrow> x < 2 ^ 53 * 2 powi ?e"
  proof -
    have "0 < real (d * 2 ^ nat ?e)" using assms by simp
    then have "n * 2 ^ nat (- ?e) < 2 ^ 53 * (d * 2 ^ nat ?e) \<longleftrightarrow>
        real (n * 2 ^ nat (- ?e)) / real (d * 2 ^ nat ?e) < 2 ^ 53"
      by (subst pos_divide_less_eq, assumption, subst of_nat_less_iff [symmetric, where 'a = real]) simp
    also have "\<dots> \<longleftrightarrow> x < 2 ^ 53 * 2 powi ?e"
      unfolding scaled_quotient x_def [symmetric] by (rule pos_divide_less_eq) simp
    finally show ?thesis .
  qed
  note less = this
  have "(2 :: real) powi (?e + 1) = 2 * 2 powi ?e" by (subst power_int_add) simp_all
  then have up: "2 ^ 52 * 2 powi (?e + 1) = 2 ^ 53 * (2 :: real) powi ?e" by simp
  show ?thesis
  proof (cases "n * 2 ^ nat (- ?e) < 2 ^ 53 * (d * 2 ^ nat ?e)")
    case True
    then have "quotient_exponent n d = ?e" by (simp add: quotient_exponent_def Let_def)
    then show ?thesis using True less lo unfolding x_def by simp
  next
    case False
    then have "quotient_exponent n d = ?e + 1" by (simp add: quotient_exponent_def Let_def)
    then show ?thesis using False less hi up unfolding x_def by simp
  qed
qed

lemma round_f64_0 [simp]: "round_f64 0 d = Finite 0 0"
  and f64_of_nat_0 [simp]: "f64_of_nat 0 = Finite 0 0"
  by (simp_all add: round_f64_def f64_of_nat_def)

text \<open>A quotient that is not huge gives a finite float.\<close>

lemma round_f64_finite:
  assumes "0 < n" and "0 < d" and "real n / real d \<le> 2 ^ 1000"
  obtains m e where "round_f64 n d = Finite m e" and "e = max (quotient_exponent n d) (- 1074)"
    and "m = round_even (n * 2 ^ nat (- e)) (d * 2 ^ nat e)" and "real m * 2 powi e \<le> 2 * (real n / real d)"
proof -
  define e where "e = max (quotient_exponent n d) (- 1074)"
  define m where "m = round_even (n * 2 ^ nat (- e)) (d * 2 ^ nat e)"
  let ?x = "real n / real d"
  have "real (m * (d * 2 ^ nat e)) \<le> real (2 * (n * 2 ^ nat (- e)))"
    unfolding m_def of_nat_le_iff by (rule round_even_double)
  then have "real m \<le> 2 * (real (n * 2 ^ nat (- e)) / real (d * 2 ^ nat e))"
    using assms(2) by (simp add: field_simps)
  then have m: "real m \<le> 2 * (?x / 2 powi e)" unfolding scaled_quotient .
  then have "real m * 2 powi e \<le> 2 * (?x / 2 powi e) * 2 powi e" by (rule mult_right_mono) simp
  then have le: "real m * 2 powi e \<le> 2 * ?x" by simp
  have "m * 2 ^ nat e < 2 ^ 1024"
  proof (cases "0 \<le> e")
    case True
    then have "real (m * 2 ^ nat e) \<le> 2 * ?x" using le by (simp add: power_int_def)
    also have "\<dots> \<le> 2 ^ 1001" using assms(3) by simp
    also have "\<dots> < 2 ^ 1024" by (rule power_strict_increasing) simp_all
    finally show ?thesis by (metis of_nat_less_iff of_nat_numeral of_nat_power)
  next
    case False
    have "2 powi quotient_exponent n d \<le> (2 :: real) powi e"
      unfolding e_def by (rule power_int_increasing) simp_all
    then have "?x / 2 powi e \<le> ?x / 2 powi quotient_exponent n d" by (intro divide_left_mono) simp_all
    also have "\<dots> < 2 ^ 53"
      by (subst pos_divide_less_eq) (simp_all only: two_powi_pos quotient_exponent_bounds [OF assms(1,2)])
    finally have "real m < 2 ^ 54" using m by simp
    also have "\<dots> < 2 ^ 1024" by (rule power_strict_increasing) simp_all
    finally have "m < 2 ^ 1024" by (metis of_nat_less_iff of_nat_numeral of_nat_power)
    then show ?thesis using False by simp
  qed
  then have "round_f64 n d = Finite m e"
    using assms(1) by (simp add: round_f64_def Let_def e_def m_def)
  then show ?thesis using that e_def m_def le by blast
qed

text \<open>In the range of normal numbers the relative error is at most \<open>2 ^ -53\<close>.\<close>

definition normal :: "real \<Rightarrow> bool" where
  "normal r \<longleftrightarrow> r = 0 \<or> 2 powi (- 1022) \<le> r \<and> r \<le> 2 ^ 1000"

definition approximates :: "f64 \<Rightarrow> real \<Rightarrow> bool" where
  "approximates x r \<longleftrightarrow> is_finite x \<and> \<bar>f64_value x - r\<bar> \<le> r / 2 ^ 53"

lemma approximates_bounds:
  assumes "approximates x r"
  shows "is_finite x" and "\<bar>f64_value x - r\<bar> \<le> r / 2 ^ 53" and "r / 2 \<le> f64_value x" and "f64_value x \<le> 2 * r"
proof -
  show fin: "is_finite x" and close: "\<bar>f64_value x - r\<bar> \<le> r / 2 ^ 53" using assms by (simp_all add: approximates_def)
  then have "0 \<le> r / 2 ^ 53" by (meson abs_ge_zero order_trans)
  then have "0 \<le> r" by simp
  then have "r / 2 ^ 53 \<le> r / 2" by simp
  then show "r / 2 \<le> f64_value x" "f64_value x \<le> 2 * r" using close \<open>0 \<le> r\<close> by linarith+
qed

lemma approximates_factor:
  assumes "approximates x r"
  shows "(1 - 1 / 2 ^ 53) * r \<le> f64_value x" and "f64_value x \<le> (1 + 1 / 2 ^ 53) * r"
proof -
  have "\<bar>f64_value x - r\<bar> \<le> r / 2 ^ 53" by (rule approximates_bounds [OF assms])
  then have "r - r / 2 ^ 53 \<le> f64_value x" "f64_value x \<le> r + r / 2 ^ 53" by linarith+
  then show "(1 - 1 / 2 ^ 53) * r \<le> f64_value x" "f64_value x \<le> (1 + 1 / 2 ^ 53) * r"
    by (simp_all only: left_diff_distrib distrib_right mult_1 times_divide_eq_left)
qed

lemma normalI:
  assumes "1 / 2 ^ 200 \<le> r" and "r \<le> 2 ^ 200"
  shows "normal r"
proof -
  have "(2 :: real) powi (- 1022) \<le> 2 powi (- 200)" by (rule power_int_increasing) simp_all
  also have "\<dots> = 1 / 2 ^ 200" by (simp add: two_powi)
  also have "\<dots> \<le> r" by (rule assms)
  finally have lo: "2 powi (- 1022) \<le> r" .
  have "(2 :: real) ^ 200 \<le> 2 ^ 1000" by (rule power_increasing) simp_all
  then have "r \<le> 2 ^ 1000" using assms(2) by (rule order_trans [rotated])
  then show ?thesis using lo unfolding normal_def by blast
qed

lemma round_f64_close:
  assumes "0 < d" and "normal (real n / real d)"
  shows "approximates (round_f64 n d) (real n / real d)"
proof (cases "n = 0")
  case True
  then show ?thesis by (simp add: round_f64_def approximates_def)
next
  case False
  let ?x = "real n / real d" and ?q = "quotient_exponent n d"
  have x: "2 powi (- 1022) \<le> ?x" "?x \<le> 2 ^ 1000" using assms False by (simp_all add: normal_def)
  have n: "0 < n" using False by simp
  note q = quotient_exponent_bounds [OF n assms(1)]
  have "2 ^ 53 * (2 :: real) powi ?q = 2 powi (53 + ?q)" by (simp add: power_int_add)
  then have "(2 :: real) powi (- 1022) < 2 powi (53 + ?q)"
    using le_less_trans [OF x(1) q [THEN conjunct2]] by (simp only:)
  then have "- 1074 \<le> ?q" using power_int_increasing [of "53 + ?q" "- 1022" "2 :: real"] by linarith
  then obtain m where r: "round_f64 n d = Finite m ?q" "m = round_even (n * 2 ^ nat (- ?q)) (d * 2 ^ nat ?q)"
    using round_f64_finite [OF n assms(1) x(2)] by (metis max_absorb1)
  have "0 < d * 2 ^ nat ?q" using assms(1) by simp
  from round_even_close [OF this] have "\<bar>real m - ?x / 2 powi ?q\<bar> \<le> 1 / 2"
    unfolding r(2) scaled_quotient [symmetric] .
  then have "\<bar>real m - ?x / 2 powi ?q\<bar> * 2 powi ?q \<le> 1 / 2 * 2 powi ?q" by (rule mult_right_mono) simp
  moreover have "\<bar>real m - ?x / 2 powi ?q\<bar> * 2 powi ?q = \<bar>real m * 2 powi ?q - ?x\<bar>"
    by (simp add: abs_mult_pos' algebra_simps flip: abs_mult_pos)
  moreover have "1 / 2 * 2 powi ?q \<le> ?x / 2 ^ 53" using q by simp
  ultimately have "\<bar>real m * 2 powi ?q - ?x\<bar> \<le> ?x / 2 ^ 53" by linarith
  then show ?thesis using r(1) by (simp add: approximates_def)
qed

text \<open>A quotient that is a float is not rounded.\<close>

lemma round_f64_exact:
  assumes "0 < d" and "real n / real d = real k * 2 powi j" and "k \<le> 2 ^ 53" and "- 1074 \<le> j"
    and "real n / real d \<le> 2 ^ 1000"
  shows "is_finite (round_f64 n d) \<and> f64_value (round_f64 n d) = real n / real d"
proof (cases "n = 0")
  case True
  then show ?thesis by (simp add: round_f64_def)
next
  case False
  let ?x = "real n / real d"
  have n: "0 < n" using False by simp
  obtain m e where r: "round_f64 n d = Finite m e" and e: "e = max (quotient_exponent n d) (- 1074)"
      and m: "m = round_even (n * 2 ^ nat (- e)) (d * 2 ^ nat e)"
    using round_f64_finite [OF n assms(1,5)] by metis
  obtain K where K: "?x / 2 powi e = real K"
  proof (cases "e \<le> j")
    case True
    then have "?x / 2 powi e = real k * 2 powi (j - e)" by (simp add: assms(2) power_int_diff)
    then show ?thesis using that [of "k * 2 ^ nat (j - e)"] True by (simp add: power_int_def)
  next
    case False
    then have "e = quotient_exponent n d" using e assms(4) by linarith
    then have lo: "2 ^ 52 * 2 powi e \<le> real k * 2 powi j"
      using quotient_exponent_bounds [OF n assms(1)] by (simp add: assms(2))
    have "(2 :: real) powi j \<le> 2 powi (e - 1)" using False by (intro power_int_increasing) simp_all
    then have half: "(2 :: real) powi j \<le> 2 powi e / 2" by (simp add: power_int_diff)
    have k: "real k \<le> 2 ^ 53" using assms(3) by (metis of_nat_le_iff of_nat_numeral of_nat_power)
    have "real k * 2 powi j \<le> 2 ^ 53 * (2 powi e / 2)" by (rule mult_mono [OF k half]) simp_all
    then have "?x = 2 ^ 52 * 2 powi e" using lo assms(2) by simp
    then show ?thesis using that [of "2 ^ 52"] by simp
  qed
  have "real (n * 2 ^ nat (- e)) / real (d * 2 ^ nat e) = real K" by (subst scaled_quotient) (rule K)
  then have "round_even (n * 2 ^ nat (- e)) (d * 2 ^ nat e) = K"
    using assms(1) by (intro round_even_unique) simp_all
  then have "real m = ?x / 2 powi e" using m K by simp
  then show ?thesis using r by simp
qed

section \<open>What the operations compute\<close>

lemma f64_num_den: "real (f64_num m e) / real (f64_den e) = real m * 2 powi e" "0 < f64_den e"
  by (simp_all add: two_powi)

lemma f64_value_nonneg [simp]: "0 \<le> f64_value x"
  by (cases x) simp_all

lemma finite_cases: "is_finite x \<Longrightarrow> (\<And>m e. x = Finite m e \<Longrightarrow> P) \<Longrightarrow> P"
  by (cases x) simp_all

text \<open>An operation on finite floats rounds a quotient of natural numbers.\<close>

lemma f64_add_rounds:
  assumes "is_finite x" and "is_finite y"
  obtains n d where "0 < d" and "real n / real d = f64_value x + f64_value y" and "f64_add x y = round_f64 n d"
proof -
  obtain m e k f where x: "x = Finite m e" and y: "y = Finite k f" using assms by (metis finite_cases)
  have "real (f64_num m e * f64_den f + f64_num k f * f64_den e) / real (f64_den e * f64_den f) =
      real (f64_num m e) / real (f64_den e) + real (f64_num k f) / real (f64_den f)"
    using f64_num_den(2) [of e] f64_num_den(2) [of f] by (simp add: add_frac_eq del: f64_num.simps f64_den.simps)
  then show ?thesis
    using that [of "f64_den e * f64_den f" "f64_num m e * f64_den f + f64_num k f * f64_den e"]
    unfolding f64_num_den(1) by (simp add: x y)
qed

lemma f64_mul_rounds:
  assumes "is_finite x" and "is_finite y"
  obtains n d where "0 < d" and "real n / real d = f64_value x * f64_value y" and "f64_mul x y = round_f64 n d"
proof -
  obtain m e k f where x: "x = Finite m e" and y: "y = Finite k f" using assms by (metis finite_cases)
  have "real (f64_num m e * f64_num k f) / real (f64_den e * f64_den f) =
      real (f64_num m e) / real (f64_den e) * (real (f64_num k f) / real (f64_den f))"
    by (simp del: f64_num.simps f64_den.simps)
  then show ?thesis
    using that [of "f64_den e * f64_den f" "f64_num m e * f64_num k f"]
    unfolding f64_num_den(1) by (simp add: x y)
qed

lemma f64_div_rounds:
  assumes "is_finite x" and "is_finite y" and "f64_value y \<noteq> 0"
  obtains n d where "0 < d" and "real n / real d = f64_value x / f64_value y" and "f64_div x y = round_f64 n d"
proof -
  obtain m e k f where x: "x = Finite m e" and y: "y = Finite k f" using assms(1,2) by (metis finite_cases)
  have k: "k \<noteq> 0" using assms(3) by (simp add: y)
  have "real (f64_num m e * f64_den f) / real (f64_den e * f64_num k f) =
      real (f64_num m e) / real (f64_den e) / (real (f64_num k f) / real (f64_den f))"
    by (simp del: f64_num.simps f64_den.simps)
  then show ?thesis
    using that [of "f64_den e * f64_num k f" "f64_num m e * f64_den f"] k
    unfolding f64_num_den(1) by (simp add: x y)
qed

lemma f64_add_close:
  "is_finite x \<Longrightarrow> is_finite y \<Longrightarrow> normal (f64_value x + f64_value y) \<Longrightarrow>
   approximates (f64_add x y) (f64_value x + f64_value y)"
  by (metis f64_add_rounds round_f64_close)

lemma f64_mul_close:
  "is_finite x \<Longrightarrow> is_finite y \<Longrightarrow> normal (f64_value x * f64_value y) \<Longrightarrow>
   approximates (f64_mul x y) (f64_value x * f64_value y)"
  by (metis f64_mul_rounds round_f64_close)

lemma f64_div_close:
  "is_finite x \<Longrightarrow> is_finite y \<Longrightarrow> f64_value y \<noteq> 0 \<Longrightarrow> normal (f64_value x / f64_value y) \<Longrightarrow>
   approximates (f64_div x y) (f64_value x / f64_value y)"
  by (metis f64_div_rounds round_f64_close)

lemma f64_of_nat_close: "n \<le> 2 ^ 1000 \<Longrightarrow> approximates (f64_of_nat n) (real n)"
proof -
  assume "n \<le> 2 ^ 1000"
  then have "real n \<le> 2 ^ 1000" by (metis of_nat_le_iff of_nat_numeral of_nat_power)
  moreover have "2 powi (- 1022) \<le> (1 :: real)" using power_int_increasing [of "- 1022" 0 "2 :: real"] by simp
  then have "2 powi (- 1022) \<le> real n" if "n \<noteq> 0" using that by linarith
  ultimately have "normal (real n)" by (auto simp: normal_def)
  then show ?thesis using round_f64_close [of 1 n] by (simp add: f64_of_nat_def)
qed

lemma f64_of_nat_exact: "n \<le> 2 ^ 53 \<Longrightarrow> is_finite (f64_of_nat n) \<and> f64_value (f64_of_nat n) = real n"
proof -
  assume n: "n \<le> 2 ^ 53"
  then have "real n \<le> 2 ^ 53" by (metis of_nat_le_iff of_nat_numeral of_nat_power)
  also have "\<dots> \<le> 2 ^ 1000" by (rule power_increasing) simp_all
  finally show ?thesis using round_f64_exact [of 1 n n 0] n by (simp add: f64_of_nat_def)
qed

text \<open>A coarse bound that needs no lower limit on the result: rounding at most doubles.\<close>

lemma round_f64_le:
  assumes "0 < d" and "real n / real d \<le> 2 ^ 1000"
  shows "is_finite (round_f64 n d) \<and> f64_value (round_f64 n d) \<le> 2 * (real n / real d)"
proof (cases "n = 0")
  case True
  then show ?thesis by (simp add: round_f64_def)
next
  case False
  then obtain m e where "round_f64 n d = Finite m e" "real m * 2 powi e \<le> 2 * (real n / real d)"
    using round_f64_finite [of n d] assms by blast
  then show ?thesis by simp
qed

lemma f64_add_le:
  "is_finite x \<Longrightarrow> is_finite y \<Longrightarrow> f64_value x + f64_value y \<le> 2 ^ 1000 \<Longrightarrow>
   is_finite (f64_add x y) \<and> f64_value (f64_add x y) \<le> 2 * (f64_value x + f64_value y)"
  by (metis f64_add_rounds round_f64_le)

lemma f64_mul_le:
  "is_finite x \<Longrightarrow> is_finite y \<Longrightarrow> f64_value x * f64_value y \<le> 2 ^ 1000 \<Longrightarrow>
   is_finite (f64_mul x y) \<and> f64_value (f64_mul x y) \<le> 2 * (f64_value x * f64_value y)"
  by (metis f64_mul_rounds round_f64_le)

lemma f64_div_le:
  "is_finite x \<Longrightarrow> is_finite y \<Longrightarrow> f64_value y \<noteq> 0 \<Longrightarrow> f64_value x / f64_value y \<le> 2 ^ 1000 \<Longrightarrow>
   is_finite (f64_div x y) \<and> f64_value (f64_div x y) \<le> 2 * (f64_value x / f64_value y)"
  by (metis f64_div_rounds round_f64_le)

text \<open>What a finite float is compared with and printed as.\<close>

lemma f64_ge_value: "is_finite x \<Longrightarrow> f64_ge x k \<longleftrightarrow> real k \<le> f64_value x"
proof (elim finite_cases)
  fix m e assume x: "x = Finite m e"
  have "f64_ge x k \<longleftrightarrow> real (k * f64_den e) \<le> real (f64_num m e)" by (simp only: x f64_ge.simps of_nat_le_iff)
  also have "\<dots> \<longleftrightarrow> real k \<le> real (f64_num m e) / real (f64_den e)"
    using f64_num_den(2) [of e] by (simp add: pos_le_divide_eq del: f64_num.simps f64_den.simps)
  finally show ?thesis by (simp add: x f64_num_den(1) del: f64_num.simps f64_den.simps)
qed

lemma f64_parts_value:
  assumes "is_finite x"
  obtains n d where "f64_parts k x = Some (round_even n d)" and "0 < d" and "real n / real d = real k * f64_value x"
proof -
  obtain m e where x: "x = Finite m e" using assms by (rule finite_cases)
  have "real (k * f64_num m e) / real (f64_den e) = real k * f64_value x"
    by (simp add: x flip: f64_num_den(1) del: f64_num.simps f64_den.simps)
  then show ?thesis using that f64_num_den(2) [of e] by (simp add: x del: f64_num.simps f64_den.simps)
qed

lemma round_even_ratio:
  assumes "0 < d" and "0 < d'" and "real n / real d = real n' / real d'"
  shows "round_even n d = round_even n' d'"
proof -
  have "real (n * d') = real (n' * d)" using assms by (simp add: frac_eq_eq)
  then have eq: "n * d' = n' * d" by (simp only: of_nat_eq_iff)
  have *: "round_even (c * a) (c * b) = round_even a b" if "0 < c" for a b c :: nat
    using that by (simp add: round_even_def Let_def div_mult_mult1 mod_mult_mult1 mult.left_commute [of 2 c])
  have "round_even n d = round_even (d' * n) (d' * d)" using * assms(2) by simp
  also have "\<dots> = round_even (d * n') (d * d')" using eq by (simp add: mult.commute)
  also have "\<dots> = round_even n' d'" using * assms(1) by simp
  finally show ?thesis .
qed

text \<open>The mantissa of a rounded integer has 53 bits.\<close>

lemma f64_of_nat_form:
  assumes "n \<le> 2 ^ 1000"
  obtains m j where "is_finite (f64_of_nat n)" and "f64_value (f64_of_nat n) = real m * 2 powi j"
    and "m \<le> 2 ^ 53" and "- 53 \<le> j"
proof (cases "n = 0")
  case True
  then show ?thesis using that [of 0 0] by (simp add: f64_of_nat_def round_f64_def)
next
  case False
  then have n: "0 < n" by simp
  let ?q = "quotient_exponent n 1"
  have "real n / real 1 \<le> 2 ^ 1000" using assms by (metis div_by_1 of_nat_1 of_nat_le_iff of_nat_numeral of_nat_power)
  then obtain m e where r: "round_f64 n 1 = Finite m e" "e = max ?q (- 1074)"
      and m: "m = round_even (n * 2 ^ nat (- e)) (1 * 2 ^ nat e)"
    using round_f64_finite [OF n, of 1] by (metis zero_less_one)
  have "bits 1 = 1" "0 < bits n" using bits_bounds [OF n] by (simp_all add: bits.simps)
  then have q: "- 53 \<le> ?q" by (simp add: quotient_exponent_def Let_def)
  then have e: "e = ?q" using r(2) by simp
  have x: "real (n * 2 ^ nat (- e)) / real (1 * 2 ^ nat e) < 2 ^ 53"
    unfolding scaled_quotient e using quotient_exponent_bounds [OF n, of 1] by (subst pos_divide_less_eq) simp_all
  have "\<bar>real m - real (n * 2 ^ nat (- e)) / real (1 * 2 ^ nat e)\<bar> \<le> 1 / 2"
    unfolding m by (rule round_even_close) simp
  then have "real m < 2 ^ 53 + 1" using x by linarith
  then have "m \<le> 2 ^ 53" by simp
  then show ?thesis using that [of m e] r(1) q e by (simp add: f64_of_nat_def)
qed

text \<open>Dividing by a power of two changes the exponent only.\<close>

lemma f64_div_exact:
  assumes "is_finite x" and "f64_value x = real m * 2 powi j" and "m \<le> 2 ^ 53" and "- 1000 \<le> j"
    and "k \<le> 50" and "f64_value x \<le> 2 ^ 1000"
  shows "is_finite (f64_div x (f64_of_nat (2 ^ k))) \<and>
    f64_value (f64_div x (f64_of_nat (2 ^ k))) = real m * 2 powi (j - int k)"
proof -
  have "(2 :: nat) ^ k \<le> 2 ^ 53" using assms(5) by (intro power_increasing) simp_all
  from f64_of_nat_exact [OF this] have y: "is_finite (f64_of_nat (2 ^ k))" "f64_value (f64_of_nat (2 ^ k)) = 2 ^ k"
    by simp_all
  then obtain n d where d: "0 < d" "real n / real d = f64_value x / 2 ^ k" "f64_div x (f64_of_nat (2 ^ k)) = round_f64 n d"
    using f64_div_rounds [OF assms(1) y(1)] by (metis power_not_zero zero_neq_numeral)
  have q: "real n / real d = real m * 2 powi (j - int k)" by (simp add: d(2) assms(2) power_int_diff)
  have "f64_value x / 2 ^ k \<le> f64_value x / 1" by (rule divide_left_mono) simp_all
  then have "real n / real d \<le> 2 ^ 1000" using assms(6) d(2) by simp
  then show ?thesis using round_f64_exact [OF d(1) q assms(3)] assms(4,5) d(3) q by simp
qed

text \<open>The error of \<open>c * w / t\<close> when the operands, the product and the quotient are rounded.\<close>

lemma quotient_error:
  fixes w t c :: real
  assumes W: "approximates x w" and T: "approximates y t" and P: "approximates z (c * f64_value x)"
    and X: "approximates u (f64_value z / f64_value y)" and "0 \<le> w" and "0 < t" and "0 \<le> c"
  shows "\<bar>f64_value u - c * (w / t)\<bar> \<le> 8 / 2 ^ 53 * (c * (w / t))"
proof -
  let ?e = "1 / 2 ^ 53 :: real" and ?r = "c * (w / t)"
  have r: "0 \<le> ?r" using assms(5-7) by simp
  have e: "0 < 1 - ?e" "0 \<le> 1 + ?e" by simp_all
  have W2: "c * f64_value x \<le> c * ((1 + ?e) * w)" "c * ((1 - ?e) * w) \<le> c * f64_value x"
    by (rule mult_left_mono [OF approximates_factor(2) [OF W] assms(7)],
        rule mult_left_mono [OF approximates_factor(1) [OF W] assms(7)])
  have up: "f64_value z \<le> (1 + ?e) * (c * ((1 + ?e) * w))"
    by (rule order_trans [OF approximates_factor(2) [OF P] mult_left_mono [OF W2(1) e(2)]])
  have lo: "(1 - ?e) * (c * ((1 - ?e) * w)) \<le> f64_value z"
    by (rule order_trans [OF mult_left_mono [OF W2(2) less_imp_le [OF e(1)]] approximates_factor(1) [OF P]])
  have y: "(1 - ?e) * t \<le> f64_value y" "f64_value y \<le> (1 + ?e) * t" "0 < (1 - ?e) * t" "0 < f64_value y"
    using approximates_factor [OF T] mult_pos_pos [OF e(1) assms(6)] by linarith+
  have "f64_value z / f64_value y \<le> (1 + ?e) * (c * ((1 + ?e) * w)) / ((1 - ?e) * t)"
    using up y assms(5,7) by (intro frac_le) simp_all
  also have "\<dots> = (1 + ?e) * (1 + ?e) / (1 - ?e) * ?r" by simp
  finally have U: "f64_value z / f64_value y \<le> (1 + ?e) * (1 + ?e) / (1 - ?e) * ?r" .
  have "(1 - ?e) * (1 - ?e) / (1 + ?e) * ?r = (1 - ?e) * (c * ((1 - ?e) * w)) / ((1 + ?e) * t)" by simp
  also have "\<dots> \<le> f64_value z / f64_value y" using lo y by (intro frac_le) simp_all
  finally have L: "(1 - ?e) * (1 - ?e) / (1 + ?e) * ?r \<le> f64_value z / f64_value y" .
  have "f64_value u \<le> (1 + ?e) * ((1 + ?e) * (1 + ?e) / (1 - ?e) * ?r)"
    by (rule order_trans [OF approximates_factor(2) [OF X] mult_left_mono [OF U e(2)]])
  also have "\<dots> = (1 + ?e) * (1 + ?e) * (1 + ?e) / (1 - ?e) * ?r" by (simp only: times_divide_eq_right mult.assoc times_divide_eq_left)
  also have "\<dots> \<le> (1 + 8 / 2 ^ 53) * ?r" by (rule mult_right_mono [OF _ r]) simp
  finally have A: "f64_value u \<le> (1 + 8 / 2 ^ 53) * ?r" .
  have "(1 - 8 / 2 ^ 53) * ?r \<le> (1 - ?e) * (1 - ?e) * (1 - ?e) / (1 + ?e) * ?r" by (rule mult_right_mono [OF _ r]) simp
  also have "\<dots> = (1 - ?e) * ((1 - ?e) * (1 - ?e) / (1 + ?e) * ?r)" by (simp only: times_divide_eq_right mult.assoc times_divide_eq_left)
  also have "\<dots> \<le> f64_value u"
    by (rule order_trans [OF mult_left_mono [OF L less_imp_le [OF e(1)]] approximates_factor(1) [OF X]])
  finally have B: "(1 - 8 / 2 ^ 53) * ?r \<le> f64_value u" .
  have "f64_value u \<le> ?r + 8 / 2 ^ 53 * ?r" "?r - 8 / 2 ^ 53 * ?r \<le> f64_value u"
    using A B by (simp_all only: left_diff_distrib distrib_right mult_1)
  then show ?thesis by (simp only: abs_le_iff) linarith
qed

end
