(* ===== verification/Rust_Duration.thy ===== *)
theory Rust_Duration
  imports Rust_F64 Rust_Fmt
begin

text \<open>
  \<^verbatim>\<open>std::time::Duration\<close> as a number of nanoseconds: its product with a float, which panics when it does
  not fit, and its \<^verbatim>\<open>Debug\<close> form \<^verbatim>\<open>{:.p?}\<close> with \<open>p\<close> decimals in the largest unit that is not more than
  the duration; and \<^verbatim>\<open>{:.2}\<close> of a float.
\<close>

section \<open>Model\<close>

definition nanos_per_sec :: nat where "nanos_per_sec = 10 ^ 9"

definition as_secs_f64 :: "nat \<Rightarrow> f64" where
  "as_secs_f64 d = f64_add (f64_of_nat (d div nanos_per_sec))
     (f64_div (f64_of_nat (d mod nanos_per_sec)) (f64_of_nat nanos_per_sec))"

fun from_secs_f64 :: "f64 \<Rightarrow> nat option" where
  "from_secs_f64 (Finite m e) = (if f64_num m e < 2 ^ 64 * f64_den e
     then Some (round_even (f64_num m e * nanos_per_sec) (f64_den e)) else None)"
| "from_secs_f64 x = None"

definition mul_f64 :: "nat \<Rightarrow> f64 \<Rightarrow> nat option" where
  "mul_f64 d x = from_secs_f64 (f64_mul x (as_secs_f64 d))"

definition duration_unit :: "nat \<Rightarrow> nat \<times> string" where
  "duration_unit d = (if 10 ^ 9 \<le> d then (10 ^ 9, ''s'') else if 10 ^ 6 \<le> d then (10 ^ 6, ''ms'')
     else if 10 ^ 3 \<le> d then (10 ^ 3, [CHR 0xC2, CHR 0xB5, CHR ''s'']) else (1, ''ns''))"

definition show_duration :: "nat \<Rightarrow> nat \<Rightarrow> string" where
  "show_duration p d = (case duration_unit d of (u, name) \<Rightarrow> show_decimal p (round_even (d * 10 ^ p) u) @ name)"

text \<open>Without a precision, \<^verbatim>\<open>{:?}\<close>, all decimals are written but zeros at the end.\<close>

fun show_trimmed :: "nat \<Rightarrow> nat \<Rightarrow> string" where
  "show_trimmed 0 n = show_nat n"
| "show_trimmed (Suc p) n = (if n mod 10 = 0 then show_trimmed p (n div 10) else show_decimal (Suc p) n)"

lemma show_trimmed_numeral [simp]:
  "show_trimmed (numeral k) n = (if n mod 10 = 0 then show_trimmed (pred_numeral k) (n div 10) else show_decimal (numeral k) n)"
  by (simp only: numeral_eq_Suc [of k] show_trimmed.simps)

definition debug_duration :: "nat \<Rightarrow> string" where
  "debug_duration d = (case duration_unit d of (u, name) \<Rightarrow>
     show_trimmed (if u = 10 ^ 9 then 9 else if u = 10 ^ 6 then 6 else if u = 10 ^ 3 then 3 else 0) d @ name)"

lemma debug_duration_examples:
  "debug_duration (10 * nanos_per_sec) = ''10s''" "debug_duration 1500000 = ''1.5ms''" "debug_duration 0 = ''0ns''"
  by (simp_all add: debug_duration_def duration_unit_def nanos_per_sec_def show_decimal_def show_nat.simps digit_char_def char_of_def bit_0)

fun f64_fixed2 :: "f64 \<Rightarrow> string" where
  "f64_fixed2 Infinite = ''inf''"
| "f64_fixed2 Not_A_Number = ''NaN''"
| "f64_fixed2 (Finite m e) = show_decimal 2 (the (f64_parts 100 (Finite m e)))"

lemma f64_fixed2_finite: "is_finite x \<Longrightarrow> f64_fixed2 x = show_decimal 2 (the (f64_parts 100 x))"
  by (cases x) simp_all

section \<open>Products that fit\<close>

lemma as_secs_f64_le:
  assumes "d < 2 ^ 64 * nanos_per_sec"
  shows "is_finite (as_secs_f64 d) \<and> f64_value (as_secs_f64 d) \<le> 4 * (real d / real nanos_per_sec)"
proof -
  let ?s = "d div nanos_per_sec" and ?n = "d mod nanos_per_sec" and ?g = "real nanos_per_sec"
  have pos: "0 < nanos_per_sec" by (simp add: nanos_per_sec_def)
  have s: "?s < 2 ^ 64" using assms pos by (simp add: less_mult_imp_div_less mult.commute)
  have n: "?n < 10 ^ 9" using pos by (simp add: nanos_per_sec_def)
  have big: "(2 :: real) ^ 70 \<le> 2 ^ 1000" by (rule power_increasing) simp_all
  have "real ?s / real 1 \<le> 2 ^ 1000" using s big by simp
  from round_f64_le [OF _ this] have S: "is_finite (f64_of_nat ?s)" "f64_value (f64_of_nat ?s) \<le> 2 * real ?s"
    by (simp_all add: f64_of_nat_def)
  have N: "is_finite (f64_of_nat ?n)" "f64_value (f64_of_nat ?n) = real ?n"
    using f64_of_nat_exact [of ?n] n by auto
  have G: "is_finite (f64_of_nat nanos_per_sec)" "f64_value (f64_of_nat nanos_per_sec) = ?g"
    using f64_of_nat_exact [of nanos_per_sec] by (simp_all add: nanos_per_sec_def)
  let ?f = "f64_div (f64_of_nat ?n) (f64_of_nat nanos_per_sec)"
  have frac: "real ?n / ?g \<le> 1" using n by (simp add: nanos_per_sec_def)
  have F: "is_finite ?f" "f64_value ?f \<le> 2 * (real ?n / ?g)"
    using f64_div_le [OF N(1) G(1)] N(2) G(2) frac big pos by simp_all
  have "real ?s < 2 ^ 64" using s by simp
  then have "f64_value (f64_of_nat ?s) + f64_value ?f \<le> 2 ^ 1000" using S F frac big by simp
  then have "is_finite (as_secs_f64 d)" "f64_value (as_secs_f64 d) \<le> 2 * (2 * real ?s + 2 * (real ?n / ?g))"
    using f64_add_le [OF S(1) F(1)] S(2) F(2) by (simp_all add: as_secs_f64_def)
  moreover have "real d = real ?s * ?g + real ?n" by (metis div_mult_mod_eq of_nat_add of_nat_mult)
  then have "real d / ?g = real ?s + real ?n / ?g" using pos by (simp add: add_divide_distrib)
  ultimately show ?thesis by simp
qed

lemma ratio_le:
  assumes "0 < w" and "w < 2 ^ 64" and "r < 2 ^ 64"
  shows "is_finite (f64_div (f64_of_nat r) (f64_of_nat w)) \<and>
    f64_value (f64_div (f64_of_nat r) (f64_of_nat w)) \<le> 8 * (real r / real w)"
proof -
  have big: "(2 :: real) ^ 70 \<le> 2 ^ 1000" by (rule power_increasing) simp_all
  have "real r / real 1 \<le> 2 ^ 1000" using assms(3) big by simp
  from round_f64_le [OF _ this] have R: "is_finite (f64_of_nat r)" "f64_value (f64_of_nat r) \<le> 2 * real r"
    by (simp_all add: f64_of_nat_def)
  have "w \<le> 2 ^ 1000" using assms(2) power_increasing [of 64 1000 "2 :: nat"] by linarith
  note W = approximates_bounds [OF f64_of_nat_close [OF this]]
  have pos: "0 < f64_value (f64_of_nat w)" using W(3) assms(1) by simp
  have q: "f64_value (f64_of_nat r) / f64_value (f64_of_nat w) \<le> 2 * real r / (real w / 2)"
    using R(2) W(3) assms(1) by (intro frac_le) simp_all
  also have "\<dots> \<le> 4 * real r / 1" using assms(1) by (simp add: field_simps mult_le_cancel_left)
  also have "\<dots> \<le> 2 ^ 1000" using assms(3) big by simp
  finally show ?thesis using f64_div_le [OF R(1) W(1)] pos q by simp
qed

text \<open>The product of a duration and a quotient of counts, as far as it is below \<open>2 ^ 58\<close> seconds.\<close>

lemma mul_f64_fits:
  assumes "0 < w" and "w < 2 ^ 64" and "r < 2 ^ 64" and "d < 2 ^ 64 * nanos_per_sec"
    and "r * d < 2 ^ 58 * nanos_per_sec * w"
  shows "mul_f64 d (f64_div (f64_of_nat r) (f64_of_nat w)) \<noteq> None"
proof -
  let ?x = "f64_div (f64_of_nat r) (f64_of_nat w)" and ?s = "as_secs_f64 d" and ?g = "real nanos_per_sec"
  note x = ratio_le [OF assms(1-3)] and s = as_secs_f64_le [OF assms(4)]
  have pos: "0 < ?g * real w" using assms(1) by (simp add: nanos_per_sec_def)
  have "real (r * d) < real (2 ^ 58 * nanos_per_sec * w)" using assms(5) by (simp only: of_nat_less_iff)
  then have fits: "real r * real d / (?g * real w) < 2 ^ 58" using pos by (subst pos_divide_less_eq) (simp_all add: ac_simps)
  have "f64_value ?x * f64_value ?s \<le> 8 * (real r / real w) * (4 * (real d / ?g))"
    by (rule mult_mono) (use x s in simp_all)
  also have "\<dots> = 32 * (real r * real d / (?g * real w))" by (simp add: ac_simps)
  finally have prod: "f64_value ?x * f64_value ?s < 2 ^ 63" using fits by simp
  also have "(2 :: real) ^ 63 \<le> 2 ^ 1000" by (rule power_increasing) simp_all
  finally have "is_finite (f64_mul ?x ?s) \<and> f64_value (f64_mul ?x ?s) < 2 ^ 64"
    using f64_mul_le [of ?x ?s] x s prod by auto
  then obtain m e where m: "f64_mul ?x ?s = Finite m e" "real m * 2 powi e < 2 ^ 64" by (cases "f64_mul ?x ?s") auto
  have "real (f64_num m e) < 2 ^ 64 * real (f64_den e)"
    using m(2) f64_num_den(2) [of e] unfolding f64_num_den(1) [symmetric]
    by (simp add: pos_divide_less_eq del: f64_num.simps f64_den.simps)
  then have "real (f64_num m e) < real (2 ^ 64 * f64_den e)" by (simp del: f64_num.simps f64_den.simps)
  then have "f64_num m e < 2 ^ 64 * f64_den e" by (simp only: of_nat_less_iff)
  then show ?thesis by (simp add: mul_f64_def m(1) del: f64_num.simps f64_den.simps)
qed

lemma mul_f64_zero:
  assumes "0 < w" and "w < 2 ^ 64" and "d < 2 ^ 64 * nanos_per_sec"
  shows "mul_f64 d (f64_div (f64_of_nat 0) (f64_of_nat w)) = Some 0"
proof -
  have "w \<le> 2 ^ 1000" using assms(2) power_increasing [of 64 1000 "2 :: nat"] by linarith
  note W = approximates_bounds [OF f64_of_nat_close [OF this]]
  obtain k f where w: "f64_of_nat w = Finite k f" using W(1) by (rule finite_cases)
  have "k \<noteq> 0" using W(3) assms(1) by (intro notI) (simp add: w)
  then have quot: "f64_div (Finite 0 0) (f64_of_nat w) = Finite 0 0" by (simp add: w)
  obtain m e where "as_secs_f64 d = Finite m e" using as_secs_f64_le [OF assms(3)] by (metis finite_cases)
  then show ?thesis by (simp add: mul_f64_def quot)
qed

end
