(* ===== verification/Human_Bytes.thy ===== *)
theory Human_Bytes
  imports Prelude Rust_Duration "HOL-Library.While_Combinator"
begin

text \<open>
  Byte counts for people (\<^verbatim>\<open>human_bytes\<close> of \<^verbatim>\<open>alloc.rs\<close>), over the floats of Rust_F64. \<open>None\<close> would be
  a loop that does not end.
\<close>

section \<open>Model\<close>

definition byte_units :: "string list" where
  "byte_units = [''B'', ''KiB'', ''MiB'', ''GiB'', ''TiB'']"

definition scale_bytes :: "f64 \<Rightarrow> (f64 \<times> nat) option" where
  "scale_bytes x = while_option (\<lambda>(val, unit). f64_ge val 1024 \<and> unit < length byte_units - 1)
     (\<lambda>(val, unit). (f64_div val (f64_of_nat 1024), unit + 1)) (x, 0)"

definition human_bytes :: "u64 \<Rightarrow> string option" where
  "human_bytes bytes = map_option (\<lambda>(val, unit). f64_fixed2 val @ '' '' @ byte_units ! unit)
     (scale_bytes (f64_of_nat (unat bytes)))"

section \<open>The scaling loop\<close>

lemma scale_bytes_ends: "\<exists>r. scale_bytes x = Some r"
  unfolding scale_bytes_def
  by (rule measure_while_option_Some [where P = "\<lambda>s. True" and f = "\<lambda>(val, unit). length byte_units - unit"])
    auto

lemma scale_bytes_rule:
  assumes "scale_bytes x = Some (y, u)" and "P x 0"
    and "\<And>z k. P z k \<Longrightarrow> f64_ge z 1024 \<Longrightarrow> k < 4 \<Longrightarrow> P (f64_div z (f64_of_nat 1024)) (k + 1)"
  shows "P y u \<and> (u < 4 \<longrightarrow> \<not> f64_ge y 1024)"
proof -
  have "(\<lambda>(z, k). P z k) (y, u)"
    by (rule while_option_rule [OF _ assms(1) [unfolded scale_bytes_def]])
      (use assms(2,3) in \<open>auto simp: byte_units_def\<close>)
  moreover have "\<not> (f64_ge y 1024 \<and> u < 4)"
    using while_option_stop [OF assms(1) [unfolded scale_bytes_def]] by (simp add: byte_units_def eval_nat_numeral)
  ultimately show ?thesis by blast
qed

text \<open>The loop divides exactly: only the conversion of the count rounds.\<close>

definition scaled_by :: "real \<Rightarrow> f64 \<Rightarrow> nat \<Rightarrow> bool" where
  "scaled_by v z k \<longleftrightarrow> is_finite z \<and> k \<le> 4 \<and> f64_value z * 1024 ^ k = v \<and> (0 < k \<longrightarrow> 1 \<le> f64_value z) \<and>
     (\<exists>m j. f64_value z = real m * 2 powi j \<and> m \<le> 2 ^ 53 \<and> - 53 - 10 * int k \<le> j)"

lemma scaled_by_step:
  assumes "scaled_by v z k" and "f64_ge z 1024" and "k < 4" and "v \<le> 2 ^ 65"
  shows "scaled_by v (f64_div z (f64_of_nat 1024)) (k + 1)"
proof -
  obtain m j where z: "is_finite z" "f64_value z * 1024 ^ k = v" "f64_value z = real m * 2 powi j" "m \<le> 2 ^ 53"
      "- 53 - 10 * int k \<le> j"
    using assms(1) by (auto simp: scaled_by_def)
  have "f64_value z * 1 \<le> f64_value z * 1024 ^ k" by (rule mult_left_mono) simp_all
  also have "\<dots> \<le> 2 ^ 65" using z(2) assms(4) by simp
  also have "(2 :: real) ^ 65 \<le> 2 ^ 1000" by (rule power_increasing) simp_all
  finally have "f64_value z \<le> 2 ^ 1000" by simp
  moreover have "- 1000 \<le> j" using z(5) assms(3) by simp
  ultimately have d: "is_finite (f64_div z (f64_of_nat (2 ^ 10)))"
      "f64_value (f64_div z (f64_of_nat (2 ^ 10))) = real m * 2 powi (j - int 10)"
    using f64_div_exact [OF z(1,3,4), of 10] by simp_all
  have kib: "(2 :: nat) ^ 10 = 1024" by simp
  have val: "f64_value (f64_div z (f64_of_nat 1024)) = f64_value z / 1024"
    using d(2) unfolding kib z(3) by (simp add: power_int_diff)
  have "1024 \<le> f64_value z" using assms(2) f64_ge_value [OF z(1), of 1024] by simp
  then have "1 \<le> f64_value (f64_div z (f64_of_nat 1024))" "f64_value (f64_div z (f64_of_nat 1024)) * 1024 ^ (k + 1) = v"
    using z(2) by (simp_all add: val)
  then show ?thesis
    using d assms(3) z(4,5) unfolding kib scaled_by_def by (intro conjI exI [of _ m] exI [of _ "j - int 10"]) simp_all
qed

lemma human_bytes_scaled:
  obtains y u where "human_bytes bytes = Some (f64_fixed2 y @ '' '' @ byte_units ! u)"
    and "scaled_by (f64_value (f64_of_nat (unat bytes))) y u" and "u < 4 \<Longrightarrow> f64_value y < 1024"
proof -
  let ?x = "f64_of_nat (unat bytes)"
  have small: "unat bytes < 2 ^ 64" using unsigned_less [of bytes, where ?'a = nat] by simp
  also have "(2 :: nat) ^ 64 \<le> 2 ^ 1000" by (rule power_increasing) simp_all
  finally have le: "unat bytes \<le> 2 ^ 1000" by simp
  have "f64_value ?x \<le> 2 * real (unat bytes)" by (rule approximates_bounds [OF f64_of_nat_close [OF le]])
  moreover have "real (unat bytes) < 2 ^ 64" using small by (metis of_nat_less_iff of_nat_numeral of_nat_power)
  ultimately have v: "f64_value ?x \<le> 2 ^ 65" by simp
  have start: "scaled_by (f64_value ?x) ?x 0"
    using f64_of_nat_form [OF le] unfolding scaled_by_def by fastforce
  obtain y u where r: "scale_bytes ?x = Some (y, u)" using scale_bytes_ends by fastforce
  have "scaled_by (f64_value ?x) y u \<and> (u < 4 \<longrightarrow> \<not> f64_ge y 1024)"
    by (rule scale_bytes_rule [OF r]) (use start scaled_by_step v in blast)+
  then show ?thesis
    using that [of y u] r f64_ge_value [of y 1024] by (auto simp: human_bytes_def scaled_by_def)
qed

section \<open>Properties\<close>

text \<open>
  C40: The printed size is the byte count. The loop ends after at most four divisions; the number
  printed, in hundredths of the unit, is off by at most half a hundredth plus the rounding of the
  count to 53 bits. Below 2^53 bytes it is the exact quotient rounded to hundredths, ties to even,
  and the unit is the largest one that is not more than the count.
\<close>

theorem human_bytes_exact:
  "\<exists>u h. human_bytes bytes = Some (show_decimal 2 h @ '' '' @ byte_units ! u) \<and> u \<le> 4 \<and>
     \<bar>real h / 100 * 1024 ^ u - real (unat bytes)\<bar> \<le> 1024 ^ u / 200 + real (unat bytes) / 2 ^ 53 \<and>
     (unat bytes < 2 ^ 53 \<longrightarrow> h = round_even (100 * unat bytes) (1024 ^ u) \<and>
       (0 < u \<longrightarrow> 1024 ^ u \<le> unat bytes) \<and> (u < 4 \<longrightarrow> unat bytes < 1024 ^ (u + 1)))"
proof -
  obtain y u where r: "human_bytes bytes = Some (f64_fixed2 y @ '' '' @ byte_units ! u)"
      and y: "scaled_by (f64_value (f64_of_nat (unat bytes))) y u" and top: "u < 4 \<Longrightarrow> f64_value y < 1024"
    using human_bytes_scaled by blast
  let ?b = "real (unat bytes)" and ?v = "f64_value (f64_of_nat (unat bytes))" and ?U = "(1024 :: real) ^ u"
  have fin: "is_finite y" and u: "u \<le> 4" and val: "f64_value y * ?U = ?v" and one: "0 < u \<longrightarrow> 1 \<le> f64_value y"
    using y by (auto simp: scaled_by_def)
  obtain n d where h: "f64_parts 100 y = Some (round_even n d)" "0 < d" "real n / real d = 100 * f64_value y"
    using f64_parts_value [OF fin, of 100] by auto
  let ?h = "round_even n d"
  have shown: "human_bytes bytes = Some (show_decimal 2 ?h @ '' '' @ byte_units ! u)"
    using r h(1) by (simp add: f64_fixed2_finite [OF fin])
  have "unat bytes < 2 ^ 64" using unsigned_less [of bytes, where ?'a = nat] by simp
  also have "(2 :: nat) ^ 64 \<le> 2 ^ 1000" by (rule power_increasing) simp_all
  finally have "\<bar>?v - ?b\<bar> \<le> ?b / 2 ^ 53" using f64_of_nat_close [of "unat bytes"] by (simp add: approximates_def)
  moreover have "\<bar>real ?h / 100 * ?U - ?v\<bar> \<le> ?U / 200"
  proof -
    have "\<bar>real ?h - 100 * f64_value y\<bar> \<le> 1 / 2" using round_even_close [OF h(2), of n] h(3) by simp
    then have "\<bar>real ?h - 100 * f64_value y\<bar> * (?U / 100) \<le> 1 / 2 * (?U / 100)" by (rule mult_right_mono) simp
    also have "\<bar>real ?h - 100 * f64_value y\<bar> * (?U / 100) = \<bar>(real ?h - 100 * f64_value y) * (?U / 100)\<bar>"
      by (simp add: abs_mult)
    also have "(real ?h - 100 * f64_value y) * (?U / 100) = real ?h / 100 * ?U - ?v"
      by (simp add: left_diff_distrib flip: val)
    finally show ?thesis by simp
  qed
  ultimately have close: "\<bar>real ?h / 100 * ?U - ?b\<bar> \<le> ?U / 200 + ?b / 2 ^ 53" by linarith
  have exact: "?h = round_even (100 * unat bytes) (1024 ^ u) \<and> (0 < u \<longrightarrow> 1024 ^ u \<le> unat bytes) \<and>
      (u < 4 \<longrightarrow> unat bytes < 1024 ^ (u + 1))" if "unat bytes < 2 ^ 53"
  proof -
    have b: "f64_value y * ?U = ?b" using val f64_of_nat_exact [of "unat bytes"] that by simp
    have "real (100 * unat bytes) / real (1024 ^ u) = 100 * (f64_value y * ?U) / ?U"
      unfolding b by simp
    then have "real (100 * unat bytes) / real (1024 ^ u) = 100 * f64_value y" by simp
    then have "?h = round_even (100 * unat bytes) (1024 ^ u)"
      using h(2,3) by (intro round_even_ratio) simp_all
    moreover have "real (1024 ^ u) \<le> real (unat bytes)" if "0 < u"
      using mult_right_mono [of 1 "f64_value y" ?U] one that by (simp add: b)
    moreover have "real (unat bytes) < real (1024 ^ (u + 1))" if "u < 4"
      using mult_strict_right_mono [OF top [OF that], of ?U] by (simp add: b)
    ultimately show ?thesis by (simp only: of_nat_le_iff of_nat_less_iff) blast
  qed
  show ?thesis
    using shown u close exact by (intro exI [of _ u] exI [of _ ?h] conjI impI) simp_all
qed

theorem human_bytes_exact_witness: "human_bytes 1536 = Some ''1.50 KiB''"
proof -
  obtain u h where r: "human_bytes 1536 = Some (show_decimal 2 h @ '' '' @ byte_units ! u)" "u \<le> 4"
      and h: "h = round_even 153600 (1024 ^ u)" "0 < u \<longrightarrow> 1024 ^ u \<le> (1536 :: nat)" "u < 4 \<longrightarrow> 1536 < (1024 :: nat) ^ (u + 1)"
    using human_bytes_exact [of 1536] by auto
  have "u \<noteq> 0"
  proof
    assume "u = 0"
    then show False using h(3) by simp
  qed
  moreover have "\<not> 2 \<le> u"
    using h(2) power_increasing [of 2 u "1024 :: nat"] by auto
  ultimately have "u = 1" by simp
  moreover have "round_even 153600 1024 = 150" by (simp add: round_even_def)
  moreover have "show_decimal 2 150 = ''1.50''"
    by (simp add: show_decimal_def show_nat.simps digit_char_def char_of_def bit_simps)
  ultimately show ?thesis using r(1) h(1) by (simp add: byte_units_def)
qed

end
