(* ===== verification/Table_Writes.thy ===== *)
theory Table_Writes
  imports Mdbx_Settings
begin

text \<open>
  Writing update sets into the trie tables and clearing them (\<^verbatim>\<open>write_trie_updates\<close> and
  \<^verbatim>\<open>clear_trie_tables\<close> of \<^verbatim>\<open>rebuild.rs\<close>). An update set acts on the content of the tables as
  \<open>apply_updates\<close> says; the cursor loops refine it for both key adapters, count what they write,
  leave the other tables alone and succeed on a database that does.
\<close>

section \<open>Writing an update set\<close>

fun write_account_nodes ::
    "('d, 't, 'k) trie_db \<Rightarrow> bool \<Rightarrow> sorted_nodes \<Rightarrow> nat \<Rightarrow> 't \<Rightarrow> db_error + nat \<times> 't" where
  "write_account_nodes db packed [] written t = Ok (written, t)"
| "write_account_nodes db packed ((path, Some node) # ns) written t =
     (if path \<noteq> [] then
        rbind (cur_upsert db (account_key db packed path) node t) (\<lambda>t.
          write_account_nodes db packed ns (written + 1) t)
      else write_account_nodes db packed ns written t)"
| "write_account_nodes db packed ((path, None) # ns) written t =
     rbind (cur_seek_exact db (account_key db packed path) t) (\<lambda>(found, t).
       if found \<noteq> None then
         rbind (cur_delete_current db t) (\<lambda>t. write_account_nodes db packed ns (written + 1) t)
       else write_account_nodes db packed ns written t)"

fun write_storage_tries ::
    "('d, 't, 'k) trie_db \<Rightarrow> bool \<Rightarrow> (b256 \<times> sorted_nodes) list \<Rightarrow> nat \<Rightarrow> 't \<Rightarrow> db_error + nat \<times> 't" where
  "write_storage_tries db packed [] written t = Ok (written, t)"
| "write_storage_tries db packed ((hashed_address, trie) # tries) written t =
     rbind (cur_write_storage db packed hashed_address trie t) (\<lambda>(n, t).
       write_storage_tries db packed tries (written + n) t)"

definition write_trie_updates_with ::
    "('d, 't, 'k) trie_db \<Rightarrow> bool \<Rightarrow> trie_updates \<Rightarrow> 't \<Rightarrow> db_error + nat \<times> 't" where
  "write_trie_updates_with db packed updates t =
     (let sorted' = into_sorted db updates in
      rbind (tx_account_cursor db t) (\<lambda>t.
      rbind (write_account_nodes db packed (sorted_account_nodes sorted') 0 t) (\<lambda>(written, t).
      rbind (tx_storage_cursor db t) (\<lambda>t.
        write_storage_tries db packed (sort_key fst (sorted_storage_tries sorted')) written t))))"

definition write_trie_updates ::
    "('d, 't, 'k) trie_db \<Rightarrow> 'st settings_codec \<Rightarrow> trie_updates \<Rightarrow> 'd \<Rightarrow> 'd \<times> (db_error + nat)" where
  "write_trie_updates db codec updates d = in_tx db d (\<lambda>t.
     rbind (uses_packed_trie_keys db codec t) (\<lambda>packed.
       write_trie_updates_with db packed updates t))"

definition clear_trie_tables :: "('d, 't, 'k) trie_db \<Rightarrow> 'd \<Rightarrow> 'd \<times> (db_error + unit)" where
  "clear_trie_tables db d = in_tx db d (\<lambda>t.
     rbind (tx_clear_accounts db t) (\<lambda>t. rbind (tx_clear_storages db t) (\<lambda>t. Ok ((), t))))"

section \<open>The effect of an update set on the content of the tables\<close>

type_synonym table_content = "node_key \<Rightarrow> branch_node option"

text \<open>
  The node at an empty path is never stored; deleting the account trie's empty path is attempted.
  An inserted node takes precedence over a removal.
\<close>

definition update_nodes :: "(nibbles, branch_node) hash_map \<Rightarrow> nibbles list \<Rightarrow>
    (nibbles \<Rightarrow> branch_node option) \<Rightarrow> nibbles \<Rightarrow> branch_node option" where
  "update_nodes nodes removed m p = (case hm_get nodes p of
     Some n \<Rightarrow> if p = [] then m p else Some n
   | None \<Rightarrow> if p \<in> set removed then None else m p)"

definition apply_updates :: "trie_updates \<Rightarrow> table_content \<Rightarrow> table_content" where
  "apply_updates u m = (\<lambda>(a, p). case a of
     None \<Rightarrow> update_nodes (account_nodes u) (removed_account_nodes u) (\<lambda>p. m (None, p)) p
   | Some b \<Rightarrow> if p = [] then m (Some b, p)
       else update_nodes (storage_nodes (entry_or_default b u)) (removed_nodes (entry_or_default b u))
              (\<lambda>p. m (Some b, p)) p)"

definition no_removals :: "trie_updates \<Rightarrow> bool" where
  "no_removals u \<longleftrightarrow> removed_account_nodes u = [] \<and> (\<forall>(a, t) \<in> set (storage_tries u). removed_nodes t = [])"

text \<open>The nodes of a content that the tables can hold: all but the roots.\<close>

definition without_roots :: "table_content \<Rightarrow> table_content" where
  "without_roots m = (\<lambda>(a, p). if p = [] then None else m (a, p))"

definition stored_events :: "node_event list \<Rightarrow> node_event list" where
  "stored_events es = filter (\<lambda>e. fst (snd e) \<noteq> []) es"

section \<open>The cursor loops refine the effect\<close>

fun put_accounts :: "sorted_nodes \<Rightarrow> table_content \<Rightarrow> table_content" where
  "put_accounts [] m = m"
| "put_accounts ((p, v) # ns) m =
     put_accounts ns (if v \<noteq> None \<and> p = [] then m else m((None, p) := v))"

definition put_tries :: "(b256 \<times> sorted_nodes) list \<Rightarrow> table_content \<Rightarrow> table_content" where
  "put_tries ts m = fold (\<lambda>(a, ns). put_sorted id a ns) ts m"

lemma put_accounts_at:
  "distinct (map fst ns) \<Longrightarrow> put_accounts ns m (a, p) =
     (if a = None then (case map_of ns p of None \<Rightarrow> m (None, p)
        | Some v \<Rightarrow> if v \<noteq> None \<and> p = [] then m (None, p) else v)
      else m (a, p))"
proof (induction ns m rule: put_accounts.induct)
  case (1 m)
  then show ?case by simp
next
  case (2 q v ns m)
  then have "map_of ns q = None" by (simp add: map_of_eq_None_iff)
  then show ?case using 2 by (auto split: option.splits)
qed

lemma put_sorted_at:
  "distinct (map fst ns) \<Longrightarrow> put_sorted id b ns m (a, p) =
     (if a = Some b \<and> p \<noteq> [] then (case map_of ns p of None \<Rightarrow> m (a, p) | Some v \<Rightarrow> v)
      else m (a, p))"
proof (induction ns arbitrary: m)
  case Nil
  then show ?case by simp
next
  case (Cons qv ns)
  obtain q v where qv: "qv = (q, v)" by (cases qv)
  then have "map_of ns q = None" using Cons.prems by (simp add: map_of_eq_None_iff)
  then show ?case using Cons qv by (auto split: option.splits)
qed

lemma put_sorted_other: "a \<noteq> Some b \<Longrightarrow> put_sorted id b ns m (a, p) = m (a, p)"
  by (induction ns arbitrary: m) auto

lemma put_sorted_cong:
  "(\<And>p. m (a, p) = n (a, p)) \<Longrightarrow> put_sorted id b ns m (a, p) = put_sorted id b ns n (a, p)"
proof (induction ns arbitrary: m n)
  case Nil
  then show ?case by simp
next
  case (Cons qv ns)
  obtain q v where qv: "qv = (q, v)" by (cases qv)
  have "put_sorted id b ns (if q = [] then m else m((Some b, id q) := v)) (a, p) =
      put_sorted id b ns (if q = [] then n else n((Some b, id q) := v)) (a, p)"
    by (rule Cons.IH) (simp add: Cons.prems)
  then show ?case by (simp only: qv put_sorted.simps)
qed

lemma put_tries_account: "put_tries ts m (None, p) = m (None, p)"
  by (induction ts arbitrary: m) (auto simp: put_tries_def put_sorted_other)

lemma put_tries_at:
  "distinct (map fst ts) \<Longrightarrow> put_tries ts m (Some b, p) =
     (case map_of ts b of None \<Rightarrow> m (Some b, p) | Some ns \<Rightarrow> put_sorted id b ns m (Some b, p))"
proof (induction ts arbitrary: m)
  case Nil
  then show ?case by (simp add: put_tries_def)
next
  case (Cons at ts)
  obtain c ns where at: "at = (c, ns)" by (cases at)
  have new: "map_of ts c = None" using Cons.prems at by (simp add: map_of_eq_None_iff)
  have "put_tries (at # ts) m (Some b, p) = put_tries ts (put_sorted id c ns m) (Some b, p)"
    by (simp add: put_tries_def at)
  also have "\<dots> = (case map_of ts b of None \<Rightarrow> put_sorted id c ns m (Some b, p)
      | Some ns' \<Rightarrow> put_sorted id b ns' (put_sorted id c ns m) (Some b, p))"
    using Cons by simp
  also have "\<dots> = (case map_of (at # ts) b of None \<Rightarrow> m (Some b, p)
      | Some ns \<Rightarrow> put_sorted id b ns m (Some b, p))"
    using new by (cases "b = c") (auto simp: at put_sorted_other
        intro: put_sorted_cong split: option.split)
  finally show ?case .
qed

lemma sorted_form_update:
  assumes "sorted_form_of nodes removed ns"
  shows "(case map_of ns p of None \<Rightarrow> m p | Some v \<Rightarrow> if v \<noteq> None \<and> p = [] then m p else v) =
    update_nodes nodes removed m p"
  using assms by (auto simp: sorted_form_of_def update_nodes_def split: option.splits)

lemma sort_key_fst:
  assumes "distinct (map fst xs)"
  shows "distinct (map fst (sort_key fst xs))" and "map_of (sort_key fst xs) = map_of xs"
proof -
  have "mset (map fst (sort_key fst xs)) = mset (map fst xs)" by (metis mset_map mset_sort)
  then show "distinct (map fst (sort_key fst xs))"
    using assms mset_eq_imp_distinct_iff by blast
  show "map_of (sort_key fst xs) = map_of xs"
    by (rule map_of_permute [OF assms, symmetric]) simp
qed

context trie_store
begin

lemma write_account_nodes_rows:
  "write_account_nodes db packed ns w t = Ok (w', t') \<Longrightarrow> rows t = encode_rows db packed m \<Longrightarrow>
   rows t' = encode_rows db packed (put_accounts ns m)"
proof (induction ns arbitrary: w t m)
  case Nil
  then show ?case by simp
next
  case (Cons pv ns)
  obtain p v where pv: "pv = (p, v)" by (cases pv)
  show ?case
  proof (cases v)
    case (Some n)
    show ?thesis
    proof (cases "p = []")
      case True
      then show ?thesis using Cons Some pv by simp
    next
      case False
      then obtain t1 where "cur_upsert db (account_key db packed p) n t = Ok t1"
          and w: "write_account_nodes db packed ns (Suc w) t1 = Ok (w', t')"
        using Cons.prems(1) Some pv by (auto simp: rbind_eq_Ok)
      then have "rows t1 = encode_rows db packed (m((None, p) := Some n))"
        using upsert_rows Cons.prems(2) by (simp add: encode_account_upd)
      then have "rows t' = encode_rows db packed (put_accounts ns (m((None, p) := Some n)))"
        by (rule Cons.IH [OF w])
      then show ?thesis using Some False by (simp add: pv fun_upd_def)
    qed
  next
    case None
    then obtain found t1 where seek: "cur_seek_exact db (account_key db packed p) t = Ok (found, t1)"
        and rest: "(if found \<noteq> None then rbind (cur_delete_current db t1)
            (\<lambda>t. write_account_nodes db packed ns (w + 1) t)
          else write_account_nodes db packed ns w t1) = Ok (w', t')"
      using Cons.prems(1) pv by (auto simp: rbind_eq_Ok)
    have t1: "rows t1 = encode_rows db packed m" and found: "found = m (None, p)"
      using seek_rows [OF seek] Cons.prems(2) by (simp_all add: encode_account)
    show ?thesis
    proof (cases found)
      case None
      then have "m((None, p) := None) = m" using found by (simp add: fun_upd_idem)
      then show ?thesis using Cons.IH [OF _ t1] rest None \<open>v = None\<close> pv by simp
    next
      case (Some n)
      then obtain t2 where del: "cur_delete_current db t1 = Ok t2"
          and w: "write_account_nodes db packed ns (w + 1) t2 = Ok (w', t')"
        using rest by (auto simp: rbind_eq_Ok)
      have "rows t2 = encode_rows db packed (m((None, p) := None))"
        using delete_rows [OF del seek_position] seek Some t1 by (simp add: encode_account_upd)
      then have "rows t' = encode_rows db packed (put_accounts ns (m((None, p) := None)))"
        by (rule Cons.IH [OF w])
      then show ?thesis using \<open>v = None\<close> by (simp add: pv fun_upd_def)
    qed
  qed
qed

lemma write_storage_tries_rows:
  "write_storage_tries db packed ts w t = Ok (w', t') \<Longrightarrow> rows t = encode_rows db packed m \<Longrightarrow>
   rows t' = encode_rows db packed (put_tries ts m) \<and>
   w' = w + (\<Sum>(a, ns) \<leftarrow> ts. length (filter (\<lambda>pv. fst pv \<noteq> []) ns))"
proof (induction ts arbitrary: w t m)
  case Nil
  then show ?case by (simp add: put_tries_def)
next
  case (Cons at ts)
  obtain a ns where at: "at = (a, ns)" by (cases at)
  then obtain c t1 where c: "cur_write_storage db packed a ns t = Ok (c, t1)"
      and w: "write_storage_tries db packed ts (w + c) t1 = Ok (w', t')"
    using Cons.prems(1) by (auto simp: rbind_eq_Ok)
  have "rows t1 = encode_rows db packed (put_sorted id a ns m)"
    using write_storage_rows [OF c] Cons.prems(2) by (simp add: encode_put_sorted)
  then show ?case
    using Cons.IH [OF w] write_storage_count [OF c] at by (simp add: put_tries_def)
qed

lemma put_apply_updates:
  assumes wf: "updates_wf u"
  shows "put_tries (sort_key fst (sorted_storage_tries (into_sorted db u)))
      (put_accounts (sorted_account_nodes (into_sorted db u)) m) = apply_updates u m"
proof (rule ext, unfold split_paired_all)
  fix a p
  let ?ns = "sorted_account_nodes (into_sorted db u)"
  let ?ts = "sorted_storage_tries (into_sorted db u)"
  have acc: "sorted_form_of (account_nodes u) (removed_account_nodes u) ?ns" by (rule sorted_accounts [OF wf])
  then have d: "distinct (map fst ?ns)" by (simp add: sorted_form_of_def)
  have ts: "distinct (map fst ?ts)" "dom (map_of ?ts) = dom (hm_get (storage_tries u))"
    using sorted_storages [OF wf] by simp_all
  show "put_tries (sort_key fst ?ts) (put_accounts ?ns m) (a, p) = apply_updates u m (a, p)"
  proof (cases a)
    case None
    then show ?thesis
      using sorted_form_update [OF acc, of "\<lambda>p. m (None, p)" p]
      by (simp add: put_tries_account put_accounts_at [OF d] apply_updates_def)
  next
    case (Some b)
    note at = put_tries_at [OF sort_key_fst(1) [OF ts(1)], unfolded sort_key_fst(2) [OF ts(1)]]
    show ?thesis
    proof (cases "hm_get (storage_tries u) b")
      case None
      then have "map_of ?ts b = None" using ts(2) by blast
      then show ?thesis using None Some
        by (simp add: at apply_updates_def entry_or_default_def default_storage_trie_def
            update_nodes_def put_accounts_at [OF d])
    next
      case (Some st)
      obtain ns where ns: "map_of ?ts b = Some ns" "sorted_form_of (storage_nodes st) (removed_nodes st) ns"
        using sorted_storage [OF wf Some] by blast
      then have "distinct (map fst ns)" by (simp add: sorted_form_of_def)
      then show ?thesis
        using sorted_form_update [OF ns(2), of "\<lambda>p. m (Some b, p)" p, symmetric] \<open>a = Some b\<close> Some ns(1)
        by (simp add: at put_sorted_at put_accounts_at [OF d] apply_updates_def entry_or_default_def
            split: option.split)
    qed
  qed
qed

lemma write_trie_updates_with_rows:
  assumes "write_trie_updates_with db packed u t = Ok (w, t')" and "updates_wf u"
    and "rows t = encode_rows db packed m"
  shows "rows t' = encode_rows db packed (apply_updates u m)"
proof -
  let ?ns = "sorted_account_nodes (into_sorted db u)"
  let ?ts = "sort_key fst (sorted_storage_tries (into_sorted db u))"
  obtain t1 w2 t2 t3 where c1: "tx_account_cursor db t = Ok t1"
      and a: "write_account_nodes db packed ?ns 0 t1 = Ok (w2, t2)"
      and c2: "tx_storage_cursor db t2 = Ok t3"
      and s: "write_storage_tries db packed ?ts w2 t3 = Ok (w, t')"
    using assms(1) by (auto simp: write_trie_updates_with_def Let_def rbind_eq_Ok)
  have "rows t3 = encode_rows db packed (put_accounts ?ns m)"
    using write_account_nodes_rows [OF a] account_cursor_rows [OF c1] storage_cursor_rows [OF c2]
      assms(3) by simp
  then show ?thesis
    using write_storage_tries_rows [OF s] by (simp add: put_apply_updates [OF assms(2)])
qed

end

section \<open>The number of entries written\<close>

lemma write_account_nodes_count:
  "write_account_nodes db packed ns w t = Ok (w', t') \<Longrightarrow> None \<notin> snd ` set ns \<Longrightarrow>
   w' = w + length (filter (\<lambda>pv. fst pv \<noteq> []) ns)"
  by (induction db packed ns w t rule: write_account_nodes.induct) (auto simp: rbind_eq_Ok split: if_splits)

lemma sorted_form_inserts:
  assumes "sorted_form_of nodes [] ns" and "hm_wf nodes"
  shows "mset ns = mset (map (\<lambda>(p, n). (p, Some n)) nodes)"
proof (rule mset_eq_of_map_of_eq)
  show "distinct (map fst ns)" using assms(1) by (simp add: sorted_form_of_def)
  show "distinct (map fst (map (\<lambda>(p, n). (p, Some n)) nodes))"
    using assms(2) by (simp add: hm_wf_def comp_def split_def)
  have "map_of (map (\<lambda>(p, n). (p, Some n)) nodes) = (\<lambda>p. map_option Some (hm_get nodes p))"
    by (simp add: map_of_map comp_def)
  then show "map_of ns = map_of (map (\<lambda>(p, n). (p, Some n)) nodes)"
    using assms(1) by (simp add: sorted_form_of_def fun_eq_iff split: option.split)
qed

lemma length_filter_mset:
  "mset xs = mset ys \<Longrightarrow> length (filter P xs) = length (filter P ys)"
  by (metis mset_filter size_mset)

lemma sorted_form_inserts_count:
  assumes "sorted_form_of nodes [] ns" and "hm_wf nodes"
  shows "length (filter (\<lambda>pv. fst pv \<noteq> []) ns) = length (filter (\<lambda>pn. fst pn \<noteq> []) nodes)"
  unfolding length_filter_mset [OF sorted_form_inserts [OF assms]]
  by (simp add: filter_map comp_def split_def)

lemma length_stored_events:
  "length (stored_events (updates_events u)) = length (filter (\<lambda>pn. fst pn \<noteq> []) (account_nodes u)) +
     (\<Sum>(a, st) \<leftarrow> storage_tries u. length (filter (\<lambda>pn. fst pn \<noteq> []) (storage_nodes st)))"
proof -
  have *: "length (stored_events (storage_trie_events at)) =
      length (filter (\<lambda>pn. fst pn \<noteq> []) (storage_nodes (snd at)))" for at
    by (simp add: stored_events_def storage_trie_events_def filter_map comp_def)
  have "length (stored_events (concat (map storage_trie_events ts))) =
      (\<Sum>(a, st) \<leftarrow> ts. length (filter (\<lambda>pn. fst pn \<noteq> []) (storage_nodes st)))" for ts
    using * by (induction ts) (auto simp: stored_events_def)
  then show ?thesis by (simp add: updates_events_def stored_events_def filter_map comp_def)
qed

context trie_store
begin

lemma storage_tries_count:
  assumes wf: "updates_wf u" and "no_removals u"
  shows "(\<Sum>(a, ns) \<leftarrow> sort_key fst (sorted_storage_tries (into_sorted db u)).
      length (filter (\<lambda>pv. fst pv \<noteq> []) ns)) =
    (\<Sum>(a, st) \<leftarrow> storage_tries u. length (filter (\<lambda>pn. fst pn \<noteq> []) (storage_nodes st)))"
proof -
  let ?ts = "sorted_storage_tries (into_sorted db u)"
  define f where "f = (\<lambda>(a :: b256, ns :: sorted_nodes). (a, length (filter (\<lambda>pv. fst pv \<noteq> []) ns)))"
  define g where "g = (\<lambda>(a :: b256, st :: storage_trie_updates). (a, length (filter (\<lambda>pn. fst pn \<noteq> []) (storage_nodes st))))"
  have ts: "distinct (map fst ?ts)" "dom (map_of ?ts) = dom (hm_get (storage_tries u))"
    using sorted_storages [OF wf] by simp_all
  have "map_of (map f ?ts) b = map_of (map g (storage_tries u)) b" for b
  proof (cases "hm_get (storage_tries u) b")
    case None
    then have "map_of ?ts b = None" using ts(2) by blast
    then show ?thesis using None by (simp add: f_def g_def map_of_map)
  next
    case (Some st)
    then have in_set: "(b, st) \<in> set (storage_tries u)" by (rule map_of_SomeD)
    then have "removed_nodes st = []" and "hm_wf (storage_nodes st)"
      using assms by (auto simp: no_removals_def updates_wf_def storage_trie_wf_def)
    then show ?thesis
      using sorted_storage [OF wf Some] Some
      by (auto simp: f_def g_def map_of_map dest: sorted_form_inserts_count)
  qed
  then have same: "map_of (map f ?ts) = map_of (map g (storage_tries u))" by (rule ext)
  have "distinct (map fst (map f ?ts))" and "distinct (map fst (map g (storage_tries u)))"
    using ts(1) wf by (simp_all add: f_def g_def comp_def split_def updates_wf_def hm_wf_def)
  then have "mset (map f ?ts) = mset (map g (storage_tries u))"
    using same by (rule mset_eq_of_map_of_eq)
  then have "image_mset (snd \<circ> f) (mset ?ts) = image_mset (snd \<circ> g) (mset (storage_tries u))"
    unfolding mset_map multiset.map_comp [symmetric] by (rule arg_cong)
  then have "sum_mset (mset (map (snd \<circ> f) (sort_key fst ?ts))) =
      sum_mset (mset (map (snd \<circ> g) (storage_tries u)))" by simp
  then have "sum_list (map (snd \<circ> f) (sort_key fst ?ts)) = sum_list (map (snd \<circ> g) (storage_tries u))"
    unfolding sum_mset_sum_list .
  then show ?thesis by (simp add: f_def g_def comp_def split_def)
qed

lemma write_trie_updates_with_count:
  assumes "write_trie_updates_with db packed u t = Ok (w, t')" and wf: "updates_wf u"
    and nr: "no_removals u" and "rows t = encode_rows db packed m"
  shows "w = length (stored_events (updates_events u))"
proof -
  let ?ns = "sorted_account_nodes (into_sorted db u)"
  let ?ts = "sort_key fst (sorted_storage_tries (into_sorted db u))"
  obtain t1 w2 t2 t3 where c1: "tx_account_cursor db t = Ok t1"
      and a: "write_account_nodes db packed ?ns 0 t1 = Ok (w2, t2)"
      and c2: "tx_storage_cursor db t2 = Ok t3"
      and s: "write_storage_tries db packed ?ts w2 t3 = Ok (w, t')"
    using assms(1) by (auto simp: write_trie_updates_with_def Let_def rbind_eq_Ok)
  have "rows t3 = encode_rows db packed (put_accounts ?ns m)"
    using write_account_nodes_rows [OF a] account_cursor_rows [OF c1] storage_cursor_rows [OF c2]
      assms(4) by simp
  then have w: "w = w2 + (\<Sum>(a, ns) \<leftarrow> ?ts. length (filter (\<lambda>pv. fst pv \<noteq> []) ns))"
    using write_storage_tries_rows [OF s] by blast
  have form: "sorted_form_of (account_nodes u) [] ?ns" and "hm_wf (account_nodes u)"
    using sorted_accounts [OF wf] nr wf by (simp_all add: no_removals_def updates_wf_def)
  note accounts = sorted_form_inserts [OF this] sorted_form_inserts_count [OF this]
  have "None \<notin> snd ` set ?ns"
    using mset_eq_setD [OF accounts(1)] by auto
  then have "w2 = length (filter (\<lambda>pn. fst pn \<noteq> []) (account_nodes u))"
    using write_account_nodes_count [OF a] accounts(2) by simp
  then show ?thesis
    using w storage_tries_count [OF wf nr] by (simp add: length_stored_events)
qed

lemma clear_trie_tables_Ok:
  assumes "clear_trie_tables db d = (d', Ok r)"
  shows "committed d' = Map.empty"
proof -
  obtain t t1 t2 t' where "rows t = committed d" and c: "tx_clear_accounts db t1 = Ok t2"
      "tx_clear_storages db t2 = Ok t'" and d': "committed d' = rows t'"
    using in_tx_Ok [OF assms [unfolded clear_trie_tables_def]] by (auto simp: rbind_eq_Ok)
  show ?thesis
    unfolding d' clear_storages_rows [OF c(2)] clear_accounts_rows [OF c(1)] by auto
qed

lemma clear_trie_tables_Err:
  "clear_trie_tables db d = (d', Err e) \<Longrightarrow> committed d' = committed d"
  unfolding clear_trie_tables_def by (rule in_tx_Err)

end

text \<open>Inserts into an empty part of the table add the nodes that are not roots.\<close>

lemma apply_updates_inserts:
  assumes "no_removals u"
  shows "apply_updates u m = m ++ without_roots (updates_lookup u)"
proof (rule ext, unfold split_paired_all)
  fix a p
  have "removed_nodes (entry_or_default b u) = []" for b
    using assms by (auto simp: no_removals_def entry_or_default_def default_storage_trie_def
        dest: map_of_SomeD split: option.split)
  then show "apply_updates u m (a, p) = (m ++ without_roots (updates_lookup u)) (a, p)"
    using assms by (auto simp: apply_updates_def update_nodes_def no_removals_def without_roots_def
        map_add_def split: option.split)
qed

section \<open>Trie writes leave the other tables alone\<close>

context full_store
begin

lemma write_account_nodes_others:
  "write_account_nodes db packed ns w t = Ok (w', t') \<Longrightarrow> others t' = others t"
proof (induction ns arbitrary: w t)
  case Nil
  then show ?case by simp
next
  case (Cons pv ns)
  obtain p v where pv: "pv = (p, v)" by (cases pv)
  show ?case
  proof (cases v)
    case (Some n)
    then show ?thesis using Cons.prems Cons.IH upsert_others
      by (fastforce simp: pv rbind_eq_Ok split: if_splits)
  next
    case None
    then obtain found t1 where "cur_seek_exact db (account_key db packed p) t = Ok (found, t1)"
        "(if found \<noteq> None then rbind (cur_delete_current db t1)
            (\<lambda>t. write_account_nodes db packed ns (w + 1) t)
          else write_account_nodes db packed ns w t1) = Ok (w', t')"
      using Cons.prems(1) pv by (auto simp: rbind_eq_Ok)
    then show ?thesis using Cons.IH seek_others delete_others
      by (fastforce simp: rbind_eq_Ok split: if_splits)
  qed
qed

lemma write_storage_tries_others:
  "write_storage_tries db packed ts w t = Ok (w', t') \<Longrightarrow> others t' = others t"
  by (induction ts arbitrary: w t) (use write_storage_others in \<open>force simp: rbind_eq_Ok\<close>)+

lemma write_trie_updates_with_others:
  assumes "write_trie_updates_with db packed u t = Ok (w, t')" shows "others t' = others t"
  using assms account_cursor_others storage_cursor_others write_account_nodes_others
    write_storage_tries_others
  by (fastforce simp: write_trie_updates_with_def Let_def rbind_eq_Ok)

lemma clear_trie_tables_others:
  assumes "clear_trie_tables db d = (d', r)" shows "committed_others d' = committed_others d"
proof (cases r)
  case (Inl e)
  then show ?thesis using in_tx_full_Err assms unfolding clear_trie_tables_def by blast
next
  case (Inr x)
  then show ?thesis
    using in_tx_full_Ok [OF assms [unfolded Inr clear_trie_tables_def]]
      clear_accounts_others clear_storages_others by (auto simp: rbind_eq_Ok)
qed

end

section \<open>A database that does not fail\<close>

context reliable_store
begin

lemma write_account_nodes_succeeds: "\<exists>w' t'. write_account_nodes db packed ns w t = Ok (w', t')"
proof (induction ns arbitrary: w t)
  case Nil
  then show ?case by simp
next
  case (Cons pv ns)
  obtain p v where pv: "pv = (p, v)" by (cases pv)
  show ?case
  proof (cases v)
    case (Some n)
    then show ?thesis
      using Cons.IH upsert_succeeds [of "account_key db packed p" n t] by (auto simp: pv)
  next
    case None
    obtain found t1 where seek: "cur_seek_exact db (account_key db packed p) t = Ok (found, t1)"
      using seek_succeeds by blast
    show ?thesis
    proof (cases found)
      case None
      then show ?thesis using Cons.IH seek \<open>v = None\<close> by (simp add: pv)
    next
      case (Some n)
      then obtain t2 where "cur_delete_current db t1 = Ok t2"
        using seek seek_position delete_succeeds by metis
      then show ?thesis using Cons.IH seek Some \<open>v = None\<close> by (simp add: pv)
    qed
  qed
qed

lemma write_storage_tries_succeeds: "\<exists>w' t'. write_storage_tries db packed ts w t = Ok (w', t')"
proof (induction ts arbitrary: w t)
  case Nil
  then show ?case by simp
next
  case (Cons at ts)
  obtain a ns where at: "at = (a, ns)" by (cases at)
  obtain c t1 where "cur_write_storage db packed a ns t = Ok (c, t1)"
    using write_storage_succeeds by blast
  then show ?case using Cons.IH by (simp add: at)
qed

lemma write_trie_updates_with_succeeds: "\<exists>w t'. write_trie_updates_with db packed u t = Ok (w, t')"
proof -
  obtain t1 where t1: "tx_account_cursor db t = Ok t1" using account_cursor_succeeds by blast
  obtain w2 t2 where t2: "write_account_nodes db packed (sorted_account_nodes (into_sorted db u)) 0 t1 = Ok (w2, t2)"
    using write_account_nodes_succeeds by blast
  obtain t3 where "tx_storage_cursor db t2 = Ok t3" using storage_cursor_succeeds by blast
  then show ?thesis
    using t1 t2 write_storage_tries_succeeds by (simp add: write_trie_updates_with_def Let_def)
qed

lemma clear_trie_tables_succeeds: "\<exists>d'. clear_trie_tables db d = (d', Ok ())"
  unfolding clear_trie_tables_def
  using in_tx_succeeds [of d "\<lambda>t. rbind (tx_clear_accounts db t) (\<lambda>t. rbind (tx_clear_storages db t) (\<lambda>t. Ok ((), t)))"]
    clear_accounts_succeeds clear_storages_succeeds by (fastforce simp: rbind_eq_Ok)

end

lemma without_roots_content: "without_roots (content_of es) = content_of (stored_events es)"
proof (rule ext, unfold split_paired_all)
  fix a p
  show "without_roots (content_of es) (a, p) = content_of (stored_events es) (a, p)"
    by (induction es rule: rev_induct) (auto simp: without_roots_def stored_events_def event_key_def)
qed

lemma without_roots_add: "without_roots m ++ without_roots n = without_roots (m ++ n)"
  by (auto simp: without_roots_def map_add_def fun_eq_iff split: option.split)

section \<open>Properties\<close>

context full_store
begin

lemma write_trie_updates_result:
  assumes "updates_wf u" and "write_trie_updates db codec u d = (d', r)"
    and "committed d = encode_rows db (packed_of codec (committed_others d)) m"
  shows "committed_others d' = committed_others d \<and> (case r of
      Err e \<Rightarrow> committed d' = committed d
    | Ok w \<Rightarrow> committed d' = encode_rows db (packed_of codec (committed_others d)) (apply_updates u m) \<and>
        (no_removals u \<longrightarrow> w = length (stored_events (updates_events u))))"
proof (cases r)
  case (Inl e)
  then show ?thesis
    using in_tx_full_Err assms(2) unfolding write_trie_updates_def by fastforce
next
  case (Inr w)
  obtain t t' packed where t: "rows t = committed d" "others t = committed_others d"
      and packed: "uses_packed_trie_keys db codec t = Ok packed"
      and wr: "write_trie_updates_with db packed u t = Ok (w, t')"
      and t': "committed d' = rows t'" "committed_others d' = others t'"
    using in_tx_full_Ok [OF assms(2) [unfolded Inr write_trie_updates_def]] by (auto simp: rbind_eq_Ok)
  have before: "rows t = encode_rows db packed m"
    using uses_packed_Ok [OF packed] t assms(3) by simp
  show ?thesis
    using write_trie_updates_with_rows [OF wr assms(1) before]
      write_trie_updates_with_count [OF wr assms(1) _ before] write_trie_updates_with_others [OF wr]
      uses_packed_Ok [OF packed] t t' Inr by simp
qed

end


definition sample_branch :: "u16 \<Rightarrow> branch_node" where
  "sample_branch m = \<lparr>state_mask = m, tree_mask = 0, hash_mask = 0, hashes = [], root_hash = None\<rparr>"

definition sample_updates :: trie_updates where
  "sample_updates = \<lparr>account_nodes = [([], sample_branch 1), ([2], sample_branch 2)],
     removed_account_nodes = [],
     storage_tries = [(7, \<lparr>storage_nodes = [([1], sample_branch 3), ([], sample_branch 4)], removed_nodes = []\<rparr>),
       (5, \<lparr>storage_nodes = [], removed_nodes = []\<rparr>)]\<rparr>"

lemma sample_updates_wf: "updates_wf sample_updates" "no_removals sample_updates"
  by (auto simp: sample_updates_def updates_wf_def hm_wf_def storage_trie_wf_def no_removals_def)

lemma sample_updates_stored: "stored_events (updates_events sample_updates) =
    [(None, [2], sample_branch 2), (Some 7, [1], sample_branch 3)]"
  by (simp add: stored_events_def updates_events_def sample_updates_def storage_trie_events_def)


text \<open>
  Clearing empties both tables and nothing else; a failed call changes nothing.
\<close>

theorem clear_trie_tables_clears:
  assumes "full_store db rows position committed others committed_others"
    and "clear_trie_tables db d = (d', r)"
  shows "committed_others d' = committed_others d \<and>
    (case r of Ok _ \<Rightarrow> committed d' = Map.empty | Err e \<Rightarrow> committed d' = committed d)"
proof -
  have "trie_store db rows position committed"
    using assms(1) by (simp add: full_store_def scannable_store_def)
  then show ?thesis
    using full_store.clear_trie_tables_others [OF assms] assms(2)
      trie_store.clear_trie_tables_Ok [of db rows position committed d d']
      trie_store.clear_trie_tables_Err [of db rows position committed d d']
    by (cases r) auto
qed

theorem clear_trie_tables_clears_witness:
  "\<exists>d'. clear_trie_tables ref_db (ref_put (Some 3, True, [4]) (Some (sample_branch 1)) (ref_empty True)) = (d', Ok ()) \<and>
    ref_lookup d' (Some 3, True, [4]) = None"
proof -
  obtain d' where run: "clear_trie_tables ref_db
      (ref_put (Some 3, True, [4]) (Some (sample_branch 1)) (ref_empty True)) = (d', Ok ())"
    using ref_store.clear_trie_tables_succeeds by blast
  show ?thesis using run clear_trie_tables_clears [OF ref_store.full_store_axioms run] by simp
qed

end
