(* ===== verification/Chunk_Writer.thy ===== *)
theory Chunk_Writer
  imports Table_Writes
begin

text \<open>
  The writer of the chunked sink (\<^verbatim>\<open>writer.rs\<close>): one iteration of its loop, and the loop over the
  nodes it receives. Every state the tables can be seen in holds the nodes of whole chunks; a loop
  that ends without an error has committed all of them.
\<close>

section \<open>The writer loop\<close>

definition default_chunk_nodes :: nat where "default_chunk_nodes = 100000"

definition channel_capacity :: nat where "channel_capacity = 2 ^ 16"

record written =
  wr_nodes :: nat
  wr_chunks :: nat

text \<open>
  The writer thread is running, with its database, its totals, its chunk and the number of pending
  nodes, or it has ended with a result or a panic. \<open>debug\<close> says whether debug assertions are on.
\<close>

datatype 'd writer_thread =
    Running 'd written trie_updates nat
  | Ended 'd "(db_error + written) outcome"

definition commit_chunk ::
    "('d, 't, 'k) trie_db \<Rightarrow> bool \<Rightarrow> trie_updates \<Rightarrow> 'd \<Rightarrow> 'd \<times> (db_error + nat)" where
  "commit_chunk db packed chunk d = in_tx db d (write_trie_updates_with db packed chunk)"

text \<open>One iteration of the loop over the receiver.\<close>

fun writer_receive :: "('d, 't, 'k) trie_db \<Rightarrow> bool \<Rightarrow> bool \<Rightarrow> nat \<Rightarrow> node_event \<Rightarrow>
    'd writer_thread \<Rightarrow> 'd writer_thread" where
  "writer_receive db packed debug chunk_nodes e (Ended d r) = Ended d r"
| "writer_receive db packed debug chunk_nodes e (Running d written chunk pending) =
     (let prev = updates_prev e chunk; chunk' = updates_insert e chunk in
      if debug \<and> prev \<noteq> None then Ended d (Panics ''node emitted twice'')
      else if pending + 1 \<ge> chunk_nodes then
        (case commit_chunk db packed chunk' d of
           (d', r) \<Rightarrow> (case r of
             Err err \<Rightarrow> Ended d' (Returns (Err err))
           | Ok n \<Rightarrow> Running d' (written\<lparr>wr_nodes := wr_nodes written + n,
               wr_chunks := wr_chunks written + 1\<rparr>) default_updates 0))
      else Running d written chunk' (pending + 1))"

text \<open>The end of the loop: the last chunk, if it holds anything.\<close>

fun writer_flush :: "('d, 't, 'k) trie_db \<Rightarrow> bool \<Rightarrow> 'd writer_thread \<Rightarrow> 'd writer_thread" where
  "writer_flush db packed (Ended d r) = Ended d r"
| "writer_flush db packed (Running d written chunk pending) =
     (if pending > 0 then
        (case commit_chunk db packed chunk d of
           (d', r) \<Rightarrow> (case r of
             Err err \<Rightarrow> Ended d' (Returns (Err err))
           | Ok n \<Rightarrow> Ended d' (Returns (Ok (written\<lparr>wr_nodes := wr_nodes written + n,
               wr_chunks := wr_chunks written + 1\<rparr>)))))
      else Ended d (Returns (Ok written)))"

definition writer_start :: "'d \<Rightarrow> 'd writer_thread" where
  "writer_start d = Running d \<lparr>wr_nodes = 0, wr_chunks = 0\<rparr> default_updates 0"

definition write_chunks :: "('d, 't, 'k) trie_db \<Rightarrow> bool \<Rightarrow> bool \<Rightarrow> nat \<Rightarrow> node_event list \<Rightarrow> 'd \<Rightarrow>
    'd writer_thread" where
  "write_chunks db packed debug chunk_nodes receiver d =
     writer_flush db packed (fold (writer_receive db packed debug chunk_nodes) receiver (writer_start d))"

fun is_running :: "'d writer_thread \<Rightarrow> bool" where
  "is_running (Running d written chunk pending) = True"
| "is_running (Ended d r) = False"

section \<open>A commit adds the nodes of its chunk\<close>

lemma no_removals_insert: "no_removals u \<Longrightarrow> no_removals (updates_insert e u)"
proof -
  assume nr: "no_removals u"
  obtain a p n where e: "e = (a, p, n)" by (cases e)
  show ?thesis
  proof (cases a)
    case None
    then show ?thesis using nr by (simp add: no_removals_def updates_insert_def e)
  next
    case (Some b)
    let ?t = "entry_or_default b u"
    have "removed_nodes ?t = []"
      using nr by (auto simp: no_removals_def entry_or_default_def default_storage_trie_def
          dest: map_of_SomeD split: option.split)
    then show ?thesis
      using nr set_hm_insert [of b "?t\<lparr>storage_nodes := hm_insert p n (storage_nodes ?t)\<rparr>" "storage_tries u"]
      by (auto simp: no_removals_def updates_insert_def e Some Let_def)
  qed
qed

lemma no_removals_inserts: "no_removals (fold updates_insert es default_updates)"
proof -
  have "no_removals u \<Longrightarrow> no_removals (fold updates_insert es u)" for u
    by (induction es arbitrary: u) (auto simp: no_removals_insert)
  moreover have "no_removals default_updates" by (simp add: no_removals_def default_updates_def)
  ultimately show ?thesis by blast
qed

lemma events_of_inserts:
  assumes "distinct (map event_key es)"
  shows "mset (updates_events (fold updates_insert es default_updates)) = mset es"
  by (rule mset_events_of_lookup) (auto simp: assms updates_wf_inserts updates_lookup_inserts)

lemma stored_events_append: "stored_events (es @ fs) = stored_events es @ stored_events fs"
  by (simp add: stored_events_def)

context trie_store
begin

lemma commit_chunk_Ok:
  assumes "commit_chunk db packed (fold updates_insert es default_updates) d = (d', Ok n)"
    and "committed d = encode_rows db packed m"
  shows "committed d' = encode_rows db packed (m ++ content_of (stored_events es)) \<and>
    (distinct (map event_key es) \<longrightarrow> n = length (stored_events es))"
proof -
  let ?u = "fold updates_insert es default_updates"
  have wf: "updates_wf ?u" by (simp add: updates_wf_inserts)
  obtain t t' where "rows t = committed d" and wr: "write_trie_updates_with db packed ?u t = Ok (n, t')"
      and t': "committed d' = rows t'"
    using in_tx_Ok [OF assms(1) [unfolded commit_chunk_def]] by blast
  then have before: "rows t = encode_rows db packed m" using assms(2) by simp
  have "distinct (map event_key es) \<longrightarrow> length (stored_events (updates_events ?u)) = length (stored_events es)"
    unfolding stored_events_def using length_filter_mset [OF events_of_inserts] by blast
  then show ?thesis
    using write_trie_updates_with_rows [OF wr wf before] t'
      write_trie_updates_with_count [OF wr wf no_removals_inserts before]
    by (simp add: apply_updates_inserts no_removals_inserts updates_lookup_inserts without_roots_content)
qed

lemma commit_chunk_Err:
  "commit_chunk db packed u d = (d', Err e) \<Longrightarrow> committed d' = committed d"
  unfolding commit_chunk_def by (rule in_tx_Err)

end

fun writer_db :: "'d writer_thread \<Rightarrow> 'd" where
  "writer_db (Running d written chunk pending) = d"
| "writer_db (Ended d r) = d"

context full_store
begin

lemma commit_chunk_others:
  "commit_chunk db packed u d = (d', r) \<Longrightarrow> committed_others d' = committed_others d"
  unfolding commit_chunk_def by (rule in_tx_keeps_others) (auto dest: write_trie_updates_with_others)

lemma writer_receive_others:
  "committed_others (writer_db (writer_receive db packed debug c e w)) = committed_others (writer_db w)"
proof (cases w)
  case (Running d written chunk pending)
  obtain d' r where "commit_chunk db packed (updates_insert e chunk) d = (d', r)" by fastforce
  with commit_chunk_others [OF this] show ?thesis
    by (cases r) (auto simp: Running Let_def)
qed simp

lemma writer_flush_others:
  "committed_others (writer_db (writer_flush db packed w)) = committed_others (writer_db w)"
proof (cases w)
  case (Running d written chunk pending)
  obtain d' r where "commit_chunk db packed chunk d = (d', r)" by fastforce
  with commit_chunk_others [OF this] show ?thesis by (cases r) (auto simp: Running)
qed simp

lemma write_chunks_others:
  "write_chunks db packed debug c es d = Ended d' r \<Longrightarrow> committed_others d' = committed_others d"
proof -
  assume run: "write_chunks db packed debug c es d = Ended d' r"
  have "committed_others (writer_db (fold (writer_receive db packed debug c) es w)) = committed_others (writer_db w)" for w
    by (induction es arbitrary: w) (simp_all add: writer_receive_others)
  then have "committed_others (writer_db (write_chunks db packed debug c es d)) = committed_others d"
    by (simp add: write_chunks_def writer_flush_others writer_start_def)
  then show ?thesis using run by simp
qed

end

section \<open>What the writer holds and has committed\<close>

text \<open>
  After receiving \<open>es\<close>: the tables hold the first nodes, in whole chunks, on top of what they
  held before (\<open>m\<close>), and the chunk of a running writer the rest.
\<close>

definition writer_progress :: "('d, 't, 'k) trie_db \<Rightarrow> ('d \<Rightarrow> 'k table_rows) \<Rightarrow> bool \<Rightarrow> nat \<Rightarrow>
    table_content \<Rightarrow> node_event list \<Rightarrow> 'd writer_thread \<Rightarrow> bool" where
  "writer_progress db committed packed c m es w = (case w of
     Running d written chunk pending \<Rightarrow>
       wr_chunks written * c + pending = length es \<and> pending < c \<and>
       chunk = fold updates_insert (drop (wr_chunks written * c) es) default_updates \<and>
       committed d = encode_rows db packed (m ++ content_of (stored_events (take (wr_chunks written * c) es))) \<and>
       (distinct (map event_key es) \<longrightarrow> wr_nodes written = length (stored_events (take (wr_chunks written * c) es)))
   | Ended d r \<Rightarrow> (\<forall>wr. r \<noteq> Returns (Ok wr)) \<and> (\<exists>k. k * c \<le> length es \<and>
       committed d = encode_rows db packed (m ++ content_of (stored_events (take (k * c) es)))))"

lemma writer_progress_Ended:
  "writer_progress db committed packed c m es (Ended d r) \<longleftrightarrow> (\<forall>wr. r \<noteq> Returns (Ok wr)) \<and>
     (\<exists>k. k * c \<le> length es \<and> committed d = encode_rows db packed (m ++ content_of (stored_events (take (k * c) es))))"
  by (simp add: writer_progress_def)

lemma writer_progress_start:
  "0 < c \<Longrightarrow> committed d = encode_rows db packed m \<Longrightarrow>
   writer_progress db committed packed c m [] (writer_start d)"
  by (simp add: writer_progress_def writer_start_def stored_events_def)

context trie_store
begin

lemma writer_receive_progress:
  assumes "writer_progress db committed packed c m es w" and "0 < c"
  shows "writer_progress db committed packed c m (es @ [e]) (writer_receive db packed debug c e w)"
proof (cases w)
  case (Ended d r)
  then obtain k where "k * c \<le> length es" "\<forall>wr. r \<noteq> Returns (Ok wr)"
      "committed d = encode_rows db packed (m ++ content_of (stored_events (take (k * c) es)))"
    using assms(1) by (auto simp: writer_progress_Ended)
  then show ?thesis by (auto simp: Ended writer_progress_Ended intro!: exI [of _ k])
next
  case (Running d written chunk pending)
  let ?n = "wr_chunks written * c"
  let ?u = "updates_insert e chunk"
  have len: "?n + pending = length es" "pending < c"
    and chunk: "chunk = fold updates_insert (drop ?n es) default_updates"
    and com: "committed d = encode_rows db packed (m ++ content_of (stored_events (take ?n es)))"
    and cnt: "distinct (map event_key es) \<longrightarrow> wr_nodes written = length (stored_events (take ?n es))"
    using assms(1) by (simp_all add: Running writer_progress_def)
  have u: "?u = fold updates_insert (drop ?n es @ [e]) default_updates" by (simp add: chunk)
  have n: "?n \<le> length es" using len by simp
  then have stopped: "writer_progress db committed packed c m (es @ [e]) (Ended d' r)"
    if "committed d' = committed d" "\<forall>wr. r \<noteq> Returns (Ok wr)" for d' r
    using that com by (auto simp: writer_progress_Ended intro!: exI [of _ "wr_chunks written"])
  show ?thesis
  proof (cases "debug \<and> updates_prev e chunk \<noteq> None")
    case True
    then show ?thesis using stopped by (simp add: Running Let_def)
  next
    case no_panic: False
    show ?thesis
    proof (cases "pending + 1 \<ge> c")
      case False
      then show ?thesis using no_panic len n com cnt
        by (auto simp: Running writer_progress_def u simp del: fold_append)
    next
      case True
      obtain d' r where commit: "commit_chunk db packed ?u d = (d', r)" by fastforce
      show ?thesis
      proof (cases r)
        case (Inl err)
        then have "writer_receive db packed debug c e w = Ended d' (Returns (Err err))"
          using commit True no_panic by (simp add: Running Let_def)
        moreover have "committed d' = committed d" using commit Inl commit_chunk_Err by blast
        ultimately show ?thesis using stopped [of d' "Returns (Err err)"] by simp
      next
        case (Inr k)
        let ?new = "drop ?n es @ [e]"
        have k: "committed d' = encode_rows db packed (m ++ content_of (stored_events (take ?n es)) ++
            content_of (stored_events ?new))" "distinct (map event_key ?new) \<longrightarrow> k = length (stored_events ?new)"
          using commit_chunk_Ok [OF commit [unfolded Inr u] com] by simp_all
        have all: "take ?n es @ ?new = es @ [e]" by simp
        have "content_of (stored_events (take ?n es)) ++ content_of (stored_events ?new) =
            content_of (stored_events (es @ [e]))"
          unfolding content_of_append [symmetric] stored_events_append [symmetric] all ..
        then have "committed d' = encode_rows db packed (m ++ content_of (stored_events (es @ [e])))"
          using k(1) by (simp only: map_add_assoc [symmetric])
        moreover have "wr_nodes written + k = length (stored_events (es @ [e]))"
          if "distinct (map event_key (es @ [e]))"
        proof -
          have "distinct (map event_key (take ?n es @ ?new))" using that by (simp only: all)
          then have "distinct (map event_key es)" "distinct (map event_key ?new)" using that by simp_all
          then have "wr_nodes written + k = length (stored_events (take ?n es @ ?new))"
            using cnt k(2) by (simp add: stored_events_append)
          then show ?thesis by (simp only: all)
        qed
        moreover have "(wr_chunks written + 1) * c = length (es @ [e])" using len True by simp
        moreover have "writer_receive db packed debug c e w = Running d' (written\<lparr>wr_nodes := wr_nodes written + k,
            wr_chunks := wr_chunks written + 1\<rparr>) default_updates 0"
          unfolding Running writer_receive.simps Let_def using no_panic True commit Inr by auto
        ultimately show ?thesis using len assms(2) by (simp add: writer_progress_def)
      qed
    qed
  qed
qed

lemma writer_receives_progress:
  assumes "0 < c" and "committed d = encode_rows db packed m"
  shows "writer_progress db committed packed c m es (fold (writer_receive db packed debug c) es (writer_start d))"
  by (induction es rule: rev_induct)
    (simp_all add: writer_progress_start assms writer_receive_progress)

end

lemma chunk_count:
  assumes "chunks * c + pending = n" and "pending < (c :: nat)"
  shows "(if 0 < pending then chunks + 1 else chunks) = (n + c - 1) div c"
proof -
  have "(n + c - 1) div c = chunks + (pending + c - 1) div c"
  proof -
    have "n + c - 1 = (pending + c - 1) + chunks * c" using assms by simp
    moreover have "((pending + c - 1) + chunks * c) div c = chunks + (pending + c - 1) div c"
      by (rule div_mult_self1) (use assms(2) in simp)
    ultimately show ?thesis by simp
  qed
  moreover have "(pending + c - 1) div c = (if 0 < pending then 1 else 0)"
    using assms(2) by (auto simp: div_nat_eqI)
  ultimately show ?thesis by auto
qed

context trie_store
begin

lemma writer_flush_progress:
  assumes "writer_progress db committed packed c m es w"
  shows "\<exists>d r. writer_flush db packed w = Ended d r \<and> (case r of
      Returns (Ok wr) \<Rightarrow> committed d = encode_rows db packed (m ++ content_of (stored_events es)) \<and>
        wr_chunks wr = (length es + c - 1) div c \<and>
        (distinct (map event_key es) \<longrightarrow> wr_nodes wr = length (stored_events es))
    | _ \<Rightarrow> \<exists>k. k * c \<le> length es \<and>
        committed d = encode_rows db packed (m ++ content_of (stored_events (take (k * c) es))))"
proof (cases w)
  case (Ended d r)
  then show ?thesis using assms
    by (auto simp: writer_progress_Ended split: outcome.splits sum.splits)
next
  case (Running d written chunk pending)
  let ?n = "wr_chunks written * c"
  have len: "?n + pending = length es" "pending < c"
    and chunk: "chunk = fold updates_insert (drop ?n es) default_updates"
    and com: "committed d = encode_rows db packed (m ++ content_of (stored_events (take ?n es)))"
    and cnt: "distinct (map event_key es) \<longrightarrow> wr_nodes written = length (stored_events (take ?n es))"
    using assms(1) by (simp_all add: Running writer_progress_def)
  note chunks = chunk_count [OF len]
  show ?thesis
  proof (cases "0 < pending")
    case False
    then have "take ?n es = es" using len by simp
    then show ?thesis using False com cnt chunks by (simp add: Running)
  next
    case True
    obtain d' r where commit: "commit_chunk db packed chunk d = (d', r)" by fastforce
    show ?thesis
    proof (cases r)
      case (Inl err)
      then have "committed d' = committed d" using commit commit_chunk_Err by blast
      moreover have "?n \<le> length es" using len by simp
      ultimately show ?thesis using True commit Inl com
        by (auto simp: Running intro!: exI [of _ "wr_chunks written"])
    next
      case (Inr k)
      have k: "committed d' = encode_rows db packed (m ++ content_of (stored_events (take ?n es)) ++
          content_of (stored_events (drop ?n es)))"
          "distinct (map event_key (drop ?n es)) \<longrightarrow> k = length (stored_events (drop ?n es))"
        using commit_chunk_Ok [OF commit [unfolded Inr chunk] com] by simp_all
      have "content_of (stored_events (take ?n es)) ++ content_of (stored_events (drop ?n es)) =
          content_of (stored_events es)"
        unfolding content_of_append [symmetric] stored_events_append [symmetric] append_take_drop_id ..
      then have "committed d' = encode_rows db packed (m ++ content_of (stored_events es))"
        using k(1) by (simp only: map_add_assoc [symmetric])
      moreover have "wr_nodes written + k = length (stored_events es)" if d: "distinct (map event_key es)"
      proof -
        have "distinct (map event_key (drop ?n es))" using d by (simp add: drop_map [symmetric])
        then have "wr_nodes written + k = length (stored_events (take ?n es @ drop ?n es))"
          using cnt k(2) d unfolding stored_events_append length_append by simp
        then show ?thesis by simp
      qed
      ultimately show ?thesis using True commit Inr chunks by (simp add: Running)
    qed
  qed
qed

text \<open>The loop on any database: what its tables hold at the end.\<close>

lemma write_chunks_result:
  assumes "0 < c" and "committed d = encode_rows db packed m"
  shows "\<exists>d' r. write_chunks db packed debug c es d = Ended d' r \<and> (case r of
      Returns (Ok wr) \<Rightarrow> committed d' = encode_rows db packed (m ++ content_of (stored_events es)) \<and>
        wr_chunks wr = (length es + c - 1) div c \<and>
        (distinct (map event_key es) \<longrightarrow> wr_nodes wr = length (stored_events es))
    | _ \<Rightarrow> \<exists>k. k * c \<le> length es \<and>
        committed d' = encode_rows db packed (m ++ content_of (stored_events (take (k * c) es))))"
  unfolding write_chunks_def
  by (rule writer_flush_progress [OF writer_receives_progress [OF assms]])

end

context reliable_store
begin

lemma commit_chunk_succeeds: "\<exists>d' n. commit_chunk db packed u d = (d', Ok n)"
  unfolding commit_chunk_def
  by (rule in_tx_succeeds) (rule write_trie_updates_with_succeeds)

lemma writer_receives_running:
  assumes "0 < c" and "committed d = encode_rows db packed m" and "debug \<Longrightarrow> distinct (map event_key es)"
  shows "is_running (fold (writer_receive db packed debug c) es (writer_start d))"
  using assms(3)
proof (induction es rule: rev_induct)
  case Nil
  then show ?case by (simp add: writer_start_def)
next
  case (snoc e es)
  let ?w = "fold (writer_receive db packed debug c) es (writer_start d)"
  have "is_running ?w" using snoc by simp
  then obtain d1 written chunk pending where w: "?w = Running d1 written chunk pending"
    by (cases ?w) auto
  have "writer_progress db committed packed c m es ?w"
    by (rule writer_receives_progress [OF assms(1,2)])
  then have chunk: "chunk = fold updates_insert (drop (wr_chunks written * c) es) default_updates"
    by (simp add: w writer_progress_def)
  have "updates_prev e chunk = None" if debug
  proof -
    have "event_key e \<notin> event_key ` set es" using snoc.prems that by simp
    then have "event_key e \<notin> event_key ` set (drop (wr_chunks written * c) es)"
      by (meson image_mono set_drop_subset subsetD)
    then show ?thesis
      by (simp add: updates_prev_lookup chunk updates_lookup_inserts content_of_eq_None)
  qed
  moreover obtain d2 n where "commit_chunk db packed (updates_insert e chunk) d1 = (d2, Ok n)"
    using commit_chunk_succeeds by blast
  ultimately show ?case by (auto simp: w Let_def)
qed

lemma writer_flush_succeeds:
  "is_running w \<Longrightarrow> \<exists>d' wr. writer_flush db packed w = Ended d' (Returns (Ok wr))"
proof (cases w)
  case (Running d written chunk pending)
  obtain d2 n where "commit_chunk db packed chunk d = (d2, Ok n)" using commit_chunk_succeeds by blast
  then show ?thesis by (simp add: Running)
qed simp

lemma write_chunks_succeeds:
  assumes "0 < c" and "committed d = encode_rows db packed m" and "debug \<Longrightarrow> distinct (map event_key es)"
  shows "\<exists>d' wr. write_chunks db packed debug c es d = Ended d' (Returns (Ok wr)) \<and>
    committed d' = encode_rows db packed (m ++ content_of (stored_events es)) \<and>
    wr_chunks wr = (length es + c - 1) div c \<and>
    (distinct (map event_key es) \<longrightarrow> wr_nodes wr = length (stored_events es))"
proof -
  obtain d' wr where "write_chunks db packed debug c es d = Ended d' (Returns (Ok wr))"
    unfolding write_chunks_def using writer_flush_succeeds [OF writer_receives_running [OF assms]] by blast
  then show ?thesis using write_chunks_result [OF assms(1,2), of debug es] by auto
qed

end

section \<open>A writer that has ended\<close>

lemma fold_receive_Ended: "fold (writer_receive db packed debug c) es (Ended d r) = Ended d r"
  by (induction es) auto

lemma receive_not_Ok:
  "is_running w \<Longrightarrow> writer_receive db packed debug c e w \<noteq> Ended d (Returns (Ok wr))"
  by (cases w) (auto simp: Let_def split: prod.splits sum.splits if_splits)

lemma flush_Ended: "\<not> is_running (writer_flush db packed w)"
  by (cases w) (auto split: prod.splits sum.splits if_splits)

lemma Ended_cases: "\<not> is_running w \<Longrightarrow> \<exists>d r. w = Ended d r"
  by (cases w) auto

section \<open>Properties\<close>

text \<open>
  On a database that does not fail, the writer commits everything it receives: on top of what
  the tables held, they hold the last node received for each non-empty path, the number of
  transactions is the number of nodes divided by the chunk size, rounded up, and for nodes with
  different keys the number of entries written is the number of nodes that are not roots. With
  debug assertions it does not panic on nodes with different keys.
\<close>

theorem write_chunks_commits_all:
  assumes "reliable_store db rows position committed others committed_others"
    and "0 < c" and "committed d = encode_rows db packed m"
    and "debug \<Longrightarrow> distinct (map event_key es)"
  shows "\<exists>d' wr. write_chunks db packed debug c es d = Ended d' (Returns (Ok wr)) \<and>
    committed d' = encode_rows db packed (m ++ content_of (stored_events es)) \<and>
    wr_chunks wr = (length es + c - 1) div c \<and>
    (distinct (map event_key es) \<longrightarrow> wr_nodes wr = length (stored_events es))"
  by (rule reliable_store.write_chunks_succeeds [OF assms])

definition sample_events :: "node_event list" where
  "sample_events = [(None, [2], sample_branch 2), (Some 7, [], sample_branch 4), (Some 7, [1], sample_branch 3)]"

lemma sample_events_distinct: "distinct (map event_key sample_events)"
  by (simp add: sample_events_def)

lemma ref_empty_encodes: "ref_lookup (ref_empty b) = encode_rows ref_db packed Map.empty"
  by simp

theorem write_chunks_commits_all_witness:
  "\<exists>d' wr. write_chunks ref_db True True 2 sample_events (ref_empty True) = Ended d' (Returns (Ok wr)) \<and>
    wr_chunks wr = 2 \<and> wr_nodes wr = 2"
proof -
  have stored: "length (stored_events sample_events) = 2" and len: "length sample_events = 3"
    by (simp_all add: stored_events_def sample_events_def)
  show ?thesis
    using write_chunks_commits_all [OF ref_store.reliable_store_axioms _ ref_empty_encodes [of True]
        sample_events_distinct, where c = 2 and packed = True and debug = True]
      sample_events_distinct by (auto simp: stored len)
qed

text \<open>
  C13: Whatever fails, the writer stops at a chunk boundary: after an error or a failed assertion
  the tables hold, on top of what they held, exactly the nodes of some first whole chunks, and a
  result without error means that all nodes are committed.
\<close>

theorem write_chunks_stops_at_chunk:
  assumes "trie_store db rows position committed" and "0 < c" and "committed d = encode_rows db packed m"
  shows "\<exists>d' r. write_chunks db packed debug c es d = Ended d' r \<and> (case r of
      Returns (Ok wr) \<Rightarrow> committed d' = encode_rows db packed (m ++ content_of (stored_events es)) \<and>
        wr_chunks wr = (length es + c - 1) div c \<and>
        (distinct (map event_key es) \<longrightarrow> wr_nodes wr = length (stored_events es))
    | _ \<Rightarrow> \<exists>k. k * c \<le> length es \<and>
        committed d' = encode_rows db packed (m ++ content_of (stored_events (take (k * c) es))))"
  by (rule trie_store.write_chunks_result [OF assms])

theorem write_chunks_stops_at_chunk_witness:
  "\<exists>d' r. write_chunks ref_db False True 2 (sample_events @ sample_events) (ref_empty False) = Ended d' r"
  using write_chunks_stops_at_chunk [OF ref_store.trie_store_axioms _ ref_empty_encodes [of False],
      where c = 2 and packed = False and debug = True and es = "sample_events @ sample_events"]
  by auto

end
