(* ===== verification/Write_Sink.thy ===== *)
theory Write_Sink
  imports Chunk_Writer
begin

text \<open>
  The sink in front of the chunk writer (\<^verbatim>\<open>writer.rs\<close>): its bounded channel, the writer thread
  behind it and the partition workers, as a step relation. The threads refine the loop; a
  run ends, is never blocked, and its result does not depend on the schedule.
\<close>

section \<open>The sink, its channel and the workers\<close>

text \<open>
  A run of the sink: what each worker still emits, the workers that panicked, whether the sink
  still holds its sender, the nodes in the channel, and the writer thread.
\<close>

record 'd write_run =
  run_workers :: "node_event list list"
  run_panicked :: "nat set"
  run_sender :: bool
  run_queue :: "node_event list"
  run_writer :: "'d writer_thread"

definition new_write_sink :: "('d, 't, 'k) trie_db \<Rightarrow> 'st settings_codec \<Rightarrow> 'd \<Rightarrow> nat \<Rightarrow>
    node_event list list \<Rightarrow> db_error + bool \<times> nat \<times> 'd write_run" where
  "new_write_sink db codec d chunk_nodes workers =
     rbind (db_tx db d) (\<lambda>t. rbind (uses_packed_trie_keys db codec t) (\<lambda>packed.
       Ok (packed, max chunk_nodes 1, \<lparr>run_workers = workers, run_panicked = {}, run_sender = True,
         run_queue = [], run_writer = writer_start d\<rparr>)))"

text \<open>
  \<^verbatim>\<open>on_branch_node\<close> sends while the channel has room and fails once the receiver is gone;
  \<^verbatim>\<open>finish\<close> drops the sender when the workers are done; the receiver yields nodes in order
  and ends when the channel is empty and the sender dropped. A writer that ends drops what is queued.
\<close>

inductive write_step :: "('d, 't, 'k) trie_db \<Rightarrow> bool \<Rightarrow> bool \<Rightarrow> nat \<Rightarrow> nat \<Rightarrow>
    'd write_run \<Rightarrow> 'd write_run \<Rightarrow> bool"
  for db packed debug capacity chunk_nodes where
  worker_sends: "i < length (run_workers s) \<Longrightarrow> run_workers s ! i = e # es \<Longrightarrow> run_sender s \<Longrightarrow>
    is_running (run_writer s) \<Longrightarrow> length (run_queue s) < capacity \<Longrightarrow>
    write_step db packed debug capacity chunk_nodes s
      (s\<lparr>run_workers := (run_workers s)[i := es], run_queue := run_queue s @ [e]\<rparr>)"
| worker_panics: "i < length (run_workers s) \<Longrightarrow> run_workers s ! i = e # es \<Longrightarrow> run_sender s \<Longrightarrow>
    \<not> is_running (run_writer s) \<Longrightarrow>
    write_step db packed debug capacity chunk_nodes s
      (s\<lparr>run_workers := (run_workers s)[i := []], run_panicked := insert i (run_panicked s)\<rparr>)"
| writer_receives: "run_queue s = e # q \<Longrightarrow> is_running (run_writer s) \<Longrightarrow>
    w = writer_receive db packed debug chunk_nodes e (run_writer s) \<Longrightarrow>
    write_step db packed debug capacity chunk_nodes s
      (s\<lparr>run_queue := (if is_running w then q else []), run_writer := w\<rparr>)"
| sender_dropped: "\<forall>es \<in> set (run_workers s). es = [] \<Longrightarrow> run_sender s \<Longrightarrow>
    write_step db packed debug capacity chunk_nodes s (s\<lparr>run_sender := False\<rparr>)"
| writer_ends: "run_queue s = [] \<Longrightarrow> \<not> run_sender s \<Longrightarrow> is_running (run_writer s) \<Longrightarrow>
    write_step db packed debug capacity chunk_nodes s
      (s\<lparr>run_writer := writer_flush db packed (run_writer s)\<rparr>)"

inductive_simps write_step_iff: "write_step db packed debug capacity chunk_nodes s s'"

text \<open>\<^verbatim>\<open>finish\<close> joins the writer, once it has ended.\<close>

fun finish_result :: "'d writer_thread \<Rightarrow> (db_error + written) outcome option" where
  "finish_result (Running d written chunk pending) = None"
| "finish_result (Ended d (Returns r)) = Some (Returns r)"
| "finish_result (Ended d (Panics msg)) = Some (Panics ''writer thread panicked'')"

section \<open>Runs with the workers\<close>

abbreviation "write_steps db packed debug capacity c \<equiv> (write_step db packed debug capacity c)\<^sup>*\<^sup>*"

definition all_done :: "node_event list list \<Rightarrow> bool" where
  "all_done ws \<longleftrightarrow> (\<forall>es \<in> set ws. es = [])"

text \<open>
  \<open>ws0\<close> is what the workers emit, \<open>d0\<close> the database before. While the writer runs, what it has
  received and the queue are the start of a schedule; once it has ended, it is in the state of the
  sequential loop on a schedule.
\<close>

definition run_inv :: "('d, 't, 'k) trie_db \<Rightarrow> bool \<Rightarrow> bool \<Rightarrow> nat \<Rightarrow> nat \<Rightarrow> node_event list list \<Rightarrow> 'd \<Rightarrow>
    'd write_run \<Rightarrow> bool" where
  "run_inv db packed debug capacity c ws0 d0 s \<longleftrightarrow>
     length (run_queue s) \<le> capacity \<and> (\<not> run_sender s \<longrightarrow> all_done (run_workers s)) \<and>
     (if is_running (run_writer s) then run_panicked s = {} \<and>
        (\<exists>received. run_writer s = fold (writer_receive db packed debug c) received (writer_start d0) \<and>
          (\<forall>fs. interleaves (run_workers s) fs \<longrightarrow> interleaves ws0 (received @ run_queue s @ fs)))
      else run_queue s = [] \<and>
        (\<exists>es. interleaves ws0 es \<and> run_writer s = write_chunks db packed debug c es d0) \<and>
        (\<forall>d wr. run_writer s = Ended d (Returns (Ok wr)) \<longrightarrow>
          run_panicked s = {} \<and> all_done (run_workers s)))"

definition run_start :: "node_event list list \<Rightarrow> 'd \<Rightarrow> 'd write_run" where
  "run_start ws d = \<lparr>run_workers = ws, run_panicked = {}, run_sender = True, run_queue = [],
     run_writer = writer_start d\<rparr>"

lemma run_inv_start: "run_inv db packed debug capacity c ws d (run_start ws d)"
  by (simp add: run_inv_def run_start_def writer_start_def exI [of _ "[]"])

lemma all_done_update: "all_done ws \<Longrightarrow> i < length ws \<Longrightarrow> ws ! i \<noteq> [] \<Longrightarrow> False"
  by (auto simp: all_done_def)

lemma all_done_interleaves: "all_done ws \<Longrightarrow> interleaves ws []"
  by (auto simp: all_done_def intro: nothing_left)

lemma run_inv_step:
  assumes "write_step db packed debug capacity c s s'" and "run_inv db packed debug capacity c ws0 d0 s"
  shows "run_inv db packed debug capacity c ws0 d0 s'"
  using assms
proof cases
  case (worker_sends i e es)
  obtain received where r: "run_writer s = fold (writer_receive db packed debug c) received (writer_start d0)"
      "\<forall>fs. interleaves (run_workers s) fs \<longrightarrow> interleaves ws0 (received @ run_queue s @ fs)"
    using assms(2) worker_sends by (auto simp: run_inv_def)
  have "interleaves ws0 (received @ (run_queue s @ [e]) @ fs)"
    if "interleaves ((run_workers s)[i := es]) fs" for fs
    using r(2) take_turn [OF worker_sends(2,3) that] by simp
  then show ?thesis
    using assms(2) worker_sends r(1) unfolding worker_sends(1) by (auto simp: run_inv_def)
next
  case (worker_panics i e es)
  then have "\<not> all_done (run_workers s)" using all_done_update [of "run_workers s" i] by auto
  then show ?thesis using assms(2) worker_panics by (auto simp: run_inv_def)
next
  case (writer_receives e q w)
  obtain received where r: "run_writer s = fold (writer_receive db packed debug c) received (writer_start d0)"
      "\<forall>fs. interleaves (run_workers s) fs \<longrightarrow> interleaves ws0 (received @ run_queue s @ fs)"
    using assms(2) writer_receives by (auto simp: run_inv_def)
  have w: "w = fold (writer_receive db packed debug c) (received @ [e]) (writer_start d0)"
    using writer_receives r(1) by simp
  have sched: "interleaves ws0 ((received @ [e]) @ q @ fs)" if "interleaves (run_workers s) fs" for fs
    using r(2) that writer_receives by simp
  show ?thesis
  proof (cases "is_running w")
    case True
    then show ?thesis
      using assms(2) writer_receives w sched by (auto simp: run_inv_def intro!: exI [of _ "received @ [e]"])
  next
    case False
    then obtain d r where Ended: "w = Ended d r" using Ended_cases by blast
    let ?es = "(received @ [e]) @ q @ concat (run_workers s)"
    have "fold (writer_receive db packed debug c) ?es (writer_start d0) =
        fold (writer_receive db packed debug c) (q @ concat (run_workers s)) w"
      unfolding w by (simp only: fold_append comp_def)
    then have "w = write_chunks db packed debug c ?es d0"
      unfolding write_chunks_def by (simp only: Ended fold_receive_Ended writer_flush.simps)
    moreover have "interleaves ws0 ?es" by (rule sched [OF interleaves_concat])
    moreover have "\<forall>d wr. w \<noteq> Ended d (Returns (Ok wr))"
      using receive_not_Ok writer_receives by metis
    ultimately show ?thesis
      using False assms(2) writer_receives by (auto simp: run_inv_def)
  qed
next
  case sender_dropped
  then show ?thesis using assms(2) by (auto simp: run_inv_def all_done_def)
next
  case writer_ends
  obtain received where r: "run_writer s = fold (writer_receive db packed debug c) received (writer_start d0)"
      "\<forall>fs. interleaves (run_workers s) fs \<longrightarrow> interleaves ws0 (received @ run_queue s @ fs)"
      "run_panicked s = {}" "all_done (run_workers s)"
    using assms(2) writer_ends by (auto simp: run_inv_def)
  have "interleaves ws0 received" using r(2) all_done_interleaves [OF r(4)] writer_ends by auto
  then show ?thesis
    using r writer_ends flush_Ended [of db packed "run_writer s"]
    by (auto simp: run_inv_def write_chunks_def)
qed

lemma run_inv_reachable:
  "write_steps db packed debug capacity c (run_start ws d) s \<Longrightarrow> run_inv db packed debug capacity c ws d s"
  by (induction rule: rtranclp_induct) (auto intro: run_inv_start run_inv_step)

text \<open>Every step brings the run closer to its end.\<close>

definition run_size :: "'d write_run \<Rightarrow> nat" where
  "run_size s = 2 * length (concat (run_workers s)) + length (run_queue s) +
     (if run_sender s then 1 else 0) + (if is_running (run_writer s) then 1 else 0)"

lemma length_concat_update:
  assumes "i < length ws" and "ws ! i = xs"
  shows "length (concat (ws[i := ys])) + length xs = length (concat ws) + length ys"
  using assms
proof (induction ws arbitrary: i)
  case Nil
  then show ?case by simp
next
  case (Cons w ws)
  then show ?case by (cases i) fastforce+
qed

lemma write_step_decreases:
  assumes "write_step db packed debug capacity c s s'" shows "run_size s' < run_size s"
  using assms
proof cases
  case (worker_sends i e es)
  then show ?thesis using length_concat_update [of i "run_workers s" "e # es" es]
    by (simp add: run_size_def del: length_concat)
next
  case (worker_panics i e es)
  then show ?thesis using length_concat_update [of i "run_workers s" "e # es" "[]"]
    by (simp add: run_size_def del: length_concat)
next
  case (writer_receives e q w)
  then show ?thesis by (auto simp: run_size_def)
next
  case sender_dropped
  then show ?thesis by (simp add: run_size_def)
next
  case writer_ends
  then show ?thesis using flush_Ended [of db packed "run_writer s"] by (simp add: run_size_def)
qed

text \<open>A run that cannot go on is over.\<close>

lemma write_step_progress:
  assumes "run_inv db packed debug capacity c ws d s" and "0 < capacity"
    and stuck: "\<nexists>s'. write_step db packed debug capacity c s s'"
  shows "all_done (run_workers s) \<and> \<not> run_sender s \<and> \<not> is_running (run_writer s)"
proof -
  have no_worker: "all_done (run_workers s)" if "run_sender s" "run_queue s = []"
  proof (rule ccontr)
    assume "\<not> all_done (run_workers s)"
    then obtain i e es where i: "i < length (run_workers s)" "run_workers s ! i = e # es"
      by (metis all_done_def in_set_conv_nth list.exhaust)
    have room: "length (run_queue s) < capacity" using that(2) assms(2) by simp
    have "\<exists>s'. write_step db packed debug capacity c s s'"
    proof (cases "is_running (run_writer s)")
      case True
      then show ?thesis using worker_sends [OF i that(1) _ room] by blast
    next
      case False
      then show ?thesis using worker_panics [OF i that(1)] by blast
    qed
    then show False using stuck by blast
  qed
  have no_drop: False if "run_sender s" "all_done (run_workers s)"
    using stuck sender_dropped [of s] that unfolding all_done_def by blast
  show ?thesis
  proof (cases "is_running (run_writer s)")
    case True
    then have q: "run_queue s = []"
      using stuck writer_receives [OF _ True refl] by (cases "run_queue s") blast+
    then have "\<not> run_sender s" using no_drop no_worker by blast
    then show ?thesis using stuck writer_ends [OF q _ True] by blast
  next
    case False
    then have "run_queue s = []" using assms(1) by (simp add: run_inv_def)
    then show ?thesis
      using False no_drop no_worker assms(1) by (auto simp: run_inv_def)
  qed
qed

lemma steps_bounded:
  "((write_step db packed debug capacity c) ^^ n) s s' \<Longrightarrow> run_size s' + n \<le> run_size s"
proof (induction n arbitrary: s')
  case 0
  then show ?case by simp
next
  case (Suc n)
  then obtain s1 where "((write_step db packed debug capacity c) ^^ n) s s1"
      and "write_step db packed debug capacity c s1 s'" by auto
  then show ?case using Suc.IH [of s1] write_step_decreases [of db packed debug capacity c s1 s'] by linarith
qed

lemma run_finishes: "\<exists>s'. write_steps db packed debug capacity c s s' \<and>
    (\<nexists>s''. write_step db packed debug capacity c s' s'')"
proof (induction "run_size s" arbitrary: s rule: less_induct)
  case less
  show ?case
  proof (cases "\<exists>s1. write_step db packed debug capacity c s s1")
    case True
    then obtain s1 where s1: "write_step db packed debug capacity c s s1" by blast
    obtain s' where "write_steps db packed debug capacity c s1 s'"
        "\<nexists>s''. write_step db packed debug capacity c s' s''"
      using less [OF write_step_decreases [OF s1]] by blast
    then show ?thesis using s1 by (meson converse_rtranclp_into_rtranclp)
  next
    case False
    then show ?thesis by blast
  qed
qed

lemma new_write_sink_Ok:
  "new_write_sink db codec d n ws = Ok (packed, c, s0) \<Longrightarrow> c = max n 1 \<and> s0 = run_start ws d"
  by (auto simp: new_write_sink_def rbind_eq_Ok run_start_def)

section \<open>Properties\<close>

text \<open>
  The threads refine the sequential loop. In every state a run of the workers and the writer
  can reach, at most \<open>capacity\<close> nodes are in the channel, and once the writer has ended it is in the
  state, with the database and the result, in which the sequential loop ends on some schedule of
  all the workers' nodes.
\<close>

theorem write_sink_refines_loop:
  assumes "new_write_sink db codec d chunk_nodes workers = Ok (packed, c, s0)"
    and "write_steps db packed debug capacity c s0 s"
  shows "length (run_queue s) \<le> capacity \<and> (\<not> is_running (run_writer s) \<longrightarrow>
    (\<exists>es. interleaves workers es \<and> run_writer s = write_chunks db packed debug (max chunk_nodes 1) es d))"
  using run_inv_reachable [of db packed debug capacity c workers d s] assms(2)
  unfolding new_write_sink_Ok [OF assms(1), THEN conjunct1] new_write_sink_Ok [OF assms(1), THEN conjunct2]
  by (auto simp: run_inv_def)

context reliable_store
begin

lemma new_write_sink_succeeds:
  "new_write_sink db codec d n ws = Ok (packed_of codec (committed_others d), max n 1, run_start ws d)"
proof -
  obtain t where "db_tx db d = Ok t" using tx_succeeds by blast
  then show ?thesis
    using uses_packed_succeeds [of codec t] tx_others by (simp add: new_write_sink_def run_start_def)
qed

end

lemma new_sample_sink:
  "new_write_sink ref_db flag_codec (ref_empty True) n ws = Ok (True, max n 1, run_start ws (ref_empty True))"
  by (simp add: ref_store.new_write_sink_succeeds)

lemma channel_capacity_pos: "0 < channel_capacity"
  by (simp add: channel_capacity_def)

lemma run_to_end:
  assumes "0 < capacity"
  shows "\<exists>s. write_steps db packed debug capacity c (run_start ws d) s \<and> \<not> is_running (run_writer s)"
proof -
  obtain s where s: "write_steps db packed debug capacity c (run_start ws d) s"
      "\<nexists>s'. write_step db packed debug capacity c s s'"
    using run_finishes by blast
  then show ?thesis
    using write_step_progress [OF run_inv_reachable [OF s(1)] assms s(2)] by blast
qed

theorem write_sink_refines_loop_witness:
  "\<exists>s es. write_steps ref_db True True channel_capacity 5 (run_start [sample_events, sample_events] (ref_empty True)) s \<and>
    interleaves [sample_events, sample_events] es \<and>
    run_writer s = write_chunks ref_db True True 5 es (ref_empty True)"
proof -
  obtain s where s: "write_steps ref_db True True channel_capacity 5
      (run_start [sample_events, sample_events] (ref_empty True)) s" and "\<not> is_running (run_writer s)"
    using run_to_end [OF channel_capacity_pos, where db = ref_db and packed = True and debug = True
        and c = 5 and ws = "[sample_events, sample_events]" and d = "ref_empty True"] by blast
  moreover have "new_write_sink ref_db flag_codec (ref_empty True) 5 [sample_events, sample_events] =
      Ok (True, 5, run_start [sample_events, sample_events] (ref_empty True))"
    by (simp add: new_sample_sink)
  from write_sink_refines_loop [OF this s] calculation show ?thesis by auto
qed

text \<open>
  No run blocks or goes on for ever: the number of steps of a run is bounded, every run can be
  continued until nothing is left to do, and then the workers are through, the channel is closed
  and \<open>finish\<close> has the writer's result. A channel with room for one node is enough.
\<close>

theorem write_sink_terminates:
  assumes "write_steps db packed debug capacity c (run_start workers d) s" and "0 < capacity"
  shows "(\<forall>n s'. ((write_step db packed debug capacity c) ^^ n) s s' \<longrightarrow> n \<le> run_size s) \<and>
    (\<exists>s'. write_steps db packed debug capacity c s s' \<and> (\<nexists>s''. write_step db packed debug capacity c s' s'')) \<and>
    (\<forall>s'. write_steps db packed debug capacity c s s' \<and> (\<nexists>s''. write_step db packed debug capacity c s' s'') \<longrightarrow>
      all_done (run_workers s') \<and> \<not> run_sender s' \<and> finish_result (run_writer s') \<noteq> None)"
proof (intro conjI allI impI)
  fix n s' assume "((write_step db packed debug capacity c) ^^ n) s s'"
  then show "n \<le> run_size s" using steps_bounded by fastforce
next
  show "\<exists>s'. write_steps db packed debug capacity c s s' \<and> (\<nexists>s''. write_step db packed debug capacity c s' s'')"
    by (rule run_finishes)
next
  fix s' assume s': "write_steps db packed debug capacity c s s' \<and> (\<nexists>s''. write_step db packed debug capacity c s' s'')"
  then have "write_steps db packed debug capacity c (run_start workers d) s'"
    using assms(1) by (meson rtranclp_trans)
  note over = write_step_progress [OF run_inv_reachable [OF this] assms(2)] s'
  then show "all_done (run_workers s')" "\<not> run_sender s'" by blast+
  have "\<not> is_running (run_writer s')" using over by blast
  then show "finish_result (run_writer s') \<noteq> None"
    by (cases "run_writer s'" rule: finish_result.cases) auto
qed

theorem write_sink_terminates_witness:
  "\<exists>s'. write_steps ref_db True True 1 3 (run_start [sample_events, sample_events] (ref_empty True)) s' \<and>
    all_done (run_workers s') \<and> finish_result (run_writer s') \<noteq> None"
  using write_sink_terminates [OF rtranclp.rtrancl_refl, of 1 ref_db True True 3
      "[sample_events, sample_events]" "ref_empty True"] by auto

lemma run_over:
  assumes store: "reliable_store db rows position committed others committed_others"
    and es: "interleaves workers es" and "0 < c"
    and keys: "distinct (map event_key (concat workers))" and before: "committed d = encode_rows db packed m"
  shows "\<exists>d' wr. write_chunks db packed debug c es d = Ended d' (Returns (Ok wr)) \<and>
    committed d' = encode_rows db packed (m ++ content_of (stored_events (concat workers))) \<and>
    wr_nodes wr = length (stored_events (concat workers)) \<and>
    wr_chunks wr = (length (concat workers) + c - 1) div c"
proof -
  have perm: "mset (concat workers) = mset es" using interleaves_mset [OF es] by simp
  then have keys': "distinct (map event_key es)"
    using keys by (metis mset_eq_imp_distinct_iff mset_map)
  have stored: "mset (stored_events (concat workers)) = mset (stored_events es)"
    unfolding stored_events_def mset_filter perm ..
  have "distinct (map event_key (stored_events (concat workers)))"
    unfolding stored_events_def using keys by (rule distinct_map_filter)
  then have content: "content_of (stored_events es) = content_of (stored_events (concat workers))"
    using content_of_permute [OF _ stored] by simp
  have len: "length es = length (concat workers)" "length (stored_events es) = length (stored_events (concat workers))"
    using perm stored mset_eq_length by metis+
  obtain d' wr where "write_chunks db packed debug c es d = Ended d' (Returns (Ok wr))"
    "committed d' = encode_rows db packed (m ++ content_of (stored_events es))"
    "wr_chunks wr = (length es + c - 1) div c" "wr_nodes wr = length (stored_events es)"
    using reliable_store.write_chunks_succeeds [OF store _ before keys', of c debug] keys' \<open>0 < c\<close> by auto
  then show ?thesis using content len by (simp del: length_concat)
qed

text \<open>
  The build's result does not depend on the scheduler. When the workers emit nodes with
  different keys over a database that does not fail, every run to its end leaves no worker
  panicked, and \<open>finish\<close> returns the number of the nodes that are not roots and the number of
  chunks; the tables hold exactly those nodes on top of what they held.
\<close>

theorem write_sink_schedule_irrelevant:
  assumes store: "reliable_store db rows position committed others committed_others"
    and new: "new_write_sink db codec d chunk_nodes workers = Ok (packed, c, s0)"
    and run: "write_steps db packed debug capacity c s0 s"
    and over: "\<not> is_running (run_writer s)"
    and keys: "distinct (map event_key (concat workers))"
    and before: "committed d = encode_rows db packed m"
  shows "\<exists>d' wr. run_writer s = Ended d' (Returns (Ok wr)) \<and> run_panicked s = {} \<and>
    committed d' = encode_rows db packed (m ++ content_of (stored_events (concat workers))) \<and>
    wr_nodes wr = length (stored_events (concat workers)) \<and>
    wr_chunks wr = (length (concat workers) + c - 1) div c"
proof -
  have c: "c = max chunk_nodes 1" and s0: "s0 = run_start workers d"
    using new_write_sink_Ok [OF new] by blast+
  have inv: "run_inv db packed debug capacity c workers d s"
    using run_inv_reachable run unfolding s0 .
  then obtain es where es: "interleaves workers es" "run_writer s = write_chunks db packed debug c es d"
    using over by (auto simp: run_inv_def)
  have "0 < c" using c by simp
  from run_over [OF store es(1) this keys before, of debug] show ?thesis
    using inv es(2) by (auto simp: run_inv_def simp del: length_concat)
qed

theorem write_sink_schedule_irrelevant_witness:
  "\<exists>s d' wr. write_steps ref_db True True 1 2 (run_start [sample_events, [(None, [9], sample_branch 8)]] (ref_empty True)) s \<and>
    run_writer s = Ended d' (Returns (Ok wr)) \<and> wr_nodes wr = 3 \<and> wr_chunks wr = 2"
proof -
  let ?ws = "[sample_events, [(None, [9], sample_branch 8)]]"
  let ?s0 = "run_start ?ws (ref_empty True)"
  obtain s where s: "write_steps ref_db True True 1 2 ?s0 s" and over: "\<not> is_running (run_writer s)"
    using run_to_end [OF zero_less_one, where db = ref_db and packed = True and debug = True
        and c = 2 and ws = ?ws and d = "ref_empty True"] by blast
  have new: "new_write_sink ref_db flag_codec (ref_empty True) 2 ?ws = Ok (True, 2, ?s0)"
    by (simp add: new_sample_sink)
  have keys: "distinct (map event_key (concat ?ws))"
    by (simp add: sample_events_def)
  show ?thesis
    using write_sink_schedule_irrelevant [OF ref_store.reliable_store_axioms new s over keys ref_empty_encodes] s
    by (auto simp: sample_events_def stored_events_def)
qed

end
