(* ===== verification/Bench_Args.thy ===== *)
theory Bench_Args
  imports Write_Sink Rust_Fmt
begin

text \<open>
  The command line of \<^verbatim>\<open>datadir_bench\<close> (\<^verbatim>\<open>bin/datadir_bench.rs\<close>): the flags are read from left to
  right, a later one overrides an earlier one, and everything that is not understood ends the
  program with the usage text and exit code 2. A message that is returned as an error is the one
  \<^verbatim>\<open>usage\<close> prints. Parsing a \<^verbatim>\<open>B256\<close> is alloy's, an argument.
\<close>

section \<open>Model\<close>

record bench_args =
  datadir :: string
  threads :: "u64 option"
  repeat :: u64
  expected_root :: "b256 option"
  write_flag :: bool
  chunk_nodes :: u64
  reth_serial_flag :: bool
  reth_rebuild_flag :: bool
  clear_flag :: bool
  digest_flag :: bool

definition args_default :: bench_args where
  "args_default = \<lparr>datadir = [], threads = None, repeat = 1, expected_root = None, write_flag = False,
     chunk_nodes = of_nat default_chunk_nodes, reth_serial_flag = False, reth_rebuild_flag = False,
     clear_flag = False, digest_flag = False\<rparr>"

text \<open>The value of a flag is the next argument.\<close>

definition flag_value :: "string \<Rightarrow> string list \<Rightarrow> string + string \<times> string list" where
  "flag_value flag it = (case it of [] \<Rightarrow> Err (flag @ '' needs a value'') | v # it \<Rightarrow> Ok (v, it))"

definition parsed :: "string \<Rightarrow> 'a option \<Rightarrow> string + 'a" where
  "parsed msg r = (case r of None \<Rightarrow> Err msg | Some x \<Rightarrow> Ok x)"

definition parse_flag :: "(string \<Rightarrow> b256 option) \<Rightarrow> string \<Rightarrow> string list \<Rightarrow> bench_args \<Rightarrow>
    string + string list \<times> bench_args" where
  "parse_flag parse_b256 flag it a =
     (if flag = ''--datadir'' then
        rbind (flag_value flag it) (\<lambda>(v, it). Ok (it, a\<lparr>datadir := v\<rparr>))
      else if flag = ''--threads'' then
        rbind (flag_value flag it) (\<lambda>(v, it). rbind (parsed ''bad --threads'' (parse_usize v)) (\<lambda>n.
          Ok (it, a\<lparr>threads := Some n\<rparr>)))
      else if flag = ''--repeat'' then
        rbind (flag_value flag it) (\<lambda>(v, it). rbind (parsed ''bad --repeat'' (parse_usize v)) (\<lambda>n.
          Ok (it, a\<lparr>repeat := n\<rparr>)))
      else if flag = ''--expected-root'' then
        rbind (flag_value flag it) (\<lambda>(v, it). rbind (parsed ''bad --expected-root'' (parse_b256 v)) (\<lambda>r.
          Ok (it, a\<lparr>expected_root := Some r\<rparr>)))
      else if flag = ''--write'' then Ok (it, a\<lparr>write_flag := True\<rparr>)
      else if flag = ''--chunk-nodes'' then
        rbind (flag_value flag it) (\<lambda>(v, it). rbind (parsed ''bad --chunk-nodes'' (parse_usize v)) (\<lambda>n.
          Ok (it, a\<lparr>chunk_nodes := n\<rparr>)))
      else if flag = ''--reth-serial'' then Ok (it, a\<lparr>reth_serial_flag := True\<rparr>)
      else if flag = ''--reth-rebuild'' then Ok (it, a\<lparr>reth_rebuild_flag := True\<rparr>)
      else if flag = ''--clear-trie-tables'' then Ok (it, a\<lparr>clear_flag := True\<rparr>)
      else if flag = ''--digest-trie-tables'' then Ok (it, a\<lparr>digest_flag := True\<rparr>)
      else Err (''unknown flag '' @ flag))"

lemma flag_value_shorter: "flag_value flag it = Ok (v, it') \<Longrightarrow> length it' < length it"
  by (auto simp: flag_value_def split: list.splits)

lemma parse_flag_shorter: "parse_flag p flag it a = Ok (it', a') \<Longrightarrow> length it' \<le> length it"
  by (auto simp: parse_flag_def rbind_eq_Ok split: if_splits dest!: flag_value_shorter)

function parse_flags :: "(string \<Rightarrow> b256 option) \<Rightarrow> string list \<Rightarrow> bench_args \<Rightarrow> string + bench_args" where
  "parse_flags parse_b256 [] a = Ok a"
| "parse_flags parse_b256 (flag # it) a = (case parse_flag parse_b256 flag it a of
     Err msg \<Rightarrow> Err msg
   | Ok (it, a) \<Rightarrow> parse_flags parse_b256 it a)"
  by pat_completeness auto
termination
proof (relation "measure (\<lambda>(p, it, a). length it)", goal_cases)
  case (2 p flag it a x it' a')
  then have "parse_flag p flag it a = Ok (it', a')" by simp
  from parse_flag_shorter [OF this] show ?case using 2(2) by auto
qed simp

definition parse_args :: "(string \<Rightarrow> b256 option) \<Rightarrow> string list \<Rightarrow> string + bench_args" where
  "parse_args parse_b256 argv = rbind (parse_flags parse_b256 argv args_default) (\<lambda>a.
     if datadir a = [] then Err ''--datadir is required'' else Ok a)"

section \<open>Flags compose\<close>

text \<open>A command line that has every setting of a run.\<close>

definition flag_if :: "bool \<Rightarrow> string \<Rightarrow> string list" where
  "flag_if b flag = (if b then [flag] else [])"

definition value_if :: "string \<Rightarrow> ('a \<Rightarrow> string) \<Rightarrow> 'a option \<Rightarrow> string list" where
  "value_if flag show v = (case v of None \<Rightarrow> [] | Some x \<Rightarrow> [flag, show x])"

definition command_line :: "(b256 \<Rightarrow> string) \<Rightarrow> bench_args \<Rightarrow> string list" where
  "command_line show_b256 a = [''--datadir'', datadir a] @ value_if ''--threads'' show_u64 (threads a) @
     [''--repeat'', show_u64 (repeat a)] @ value_if ''--expected-root'' show_b256 (expected_root a) @
     flag_if (write_flag a) ''--write'' @ [''--chunk-nodes'', show_u64 (chunk_nodes a)] @
     flag_if (reth_serial_flag a) ''--reth-serial'' @ flag_if (reth_rebuild_flag a) ''--reth-rebuild'' @
     flag_if (clear_flag a) ''--clear-trie-tables'' @ flag_if (digest_flag a) ''--digest-trie-tables''"

lemma parse_flags_bool:
  "parse_flags p (flag_if b ''--write'' @ it) a = parse_flags p it (if b then a\<lparr>write_flag := True\<rparr> else a)"
  "parse_flags p (flag_if b ''--reth-serial'' @ it) a = parse_flags p it (if b then a\<lparr>reth_serial_flag := True\<rparr> else a)"
  "parse_flags p (flag_if b ''--reth-rebuild'' @ it) a = parse_flags p it (if b then a\<lparr>reth_rebuild_flag := True\<rparr> else a)"
  "parse_flags p (flag_if b ''--clear-trie-tables'' @ it) a = parse_flags p it (if b then a\<lparr>clear_flag := True\<rparr> else a)"
  "parse_flags p (flag_if b ''--digest-trie-tables'' @ it) a = parse_flags p it (if b then a\<lparr>digest_flag := True\<rparr> else a)"
  by (simp_all add: flag_if_def parse_flag_def)

lemma parse_flags_values:
  "parse_flags p (''--datadir'' # v # it) a = parse_flags p it (a\<lparr>datadir := v\<rparr>)"
  "parse_flags p (''--repeat'' # show_u64 n # it) a = parse_flags p it (a\<lparr>repeat := n\<rparr>)"
  "parse_flags p (''--chunk-nodes'' # show_u64 n # it) a = parse_flags p it (a\<lparr>chunk_nodes := n\<rparr>)"
  "parse_flags p (value_if ''--threads'' show_u64 t @ it) a =
     parse_flags p it (case t of None \<Rightarrow> a | Some n \<Rightarrow> a\<lparr>threads := Some n\<rparr>)"
  "(\<And>x. r = Some x \<Longrightarrow> p (s x) = Some x) \<Longrightarrow> parse_flags p (value_if ''--expected-root'' s r @ it) a =
     parse_flags p it (case r of None \<Rightarrow> a | Some n \<Rightarrow> a\<lparr>expected_root := Some n\<rparr>)"
  by (simp_all add: value_if_def parse_flag_def flag_value_def parsed_def split: option.split)

text \<open>What a rejected command line has: \<open>bad_flags\<close> does not look at values that parse.\<close>

definition takes_value :: "string \<Rightarrow> bool" where
  "takes_value flag \<longleftrightarrow> flag \<in> {''--datadir'', ''--threads'', ''--repeat'', ''--expected-root'', ''--chunk-nodes''}"

definition is_switch :: "string \<Rightarrow> bool" where
  "is_switch flag \<longleftrightarrow> flag \<in> {''--write'', ''--reth-serial'', ''--reth-rebuild'', ''--clear-trie-tables'', ''--digest-trie-tables''}"

definition good_value :: "(string \<Rightarrow> b256 option) \<Rightarrow> string \<Rightarrow> string \<Rightarrow> bool" where
  "good_value parse_b256 flag v \<longleftrightarrow> flag = ''--datadir'' \<or>
     (if flag = ''--expected-root'' then parse_b256 v \<noteq> None else parse_usize v \<noteq> None)"

text \<open>The grammar of the command line, and the directory it names last.\<close>

fun well_formed :: "(string \<Rightarrow> b256 option) \<Rightarrow> string list \<Rightarrow> bool" where
  "well_formed p [] = True"
| "well_formed p [flag] = is_switch flag"
| "well_formed p (flag # v # it) = (if takes_value flag then good_value p flag v \<and> well_formed p it
     else is_switch flag \<and> well_formed p (v # it))"

fun last_datadir :: "string list \<Rightarrow> string \<Rightarrow> string" where
  "last_datadir [] d = d"
| "last_datadir [flag] d = d"
| "last_datadir (flag # v # it) d = (if flag = ''--datadir'' then last_datadir it v
     else if takes_value flag then last_datadir it d else last_datadir (v # it) d)"

lemma parse_flag_switch: "is_switch flag \<Longrightarrow>
   \<exists>a'. parse_flag p flag it a = Ok (it, a') \<and> datadir a' = datadir a"
  by (auto simp: is_switch_def parse_flag_def)

lemma parse_flag_value:
  assumes "takes_value flag"
  shows "if good_value p flag v
    then \<exists>a'. parse_flag p flag (v # it) a = Ok (it, a') \<and> datadir a' = (if flag = ''--datadir'' then v else datadir a)
    else \<exists>msg. parse_flag p flag (v # it) a = Err msg"
  using assms
  by (auto simp: takes_value_def good_value_def parse_flag_def flag_value_def parsed_def split: option.split)

lemma parse_flag_no_value: "takes_value flag \<Longrightarrow> \<exists>msg. parse_flag p flag [] a = Err msg"
  by (auto simp: takes_value_def parse_flag_def flag_value_def)

lemma parse_flag_unknown: "\<not> takes_value flag \<Longrightarrow> \<not> is_switch flag \<Longrightarrow> \<exists>msg. parse_flag p flag it a = Err msg"
  by (auto simp: takes_value_def is_switch_def parse_flag_def)

lemma switch_no_value: "is_switch flag \<Longrightarrow> \<not> takes_value flag"
  by (auto simp: is_switch_def takes_value_def)

lemma parse_flags_result:
  "if well_formed p it then \<exists>a'. parse_flags p it a = Ok a' \<and> datadir a' = last_datadir it (datadir a)
   else \<exists>msg. parse_flags p it a = Err msg"
proof (induction p it arbitrary: a rule: well_formed.induct)
  case (1 p)
  then show ?case by simp
next
  case (2 p flag)
  then show ?case
    using parse_flag_switch [of flag p "[]" a] parse_flag_no_value [of flag p a]
      parse_flag_unknown [of flag p "[]" a] by (cases "is_switch flag"; cases "takes_value flag") auto
next
  case (3 p flag v it)
  show ?case
  proof (cases "takes_value flag")
    case True
    then show ?thesis
      using parse_flag_value [OF True, of p v it a] 3(1) [OF True, of "snd (projr (parse_flag p flag (v # it) a))"]
      by (cases "good_value p flag v") (auto split: if_splits)
  next
    case False
    then have "flag \<noteq> ''--datadir''" by (auto simp: takes_value_def)
    then show ?thesis
      using False 3(2) [OF False, of "snd (projr (parse_flag p flag (v # it) a))"] parse_flag_switch [of flag p "v # it" a] parse_flag_unknown [of flag p "v # it" a]
      by (cases "is_switch flag") (auto split: if_splits)
  qed
qed

section \<open>Properties\<close>

text \<open>
  C34: Every setting can be given and is read back: the command line of a setting of all flags
  parses to exactly that setting, for any directory that is not empty.
\<close>

theorem parse_args_command_line:
  assumes "\<And>r. expected_root a = Some r \<Longrightarrow> parse_b256 (show_b256 r) = Some r" and "datadir a \<noteq> []"
  shows "parse_args parse_b256 (command_line show_b256 a) = Ok a"
proof -
  have "parse_flags parse_b256 (command_line show_b256 a @ []) args_default = Ok a"
    unfolding command_line_def append.assoc append_Cons append_Nil
    by (simp only: parse_flags_values assms(1) parse_flags_bool parse_flags.simps(1))
      (cases a, simp add: args_default_def split: option.split)
  then show ?thesis using assms(2) by (simp add: parse_args_def)
qed

text \<open>
  The parser accepts exactly the well-formed command lines that name a directory last that is
  not empty: every flag known, every flag with a value followed by one that parses; everything
  else ends in the usage message.
\<close>

theorem parse_args_accepts:
  "(\<exists>a. parse_args parse_b256 argv = Ok a) \<longleftrightarrow> well_formed parse_b256 argv \<and> last_datadir argv [] \<noteq> []"
proof -
  have "datadir args_default = []" by (simp add: args_default_def)
  then show ?thesis
    using parse_flags_result [of parse_b256 argv args_default]
    by (cases "well_formed parse_b256 argv") (auto simp: parse_args_def)
qed

theorem parse_args_command_line_witness:
  "parse_args (\<lambda>s. if s = ''0x'' then Some 7 else None) (command_line (\<lambda>r. ''0x'')
     (args_default\<lparr>datadir := ''d'', expected_root := Some 7, write_flag := True\<rparr>)) =
   Ok (args_default\<lparr>datadir := ''d'', expected_root := Some 7, write_flag := True\<rparr>)"
  by (rule parse_args_command_line) simp_all

end
