(* ===== verification/Table_Rebuild.thy ===== *)
theory Table_Rebuild
  imports Table_Writes
begin

text \<open>
  Reth's chunked rebuild (\<^verbatim>\<open>rebuild.rs\<close>). The loop runs until the walk is complete; reth's
  \<^verbatim>\<open>StateRoot\<close> walk is the field of a \<open>state_root_walk\<close>, and the locale \<open>chunked_walk\<close> states
  what the loop relies on: it hands out its update sets one after the other and ends.
\<close>

section \<open>The rebuild loop\<close>

text \<open>
  A walk resumes from an intermediate state \<open>'w\<close>. \<open>root_with_progress\<close> reads the transaction with
  the adapter \<open>packed\<close>; its error is the text of the error.
\<close>

datatype 'w state_root_progress = Progress 'w nat trie_updates | Complete b256 nat trie_updates

record ('t, 'w) state_root_walk =
  root_with_progress :: "bool \<Rightarrow> 't \<Rightarrow> 'w option \<Rightarrow> u64 option \<Rightarrow> string + 'w state_root_progress"
  serial_root :: "bool \<Rightarrow> 't \<Rightarrow> string + b256"
  root_with_updates :: "bool \<Rightarrow> 't \<Rightarrow> string + b256 \<times> trie_updates"

record rebuilt =
  rb_root :: b256
  rb_entries :: nat
  rb_written :: nat
  rb_chunks :: nat

text \<open>
  What a log line says. \<open>clk 0\<close> is the reading of the clock at the start, \<open>clk n\<close> the one after the \<open>n\<close>th chunk,
  in nanoseconds.
\<close>

record rebuild_log =
  log_chunks :: nat
  log_entries :: nat
  log_written :: nat
  log_elapsed :: nat

definition rebuild_chunk :: "('d, 't, 'k) trie_db \<Rightarrow> ('t, 'w) state_root_walk \<Rightarrow> bool \<Rightarrow> u64 option \<Rightarrow>
    'w option \<Rightarrow> 't \<Rightarrow> db_error + ('w option \<times> b256 option \<times> nat \<times> nat) \<times> 't" where
  "rebuild_chunk db walk packed threshold state t =
     rbind (case root_with_progress walk packed t state threshold of
         Err e \<Rightarrow> Err (Other e) | Ok p \<Rightarrow> Ok p) (\<lambda>progress.
     let (next, root, entries, updates) = (case progress of
         Progress next entries updates \<Rightarrow> (Some next, None, entries, updates)
       | Complete root entries updates \<Rightarrow> (None, Some root, entries, updates))
     in rbind (write_trie_updates_with db packed updates t) (\<lambda>(written, t).
          Ok ((next, root, entries, written), t)))"

partial_function (option) rebuild_loop :: "(nat \<Rightarrow> nat) \<Rightarrow> ('d, 't, 'k) trie_db \<Rightarrow> ('t, 'w) state_root_walk \<Rightarrow> bool \<Rightarrow>
    u64 option \<Rightarrow> 'w option \<Rightarrow> rebuilt \<Rightarrow> rebuild_log list \<Rightarrow> 'd \<Rightarrow>
    ('d \<times> rebuild_log list \<times> (db_error + rebuilt)) option" where
  "rebuild_loop clk db walk packed threshold state totals lg d =
     (case in_tx db d (rebuild_chunk db walk packed threshold state) of
        (d', r) \<Rightarrow> (case r of
          Err e \<Rightarrow> Some (d', lg, Err e)
        | Ok (next, root, entries, written) \<Rightarrow>
            let totals' = totals\<lparr>rb_written := rb_written totals + written,
                  rb_entries := rb_entries totals + entries, rb_chunks := rb_chunks totals + 1\<rparr>;
                lg' = (if 100 dvd rb_chunks totals'
                  then lg @ [\<lparr>log_chunks = rb_chunks totals', log_entries = rb_entries totals',
                    log_written = rb_written totals', log_elapsed = clk (rb_chunks totals') - clk 0\<rparr>] else lg)
            in case root of
                 Some root \<Rightarrow> Some (d', lg', Ok (totals'\<lparr>rb_root := root\<rparr>))
               | None \<Rightarrow> rebuild_loop clk db walk packed threshold next totals' lg' d'))"

definition rebuild :: "(nat \<Rightarrow> nat) \<Rightarrow> ('d, 't, 'k) trie_db \<Rightarrow> ('t, 'w) state_root_walk \<Rightarrow> bool \<Rightarrow> u64 option \<Rightarrow> 'd \<Rightarrow>
    ('d \<times> rebuild_log list \<times> (db_error + rebuilt)) option" where
  "rebuild clk db walk packed threshold d = rebuild_loop clk db walk packed threshold None
     \<lparr>rb_root = b256_zero, rb_entries = 0, rb_written = 0, rb_chunks = 0\<rparr> [] d"

definition reth_rebuild :: "(nat \<Rightarrow> nat) \<Rightarrow> ('d, 't, 'k) trie_db \<Rightarrow> 'st settings_codec \<Rightarrow> ('t, 'w) state_root_walk \<Rightarrow>
    u64 option \<Rightarrow> 'd \<Rightarrow> ('d \<times> rebuild_log list \<times> (db_error + rebuilt)) option" where
  "reth_rebuild clk db codec walk threshold d =
     (case rbind (db_tx db d) (uses_packed_trie_keys db codec) of
        Err e \<Rightarrow> Some (d, [], Err e)
      | Ok packed \<Rightarrow> (case clear_trie_tables db d of
          (d', Err e) \<Rightarrow> Some (d', [], Err e)
        | (d', Ok _) \<Rightarrow> rebuild clk db walk packed threshold d'))"

section \<open>The rebuild leaves the other tables alone\<close>

context full_store
begin

lemma rebuild_chunk_others:
  assumes "rebuild_chunk db walk packed thr state t = Ok (r, t')" shows "others t' = others t"
proof -
  obtain progress where "(case root_with_progress walk packed t state thr of Err e \<Rightarrow> Err (Other e) | Ok p \<Rightarrow> Ok p) = Ok progress"
    using assms by (auto simp: rebuild_chunk_def rbind_eq_Ok)
  then obtain u w where "write_trie_updates_with db packed u t = Ok (w, t')"
    using assms by (cases progress) (auto simp: rebuild_chunk_def rbind_eq_Ok)
  then show ?thesis by (rule write_trie_updates_with_others)
qed

lemma rebuild_loop_others:
  assumes "rebuild_loop clk db' walk packed thr state totals lg d = Some y"
  shows "db' = db \<longrightarrow> committed_others (fst y) = committed_others d"
proof (rule rebuild_loop.raw_induct [OF _ assms], goal_cases)
  case (1 f clk db' walk packed thr state totals lg d y)
  note rec = 1(1) and body = 1(2)
  show ?case
  proof
    assume "db' = db"
    obtain d1 r where tx: "in_tx db d (rebuild_chunk db walk packed thr state) = (d1, r)" by fastforce
    have d1: "committed_others d1 = committed_others d"
      by (rule in_tx_keeps_others [OF tx]) (rule rebuild_chunk_others)
    show "committed_others (fst y) = committed_others d"
    proof (cases r)
      case (Inl e)
      then show ?thesis using body tx d1 \<open>db' = db\<close> by auto
    next
      case (Inr x)
      obtain nxt rt entries written where "x = (nxt, rt, entries, written)" by (metis prod_cases4)
      then show ?thesis
        using body tx d1 Inr \<open>db' = db\<close> by (cases rt) (auto simp: Let_def dest!: rec)
    qed
  qed
qed

lemma reth_rebuild_others:
  assumes "reth_rebuild clk db codec walk thr d = Some (d', lg, r)" shows "committed_others d' = committed_others d"
proof (cases "rbind (db_tx db d) (uses_packed_trie_keys db codec)")
  case (Inl e)
  then show ?thesis using assms by (simp add: reth_rebuild_def)
next
  case (Inr packed)
  obtain d1 r1 where c: "clear_trie_tables db d = (d1, r1)" by fastforce
  note d1 = clear_trie_tables_others [OF c]
  show ?thesis
  proof (cases r1)
    case (Inl e)
    then show ?thesis using assms Inr c d1 by (simp add: reth_rebuild_def)
  next
    case (Inr x)
    then have "rebuild clk db walk packed thr d1 = Some (d', lg, r)"
      using assms \<open>rbind (db_tx db d) (uses_packed_trie_keys db codec) = Ok packed\<close> c by (simp add: reth_rebuild_def)
    then show ?thesis using rebuild_loop_others [of clk db] d1 by (fastforce simp: rebuild_def)
  qed
qed

end

section \<open>The contract of the walk\<close>

text \<open>
  \<open>chunks\<close> are the entries walked and the nodes updated by each step of the walk over a hashed
  state, \<open>resume\<close> the state it resumes from, \<open>final\<close> its root. The laws speak of the tables the
  rebuild itself produces, those with the chunks before.
\<close>

definition chunks_content :: "(nat \<times> trie_updates) list \<Rightarrow> table_content" where
  "chunks_content cs = fold (\<lambda>c. apply_updates (snd c)) cs Map.empty"

lemma chunks_content_Nil [simp]: "chunks_content [] = Map.empty"
  and chunks_content_snoc [simp]: "chunks_content (cs @ [c]) = apply_updates (snd c) (chunks_content cs)"
  by (simp_all add: chunks_content_def)

locale chunked_walk = full_store db rows position committed others committed_others
  for db :: "('d, 't, 'k) trie_db" and rows and position and committed and others and committed_others +
  fixes walk :: "('t, 'w) state_root_walk"
    and chunks :: "hashed_tables \<Rightarrow> u64 option \<Rightarrow> (nat \<times> trie_updates) list"
    and resume :: "hashed_tables \<Rightarrow> u64 option \<Rightarrow> nat \<Rightarrow> 'w option"
    and final :: "hashed_tables \<Rightarrow> b256"
  assumes resume_0: "resume hashed thr 0 = None"
    and chunks_not_Nil: "chunks hashed thr \<noteq> []"
    and chunks_wf: "c \<in> set (chunks hashed thr) \<Longrightarrow> updates_wf (snd c)"
    and walk_progress: "Suc i < length (chunks hashed thr) \<Longrightarrow> others t = hashed \<Longrightarrow>
      rows t = encode_rows db packed (chunks_content (take i (chunks hashed thr))) \<Longrightarrow>
      root_with_progress walk packed t (resume hashed thr i) thr = Ok progress \<Longrightarrow>
      \<exists>w. progress = Progress w (fst (chunks hashed thr ! i)) (snd (chunks hashed thr ! i)) \<and>
        resume hashed thr (Suc i) = Some w"
    and walk_complete: "Suc i = length (chunks hashed thr) \<Longrightarrow> others t = hashed \<Longrightarrow>
      rows t = encode_rows db packed (chunks_content (take i (chunks hashed thr))) \<Longrightarrow>
      root_with_progress walk packed t (resume hashed thr i) thr = Ok progress \<Longrightarrow>
      progress = Complete (final hashed) (fst (chunks hashed thr ! i)) (snd (chunks hashed thr ! i))"
begin

text \<open>One chunk: what the step returns and what it leaves in the database.\<close>

lemma rebuild_chunk_step:
  assumes i: "i < length (chunks hashed thr)" and hashed: "committed_others d = hashed"
    and content: "committed d = encode_rows db packed (chunks_content (take i (chunks hashed thr)))"
    and tx: "in_tx db d (rebuild_chunk db walk packed thr (resume hashed thr i)) = (d', Ok (next', root, entries, w))"
  shows "committed_others d' = hashed \<and>
    committed d' = encode_rows db packed (chunks_content (take (Suc i) (chunks hashed thr))) \<and>
    entries = fst (chunks hashed thr ! i) \<and>
    (no_removals (snd (chunks hashed thr ! i)) \<longrightarrow>
      w = length (stored_events (updates_events (snd (chunks hashed thr ! i))))) \<and>
    (if Suc i = length (chunks hashed thr) then root = Some (final hashed)
     else root = None \<and> next' = resume hashed thr (Suc i))"
proof -
  define c where "c = chunks hashed thr ! i"
  have c: "c \<in> set (chunks hashed thr)" using i by (simp add: c_def)
  then have wf: "updates_wf (snd c)" by (rule chunks_wf)
  obtain t t' where t: "rows t = committed d" "others t = committed_others d"
    and body: "rebuild_chunk db walk packed thr (resume hashed thr i) t = Ok ((next', root, entries, w), t')"
    and t': "committed d' = rows t'" "committed_others d' = others t'"
    using in_tx_full_Ok [OF tx] by blast
  obtain progress where p: "root_with_progress walk packed t (resume hashed thr i) thr = Ok progress"
    using body by (auto simp: rebuild_chunk_def rbind_eq_Ok split: sum.splits)
  note before = t(2) [unfolded hashed] t(1) [unfolded content] p
  have step: "write_trie_updates_with db packed (snd c) t = Ok (w, t') \<and> entries = fst c \<and>
      (if Suc i = length (chunks hashed thr) then root = Some (final hashed)
       else root = None \<and> next' = resume hashed thr (Suc i))"
  proof (cases "Suc i = length (chunks hashed thr)")
    case True
    then have "progress = Complete (final hashed) (fst c) (snd c)"
      using walk_complete [OF True before] by (simp add: c_def)
    then show ?thesis using body p True
      by (cases c) (auto simp: rebuild_chunk_def rbind_eq_Ok)
  next
    case False
    then have "Suc i < length (chunks hashed thr)" using i by simp
    then obtain s where "progress = Progress s (fst c) (snd c)" "resume hashed thr (Suc i) = Some s"
      using walk_progress [OF _ before] by (auto simp: c_def)
    then show ?thesis using body p False
      by (cases c) (auto simp: rebuild_chunk_def rbind_eq_Ok)
  qed
  then have wr: "write_trie_updates_with db packed (snd c) t = Ok (w, t')" by blast
  have "rows t' = encode_rows db packed (apply_updates (snd c) (chunks_content (take i (chunks hashed thr))))"
    by (rule write_trie_updates_with_rows [OF wr wf before(2)])
  also have "apply_updates (snd c) (chunks_content (take i (chunks hashed thr))) =
      chunks_content (take (Suc i) (chunks hashed thr))"
    using i by (simp add: take_Suc_conv_app_nth c_def)
  finally show ?thesis
    using step t' write_trie_updates_with_others [OF wr] t(2) hashed
      write_trie_updates_with_count [OF wr wf _ before(2)] by (simp add: c_def)
qed

end

text \<open>The totals of a rebuild that starts from given totals and commits the given chunks.\<close>

definition totals_after :: "rebuilt \<Rightarrow> (nat \<times> trie_updates) list \<Rightarrow> b256 \<Rightarrow> rebuilt \<Rightarrow> bool" where
  "totals_after totals cs root r \<longleftrightarrow> rb_root r = root \<and>
     rb_entries r = rb_entries totals + sum_list (map fst cs) \<and>
     rb_chunks r = rb_chunks totals + length cs \<and>
     ((\<forall>c \<in> set cs. no_removals (snd c)) \<longrightarrow>
       rb_written r = rb_written totals + (\<Sum>c \<leftarrow> cs. length (stored_events (updates_events (snd c)))))"

definition logged_chunks :: "nat \<Rightarrow> nat \<Rightarrow> nat list" where
  "logged_chunks from n = filter (\<lambda>k. 100 dvd k) [Suc from..<Suc from + n]"

lemma logged_chunks_0 [simp]: "logged_chunks from 0 = []"
  by (simp add: logged_chunks_def)

lemma logged_chunks_Suc:
  "logged_chunks from (Suc n) = (if 100 dvd Suc from then [Suc from] else []) @ logged_chunks (Suc from) n"
proof -
  have "[Suc from..<Suc from + Suc n] = Suc from # [Suc (Suc from)..<Suc (Suc from) + n]"
    by (subst upt_conv_Cons) simp_all
  then show ?thesis unfolding logged_chunks_def by simp
qed

context chunked_walk
begin

theorem rebuild_loop_runs:
  assumes "i < length (chunks hashed thr)" and "committed_others d = hashed"
    and "committed d = encode_rows db packed (chunks_content (take i (chunks hashed thr)))"
  shows "\<exists>d' lg' r j. rebuild_loop clk db walk packed thr (resume hashed thr i) totals lg d = Some (d', lg', r) \<and>
    committed_others d' = hashed \<and> i \<le> j \<and> j \<le> length (chunks hashed thr) \<and>
    committed d' = encode_rows db packed (chunks_content (take j (chunks hashed thr))) \<and>
    map log_chunks lg' = map log_chunks lg @ logged_chunks (rb_chunks totals) (j - i) \<and>
    (case r of Err e \<Rightarrow> j < length (chunks hashed thr) \<and> (\<exists>d0. committed_others d0 = hashed \<and>
        committed d0 = encode_rows db packed (chunks_content (take j (chunks hashed thr))) \<and>
        in_tx db d0 (rebuild_chunk db walk packed thr (resume hashed thr j)) = (d', Err e))
     | Ok r \<Rightarrow> j = length (chunks hashed thr) \<and> totals_after totals (drop i (chunks hashed thr)) (final hashed) r)"
  using assms
proof (induction "length (chunks hashed thr) - i" arbitrary: i totals lg d)
  case 0
  then show ?case by simp
next
  case (Suc n)
  let ?cs = "chunks hashed thr"
  let ?loop = "rebuild_loop clk db walk packed thr"
  obtain d' r where tx: "in_tx db d (rebuild_chunk db walk packed thr (resume hashed thr i)) = (d', r)"
    by fastforce
  show ?case
  proof (cases r)
    case (Inl e)
    then have "committed d' = committed d \<and> committed_others d' = committed_others d"
      using in_tx_full_Err tx by blast
    moreover have "?loop (resume hashed thr i) totals lg d = Some (d', lg, Err e)"
      using tx Inl by (subst rebuild_loop.simps) simp
    ultimately show ?thesis
      using Suc.prems tx [unfolded Inl] by (auto intro!: exI [of _ i] exI [of _ d])
  next
    case (Inr x)
    obtain next' root entries w where x: "x = (next', root, entries, w)" by (cases x) auto
    note step = rebuild_chunk_step [OF Suc.prems tx [unfolded Inr x]]
    define totals' where "totals' = totals\<lparr>rb_written := rb_written totals + w,
      rb_entries := rb_entries totals + entries, rb_chunks := rb_chunks totals + 1\<rparr>"
    define lg' where "lg' = (if 100 dvd rb_chunks totals' then lg @ [\<lparr>log_chunks = rb_chunks totals',
      log_entries = rb_entries totals', log_written = rb_written totals', log_elapsed = clk (rb_chunks totals') - clk 0\<rparr>] else lg)"
    have lg': "map log_chunks lg' = map log_chunks lg @ logged_chunks (rb_chunks totals) (Suc 0)"
      by (simp add: lg'_def totals'_def logged_chunks_Suc)
    have drop: "drop i ?cs = ?cs ! i # drop (Suc i) ?cs"
      using Suc.prems(1) by (simp add: Cons_nth_drop_Suc)
    show ?thesis
    proof (cases "Suc i = length ?cs")
      case True
      then have "?loop (resume hashed thr i) totals lg d =
          Some (d', lg', Ok (totals'\<lparr>rb_root := final hashed\<rparr>))"
        using tx Inr x step unfolding totals'_def lg'_def by (subst rebuild_loop.simps) (simp add: Let_def)
      moreover have "totals_after totals (drop i ?cs) (final hashed) (totals'\<lparr>rb_root := final hashed\<rparr>)"
        using step True by (simp add: totals_after_def totals'_def drop)
      moreover have "length ?cs - i = Suc 0" using True by simp
      ultimately show ?thesis
        using step lg' True by (intro exI [of _ d'] exI [of _ lg'] exI [of _ "Ok (totals'\<lparr>rb_root := final hashed\<rparr>)"]
            exI [of _ "length ?cs"]) simp
    next
      case False
      then have loop: "?loop (resume hashed thr i) totals lg d = ?loop (resume hashed thr (Suc i)) totals' lg' d'"
        using tx Inr x step unfolding totals'_def lg'_def by (subst rebuild_loop.simps) (simp add: Let_def)
      have "n = length ?cs - Suc i" and "Suc i < length ?cs" using Suc.hyps(2) Suc.prems(1) False by auto
      from Suc.hyps(1) [OF this, of d' totals' lg'] step
      obtain d'' lg'' r j where rest: "?loop (resume hashed thr (Suc i)) totals' lg' d' = Some (d'', lg'', r)"
          "committed_others d'' = hashed" "Suc i \<le> j" "j \<le> length ?cs"
          "committed d'' = encode_rows db packed (chunks_content (take j ?cs))"
          "map log_chunks lg'' = map log_chunks lg' @ logged_chunks (rb_chunks totals') (j - Suc i)"
          "case r of Err e \<Rightarrow> j < length ?cs \<and> (\<exists>d0. committed_others d0 = hashed \<and>
              committed d0 = encode_rows db packed (chunks_content (take j ?cs)) \<and>
              in_tx db d0 (rebuild_chunk db walk packed thr (resume hashed thr j)) = (d'', Err e))
           | Ok r \<Rightarrow> j = length ?cs \<and> totals_after totals' (drop (Suc i) ?cs) (final hashed) r"
        by blast
      have "j - i = Suc (j - Suc i)" using rest(3) by simp
      then have "map log_chunks lg'' = map log_chunks lg @ logged_chunks (rb_chunks totals) (j - i)"
        using rest(6) lg' by (simp add: logged_chunks_Suc totals'_def)
      moreover have "totals_after totals (drop i ?cs) (final hashed) q"
        if "totals_after totals' (drop (Suc i) ?cs) (final hashed) q" for q
        using that step unfolding drop by (simp add: totals_after_def totals'_def)
      ultimately show ?thesis
        using rest loop by (intro exI [of _ d''] exI [of _ lg''] exI [of _ r] exI [of _ j])
          (auto split: sum.splits)
    qed
  qed
qed

end

context chunked_walk
begin

theorem reth_rebuild_runs:
  fixes codec :: "'st settings_codec"
  defines "hashed \<equiv> \<lambda>d. committed_others d" and "packed \<equiv> \<lambda>d. packed_of codec (committed_others d)"
  shows "\<exists>d' lg r. reth_rebuild clk db codec walk thr d = Some (d', lg, r) \<and> hashed d' = hashed d \<and>
    (case r of
       Ok r \<Rightarrow> committed d' = encode_rows db (packed d) (chunks_content (chunks (hashed d) thr)) \<and>
         map log_chunks lg = logged_chunks 0 (length (chunks (hashed d) thr)) \<and>
         totals_after \<lparr>rb_root = b256_zero, rb_entries = 0, rb_written = 0, rb_chunks = 0\<rparr>
           (chunks (hashed d) thr) (final (hashed d)) r
     | Err e \<Rightarrow> committed d' = committed d \<or>
         (\<exists>j < length (chunks (hashed d) thr).
           committed d' = encode_rows db (packed d) (chunks_content (take j (chunks (hashed d) thr)))))"
proof (cases "rbind (db_tx db d) (uses_packed_trie_keys db codec)")
  case (Inl e)
  then show ?thesis by (auto simp: reth_rebuild_def)
next
  case (Inr p)
  then obtain t0 where "db_tx db d = Ok t0" and "uses_packed_trie_keys db codec t0 = Ok p"
    by (auto simp: rbind_eq_Ok)
  then have p: "p = packed d"
    using uses_packed_Ok tx_others unfolding packed_def by metis
  obtain d1 r1 where clear: "clear_trie_tables db d = (d1, r1)" by fastforce
  have hashed: "committed_others d1 = hashed d"
    using clear_trie_tables_others [OF clear] by (simp add: hashed_def)
  show ?thesis
  proof (cases r1)
    case (Inl e)
    then have "reth_rebuild clk db codec walk thr d = Some (d1, [], Err e)" and "committed d1 = committed d"
      using Inr clear clear_trie_tables_Err by (auto simp: reth_rebuild_def)
    then show ?thesis using hashed by (auto simp: hashed_def)
  next
    case (Inr x)
    then have "committed d1 = encode_rows db (packed d) (chunks_content (take 0 (chunks (hashed d) thr)))"
      using clear clear_trie_tables_Ok by simp
    note start = hashed this
    have "0 < length (chunks (hashed d) thr)" using chunks_not_Nil by simp
    from rebuild_loop_runs [OF this start,
        of clk "\<lparr>rb_root = b256_zero, rb_entries = 0, rb_written = 0, rb_chunks = 0\<rparr>" "[]"]
    show ?thesis
    proof (elim exE conjE, goal_cases)
      case (1 d' lg r j)
      have "reth_rebuild clk db codec walk thr d = Some (d', lg, r)"
        using \<open>rbind (db_tx db d) (uses_packed_trie_keys db codec) = Ok p\<close> clear Inr p 1(1)
        by (simp add: reth_rebuild_def rebuild_def resume_0)
      then show ?case
        using 1(2-) by (cases r) (auto simp: hashed_def)
    qed
  qed
qed

end

section \<open>A database and a walk that do not fail\<close>

locale reliable_walk =
  chunked_walk db rows position committed others committed_others walk chunks resume final +
  reliable_store db rows position committed others committed_others
  for db :: "('d, 't, 'k) trie_db" and rows and position and committed and others and committed_others
    and walk :: "('t, 'w) state_root_walk" and chunks and resume and final +
  assumes walk_succeeds: "i < length (chunks hashed thr) \<Longrightarrow> others t = hashed \<Longrightarrow>
      rows t = encode_rows db packed (chunks_content (take i (chunks hashed thr))) \<Longrightarrow>
      \<exists>progress. root_with_progress walk packed t (resume hashed thr i) thr = Ok progress"
begin

lemma rebuild_chunk_succeeds:
  assumes "i < length (chunks hashed thr)" and "committed_others d = hashed"
    and "committed d = encode_rows db packed (chunks_content (take i (chunks hashed thr)))"
  shows "\<exists>d' x. in_tx db d (rebuild_chunk db walk packed thr (resume hashed thr i)) = (d', Ok x)"
proof -
  obtain t where t: "db_tx_mut db d = Ok t" using tx_mut_succeeds by blast
  have "others t = hashed" "rows t = encode_rows db packed (chunks_content (take i (chunks hashed thr)))"
    using tx_mut_rows [OF t] tx_mut_others [OF t] assms(2,3) by simp_all
  then obtain progress where
    p: "root_with_progress walk packed t (resume hashed thr i) thr = Ok progress"
    using walk_succeeds [OF assms(1)] by blast
  obtain next' root entries u where
    x: "(case progress of Progress next entries updates \<Rightarrow> (Some next, None, entries, updates)
       | Complete root entries updates \<Rightarrow> (None, Some root, entries, updates)) = (next', root, entries, u)"
    by (metis prod_cases4)
  obtain w t' where "write_trie_updates_with db packed u t = Ok (w, t')"
    using write_trie_updates_with_succeeds by blast
  then have "rebuild_chunk db walk packed thr (resume hashed thr i) t = Ok ((next', root, entries, w), t')"
    using p x by (simp add: rebuild_chunk_def)
  moreover obtain d' where "tx_commit db t' d = (d', Ok ())" using commit_succeeds by blast
  ultimately show ?thesis using t by (simp add: in_tx_def)
qed

theorem reth_rebuild_completes:
  fixes codec :: "'st settings_codec"
  defines "hashed \<equiv> \<lambda>d. committed_others d" and "packed \<equiv> \<lambda>d. packed_of codec (committed_others d)"
  shows "\<exists>d' lg r. reth_rebuild clk db codec walk thr d = Some (d', lg, Ok r) \<and> hashed d' = hashed d \<and>
    committed d' = encode_rows db (packed d) (chunks_content (chunks (hashed d) thr)) \<and>
    totals_after \<lparr>rb_root = b256_zero, rb_entries = 0, rb_written = 0, rb_chunks = 0\<rparr>
      (chunks (hashed d) thr) (final (hashed d)) r"
proof -
  obtain t0 where "db_tx db d = Ok t0" using tx_succeeds by blast
  then have p: "rbind (db_tx db d) (uses_packed_trie_keys db codec) = Ok (packed d)"
    using uses_packed_succeeds [of codec t0] tx_others by (simp add: packed_def)
  obtain d1 where clear: "clear_trie_tables db d = (d1, Ok ())" using clear_trie_tables_succeeds by blast
  have start: "committed_others d1 = hashed d"
    "committed d1 = encode_rows db (packed d) (chunks_content (take 0 (chunks (hashed d) thr)))"
    using clear_trie_tables_others [OF clear] clear_trie_tables_Ok [OF clear] by (simp_all add: hashed_def)
  have "0 < length (chunks (hashed d) thr)" using chunks_not_Nil by simp
  from rebuild_loop_runs [OF this start,
      of clk "\<lparr>rb_root = b256_zero, rb_entries = 0, rb_written = 0, rb_chunks = 0\<rparr>" "[]"]
  show ?thesis
  proof (elim exE conjE, goal_cases)
    case (1 d' lg r j)
    have run: "reth_rebuild clk db codec walk thr d = Some (d', lg, r)"
      using p clear 1(1) by (simp add: reth_rebuild_def rebuild_def resume_0)
    show ?case
    proof (cases r)
      case (Inl e)
      then show ?thesis using 1(7) rebuild_chunk_succeeds [of j "hashed d" thr _ "packed d"] by force
    next
      case (Inr x)
      then show ?thesis using run 1(2-) by (auto simp: hashed_def)
    qed
  qed
qed

end

text \<open>A walk that hands out a given list of chunks; the sets with repeated keys are dropped.\<close>

definition script_chunks :: "(nat \<times> trie_updates) list \<Rightarrow> (nat \<times> trie_updates) list" where
  "script_chunks cs = (let ds = filter (\<lambda>c. updates_wf (snd c)) cs in
     if ds = [] then [(0, default_updates)] else ds)"

definition scripted_walk :: "b256 \<Rightarrow> (nat \<times> trie_updates) list \<Rightarrow> ('t, nat) state_root_walk" where
  "scripted_walk root cs = \<lparr>
     root_with_progress = (\<lambda>packed t state thr.
       let i = (case state of None \<Rightarrow> 0 | Some i \<Rightarrow> i); c = script_chunks cs ! i in
       Ok (if Suc i < length (script_chunks cs) then Progress (Suc i) (fst c) (snd c)
           else Complete root (fst c) (snd c))),
     serial_root = (\<lambda>packed t. Ok root),
     root_with_updates = (\<lambda>packed t. Ok (root, default_updates))\<rparr>"

definition script_resume :: "nat \<Rightarrow> nat option" where
  "script_resume i = (if i = 0 then None else Some i)"

lemma script_chunks_wf: "c \<in> set (script_chunks cs) \<Longrightarrow> updates_wf (snd c)"
  by (auto simp: script_chunks_def Let_def split: if_splits)

lemma script_chunks_not_Nil [simp]: "script_chunks cs \<noteq> []"
  by (simp add: script_chunks_def Let_def)

lemma script_resume_simps [simp]: "script_resume 0 = None" "script_resume (Suc i) = Some (Suc i)"
  by (simp_all add: script_resume_def)

lemma script_walk_step:
  "root_with_progress (scripted_walk root cs) packed t (script_resume i) thr =
   Ok (if Suc i < length (script_chunks cs)
       then Progress (Suc i) (fst (script_chunks cs ! i)) (snd (script_chunks cs ! i))
       else Complete root (fst (script_chunks cs ! i)) (snd (script_chunks cs ! i)))"
  by (simp add: scripted_walk_def script_resume_def Let_def)

interpretation script: reliable_walk ref_db ref_lookup ref_position ref_lookup ref_others ref_others
  "scripted_walk root cs" "\<lambda>_ _. script_chunks cs" "\<lambda>_ _. script_resume" "\<lambda>_. root"
proof (unfold_locales, goal_cases)
  case (3 c)
  then show ?case by (rule script_chunks_wf)
qed (auto simp: script_walk_step)

section \<open>The nodes in the tables\<close>

definition chunk_events :: "(nat \<times> trie_updates) list \<Rightarrow> node_event list" where
  "chunk_events cs = concat (map (\<lambda>c. updates_events (snd c)) cs)"

lemma chunk_events_simps [simp]:
  "chunk_events [] = []" "chunk_events (cs @ [c]) = chunk_events cs @ updates_events (snd c)"
  by (simp_all add: chunk_events_def)

lemma chunks_content_inserts:
  assumes "\<forall>c \<in> set cs. updates_wf (snd c) \<and> no_removals (snd c)"
  shows "chunks_content cs = content_of (stored_events (chunk_events cs))"
  using assms
proof (induction cs rule: rev_induct)
  case Nil
  then show ?case by (simp add: stored_events_def)
next
  case (snoc c cs)
  then show ?case
    by (simp add: apply_updates_inserts content_updates_events [symmetric] without_roots_content
        without_roots_add content_of_append flip: without_roots_content)
qed

lemma sum_stored_events:
  "(\<Sum>c \<leftarrow> cs. length (stored_events (updates_events (snd c)))) = length (stored_events (chunk_events cs))"
  by (induction cs rule: rev_induct) (auto simp: stored_events_def)

context reliable_walk
begin

lemma reth_rebuild_nodes:
  fixes d and thr
  defines "cs \<equiv> chunks (committed_others d) thr"
  assumes "\<forall>c \<in> set cs. no_removals (snd c)"
  shows "\<exists>d' lg r. reth_rebuild clk db codec walk thr d = Some (d', lg, Ok r) \<and>
    committed d' = encode_rows db (packed_of codec (committed_others d)) (content_of (stored_events (chunk_events cs))) \<and>
    rb_root r = final (committed_others d) \<and> rb_chunks r = length cs \<and>
    rb_entries r = sum_list (map fst cs) \<and> rb_written r = length (stored_events (chunk_events cs))"
proof -
  have "\<forall>c \<in> set cs. updates_wf (snd c) \<and> no_removals (snd c)"
    using chunks_wf assms(2) unfolding cs_def by blast
  then show ?thesis
    using reth_rebuild_completes [of clk codec thr d] assms(2)
    unfolding cs_def [symmetric] by (auto simp: totals_after_def chunks_content_inserts sum_stored_events)
qed

end

section \<open>Properties\<close>



text \<open>
  C7: On a database and a walk that do not fail the rebuild succeeds. If no chunk removes a node,
  the tables hold exactly the last node the walk emitted for every path that is not empty,
  however the walk splits its nodes into chunks, and nothing of what they held before; \<open>written\<close>
  counts those emissions, \<open>entries\<close> the entries walked.
\<close>

theorem reth_rebuild_rebuilds:
  assumes "reliable_walk db rows position committed others committed_others walk chunks resume final"
    and "hashed = committed_others d"
    and "\<forall>c \<in> set (chunks hashed thr). no_removals (snd c)"
  shows "\<exists>d' lg r. reth_rebuild clk db codec walk thr d = Some (d', lg, Ok r) \<and>
    committed d' = encode_rows db (packed_of codec hashed)
      (content_of (stored_events (chunk_events (chunks hashed thr)))) \<and>
    rb_root r = final hashed \<and> rb_chunks r = length (chunks hashed thr) \<and>
    rb_entries r = sum_list (map fst (chunks hashed thr)) \<and>
    rb_written r = length (stored_events (chunk_events (chunks hashed thr)))"
  using reliable_walk.reth_rebuild_nodes [OF assms(1), of d thr clk codec] assms(3) unfolding assms(2) [symmetric] by blast

theorem reth_rebuild_rebuilds_witness:
  "\<exists>d' lg r. reth_rebuild (\<lambda>n. n) ref_db flag_codec (scripted_walk 9 [(4, sample_updates), (3, sample_updates)]) None
     (ref_empty False) = Some (d', lg, Ok r) \<and> rb_root r = 9 \<and> rb_entries r = 7 \<and> rb_chunks r = 2 \<and> rb_written r = 4"
proof -
  have "\<forall>c \<in> set (script_chunks [(4, sample_updates), (3, sample_updates)]). no_removals (snd c)"
    by (simp add: script_chunks_def sample_updates_wf)
  from reth_rebuild_rebuilds [OF script.reliable_walk_axioms [where root = 9] refl this,
      where d = "ref_empty False" and codec = flag_codec and thr = None and clk = "\<lambda>n. n"]
  show ?thesis
    by (auto simp: script_chunks_def sample_updates_wf chunk_events_def stored_events_def
        sample_updates_stored [unfolded stored_events_def])
qed
end
