(* ===== verification/Table_Digest.thy ===== *)
theory Table_Digest
  imports Node_Digest Table_Rebuild
begin

text \<open>
  The digest of the committed trie tables and the roots reth computes (\<^verbatim>\<open>mdbx.rs\<close>). The storage
  table is scanned in sixteen address ranges in parallel, each range pushing its rows into the one
  digest; the order in which the rows are pushed is chosen by a scheduler, an argument of the
  definitions that may return any interleaving of the ranges. The digest that results is the one
  of the nodes the tables hold.
\<close>

section \<open>Model\<close>

record trie_tables_digest =
  tt_account_nodes :: u64
  tt_storage_nodes :: u64
  tt_digest :: digest

text \<open>The bounds of a range: the addresses with a given first nibble.\<close>

definition range_low :: "u8 \<Rightarrow> b256" where
  "range_low nib = right_padding_from [push_bit 4 nib]"

definition range_high :: "u8 \<Rightarrow> b256" where
  "range_high nib = b256_set_byte 0 (push_bit 4 nib OR 0xf) (repeat_byte 0xff)"

text \<open>The loop over the entries of a cursor: the first entry that cannot be read ends it.\<close>

fun read_entries :: "(db_error + 'a) list \<Rightarrow> db_error + 'a list" where
  "read_entries [] = Ok []"
| "read_entries (Err e # rs) = Err e"
| "read_entries (Ok x # rs) = rbind (read_entries rs) (\<lambda>xs. Ok (x # xs))"

definition account_events :: "('d, 't, 'k) trie_db \<Rightarrow> bool \<Rightarrow> 't \<Rightarrow> db_error + node_event list" where
  "account_events db packed t = rbind (tx_walk_accounts db t) (\<lambda>entries.
     rbind (read_entries entries) (\<lambda>rs.
       Ok (map (\<lambda>(key, node). (None, account_key_to_nibbles db packed key, node)) rs)))"

definition range_events :: "('d, 't, 'k) trie_db \<Rightarrow> bool \<Rightarrow> 't \<Rightarrow> u8 \<Rightarrow> db_error + node_event list" where
  "range_events db packed t nib =
     rbind (tx_walk_storages db (range_low nib) (range_high nib) t) (\<lambda>entries.
     rbind (read_entries entries) (\<lambda>rs.
       Ok (map (\<lambda>(hashed_address, subkey, node).
         (Some hashed_address, subkey_to_nibbles db packed subkey, node)) rs)))"

fun all_ranges :: "('d, 't, 'k) trie_db \<Rightarrow> bool \<Rightarrow> 't \<Rightarrow> u8 list \<Rightarrow> db_error + node_event list list" where
  "all_ranges db packed t [] = Ok []"
| "all_ranges db packed t (nib # nibs) = rbind (range_events db packed t nib) (\<lambda>es.
     rbind (all_ranges db packed t nibs) (\<lambda>ess. Ok (es # ess)))"

definition digest_tables :: "('d, 't, 'k) trie_db \<Rightarrow> hasher \<Rightarrow> (node_event list list \<Rightarrow> node_event list) \<Rightarrow>
    bool \<Rightarrow> 't \<Rightarrow> db_error + trie_tables_digest" where
  "digest_tables db h schedule packed t =
     rbind (account_events db packed t) (\<lambda>accounts.
     let digest = fold (push h) accounts digest_default in
     rbind (all_ranges db packed t (map of_nat [0..<16])) (\<lambda>ranges.
     let digest = fold (push h) (schedule ranges) digest in
     Ok \<lparr>tt_account_nodes = of_nat (length accounts),
       tt_storage_nodes = sum_list (map (\<lambda>es. of_nat (length es)) ranges),
       tt_digest = snapshot digest\<rparr>))"

definition digest_trie_tables :: "('d, 't, 'k) trie_db \<Rightarrow> 'st settings_codec \<Rightarrow> hasher \<Rightarrow>
    (node_event list list \<Rightarrow> node_event list) \<Rightarrow> 't \<Rightarrow> db_error + trie_tables_digest" where
  "digest_trie_tables db codec h schedule t =
     rbind (uses_packed_trie_keys db codec t) (\<lambda>packed. digest_tables db h schedule packed t)"

definition reth_root_with_updates :: "('d, 't, 'k) trie_db \<Rightarrow> ('t, 'w) state_root_walk \<Rightarrow> 'd \<Rightarrow>
    db_error + b256 \<times> trie_updates" where
  "reth_root_with_updates db walk d = rbind (db_tx db d) (\<lambda>t.
     case root_with_updates walk False t of Err msg \<Rightarrow> Err (Other msg) | Ok r \<Rightarrow> Ok r)"

definition reth_serial_root :: "('d, 't, 'k) trie_db \<Rightarrow> 'st settings_codec \<Rightarrow> ('t, 'w) state_root_walk \<Rightarrow>
    't \<Rightarrow> db_error + b256" where
  "reth_serial_root db codec walk t = rbind (uses_packed_trie_keys db codec t) (\<lambda>packed.
     case serial_root walk packed t of Err msg \<Rightarrow> Err (Other msg) | Ok root \<Rightarrow> Ok root)"

section \<open>The ranges partition the addresses\<close>

lemma byte_value_zeros [simp]: "byte_value (replicate n 0) = 0"
  by (induction n) (simp_all add: byte_value_Cons, simp add: byte_value_def)

lemma byte_value_ones: "Suc (byte_value (replicate n 0xff)) = 256 ^ n"
  by (induction n) (simp_all add: byte_value_Cons, simp add: byte_value_def)

lemma unat_b256: "unat a = unat (b256_byte a 0) * 256 ^ 31 + byte_value (tl (b256_bytes a))"
proof -
  have "b256_bytes a = b256_byte a 0 # tl (b256_bytes a)"
    by (simp add: b256_bytes_def upt_conv_Cons)
  then have "byte_value (b256_bytes a) = unat (b256_byte a 0) * 256 ^ 31 + byte_value (tl (b256_bytes a))"
    using byte_value_Cons [of "b256_byte a 0" "tl (b256_bytes a)"] by simp
  then show ?thesis using unat_b256_of_bytes [of "b256_bytes a"] by simp
qed

lemma b256_tail_less: "byte_value (tl (b256_bytes a)) < 256 ^ 31"
  using byte_value_less [of "tl (b256_bytes a)"] by simp

lemma unat_range_low: "unat (range_low nib) = unat (push_bit 4 nib) * 256 ^ 31"
  by (simp add: range_low_def right_padding_from_def unat_b256_of_bytes byte_value_Cons)

lemma unat_range_high:
  "Suc (unat (range_high nib)) = (unat (push_bit 4 nib OR 0xf) + 1) * 256 ^ 31"
proof -
  have "(b256_bytes (repeat_byte 0xff))[0 := x] = x # replicate 31 0xff" for x
    unfolding repeat_byte_def by (subst b256_bytes_of_bytes) (simp_all add: numeral_eq_Suc)
  then have "unat (range_high nib) = byte_value ((push_bit 4 nib OR 0xf) # replicate 31 0xff)"
    unfolding range_high_def b256_set_byte_def by (simp only: unat_b256_of_bytes length_Cons length_replicate)
  then show ?thesis using byte_value_ones [of 31] by (simp add: byte_value_Cons)
qed

lemma nibble_bytes:
  assumes "n < 16"
  shows "unat (push_bit 4 (of_nat n :: u8)) = 16 * n" and "unat (push_bit 4 (of_nat n :: u8) OR 0xf) = 16 * n + 15"
proof -
  have "\<forall>n \<in> {0..<16 :: nat}. unat (push_bit 4 (of_nat n :: u8)) = 16 * n \<and>
      unat (push_bit 4 (of_nat n :: u8) OR 0xf) = 16 * n + 15"
    by (simp add: atLeastLessThan_upt upt_rec)
  then show "unat (push_bit 4 (of_nat n :: u8)) = 16 * n" "unat (push_bit 4 (of_nat n :: u8) OR 0xf) = 16 * n + 15"
    using assms by auto
qed

lemma in_range_iff:
  assumes "n < 16"
  shows "range_low (of_nat n) \<le> a \<and> a \<le> range_high (of_nat n) \<longleftrightarrow> unat (first_nibble a) = n"
proof -
  let ?b = "unat (b256_byte a 0)" and ?B = "256 ^ 31 :: nat" and ?r = "byte_value (tl (b256_bytes a))"
  have "unat (first_nibble a) = ?b div 16"
    unfolding first_nibble_def unat_drop_bit_eq by (simp add: drop_bit_eq_div)
  moreover have "range_low (of_nat n) \<le> a \<longleftrightarrow> 16 * n * ?B \<le> ?b * ?B + ?r"
    by (simp only: word_le_nat_alt unat_range_low nibble_bytes [OF assms] unat_b256 [of a])
  moreover have "a \<le> range_high (of_nat n) \<longleftrightarrow> ?b * ?B + ?r < (16 * n + 16) * ?B"
  proof -
    have "a \<le> range_high (of_nat n) \<longleftrightarrow> unat a < Suc (unat (range_high (of_nat n)))"
      by (simp only: word_le_nat_alt less_Suc_eq_le)
    then show ?thesis
      by (simp only: unat_range_high nibble_bytes [OF assms] unat_b256 [of a]) (simp add: algebra_simps)
  qed
  moreover have "16 * n * ?B \<le> ?b * ?B + ?r \<longleftrightarrow> 16 * n \<le> ?b"
  proof
    assume "16 * n * ?B \<le> ?b * ?B + ?r"
    then have "16 * n * ?B < (?b + 1) * ?B" using b256_tail_less [of a] by (simp only: distrib_right mult_1)
    then show "16 * n \<le> ?b" by (simp only: mult_less_cancel2) simp
  next
    assume "16 * n \<le> ?b"
    then have "16 * n * ?B \<le> ?b * ?B" by (rule mult_le_mono1)
    then show "16 * n * ?B \<le> ?b * ?B + ?r" by linarith
  qed
  moreover have "?b * ?B + ?r < (16 * n + 16) * ?B \<longleftrightarrow> ?b < 16 * n + 16"
  proof
    assume "?b * ?B + ?r < (16 * n + 16) * ?B"
    then have "?b * ?B < (16 * n + 16) * ?B" by linarith
    then show "?b < 16 * n + 16" by (simp only: mult_less_cancel2)
  next
    assume "?b < 16 * n + 16"
    then have "(?b + 1) * ?B \<le> (16 * n + 16) * ?B" by (intro mult_le_mono1) simp
    then show "?b * ?B + ?r < (16 * n + 16) * ?B"
      using b256_tail_less [of a] by (simp only: distrib_right mult_1)
  qed
  ultimately show ?thesis by auto
qed

section \<open>What the scans yield\<close>

lemma read_entries_Ok: "read_entries rs = Ok xs \<longleftrightarrow> rs = map Ok xs"
  by (induction rs arbitrary: xs rule: read_entries.induct) (auto simp: rbind_eq_Ok Cons_eq_map_conv)

lemma content_of_mem:
  assumes "distinct (map event_key es)"
  shows "content_of es (a, p) = Some n \<longleftrightarrow> (a, p, n) \<in> set es"
proof -
  have "distinct (map fst (map event_entry (rev es)))"
    using assms by (simp add: comp_def flip: rev_map)
  then have "content_of es (a, p) = Some n \<longleftrightarrow> ((a, p), n) \<in> event_entry ` set es"
    unfolding content_of_def by (simp add: map_of_eq_Some_iff)
  also have "\<dots> \<longleftrightarrow> (a, p, n) \<in> set es" by force
  finally show ?thesis .
qed

text \<open>\<open>es\<close> lists the nodes of a content that satisfy a condition on the key, each once.\<close>

definition lists_nodes :: "(b256 option \<Rightarrow> bool) \<Rightarrow> table_content \<Rightarrow> node_event list \<Rightarrow> bool" where
  "lists_nodes P m es \<longleftrightarrow> distinct (map event_key es) \<and>
     (\<forall>a p n. (a, p, n) \<in> set es \<longleftrightarrow> P a \<and> m (a, p) = Some n)"

lemma lists_nodes_append:
  assumes "lists_nodes P m es" and "lists_nodes Q m fs" and "\<And>a. \<not> (P a \<and> Q a)"
  shows "lists_nodes (\<lambda>a. P a \<or> Q a) m (es @ fs)"
proof -
  have "event_key e \<notin> event_key ` set fs" if "e \<in> set es" for e
  proof
    assume "event_key e \<in> event_key ` set fs"
    then obtain f where f: "f \<in> set fs" "event_key e = event_key f" by auto
    obtain a p n where e: "e = (a, p, n)" by (cases e)
    then obtain n' where "f = (a, p, n')" using f(2) by (cases f) auto
    then show False using assms that e f(1) by (auto simp: lists_nodes_def)
  qed
  then have "event_key ` set es \<inter> event_key ` set fs = {}" by blast
  then show ?thesis using assms(1,2) by (auto simp: lists_nodes_def)
qed

lemma lists_nodes_mset:
  assumes "lists_nodes (\<lambda>_. True) (content_of es) fs" and "distinct (map event_key es)"
  shows "mset fs = mset es"
proof (rule mset_events_of_content)
  show d: "distinct (map event_key fs)" using assms(1) by (simp add: lists_nodes_def)
  show "distinct (map event_key es)" by (rule assms(2))
  show "content_of fs = content_of es"
  proof (rule ext, unfold split_paired_all)
    fix a p
    have "content_of fs (a, p) = Some n \<longleftrightarrow> content_of es (a, p) = Some n" for n
      using assms(1) by (simp add: content_of_mem [OF d] lists_nodes_def)
    then show "content_of fs (a, p) = content_of es (a, p)" by (metis not_None_eq)
  qed
qed

context scannable_store
begin

lemma encode_account_Some:
  "encode_rows db packed m (None, k) = Some n \<longleftrightarrow>
   account_key db packed (account_key_to_nibbles db packed k) = k \<and>
   m (None, account_key_to_nibbles db packed k) = Some n"
  by (simp add: encode_rows_def Let_def)

lemma encode_storage_Some:
  "encode_rows db packed m (Some a, k) = Some n \<longleftrightarrow>
   storage_subkey db packed (subkey_to_nibbles db packed k) = k \<and>
   m (Some a, subkey_to_nibbles db packed k) = Some n"
  by (simp add: encode_rows_def Let_def)

lemma account_events_list:
  assumes "account_events db packed t = Ok es" and "rows t = encode_rows db packed m"
  shows "lists_nodes (\<lambda>a. a = None) m es"
proof -
  let ?p = "account_key_to_nibbles db packed"
  obtain rs where walk: "tx_walk_accounts db t = Ok (map Ok rs)"
      and es: "es = map (\<lambda>(key, node). (None, ?p key, node)) rs"
    using assms(1) by (auto simp: account_events_def rbind_eq_Ok read_entries_Ok)
  have d: "distinct (map fst rs)" and m: "map_of rs = (\<lambda>k. rows t (None, k))"
    using walk_accounts [OF walk] by simp_all
  have rs: "(k, n) \<in> set rs \<longleftrightarrow> account_key db packed (?p k) = k \<and> m (None, ?p k) = Some n" for k n
    using map_of_eq_Some_iff [OF d, of k n] by (simp add: m assms(2) encode_account_Some)
  have "map fst rs = map (\<lambda>(a, p). account_key db packed p) (map event_key es)"
    by (auto simp: es rs)
  then have "distinct (map event_key es)" using d by (simp only: distinct_map)
  moreover have "(a, p, n) \<in> set es \<longleftrightarrow> a = None \<and> m (a, p) = Some n" for a p n
  proof -
    have mem: "(a, p, n) \<in> set es \<longleftrightarrow> (\<exists>k. (k, n) \<in> set rs \<and> a = None \<and> p = ?p k)" by (force simp: es)
    have "(account_key db packed p, n) \<in> set rs \<longleftrightarrow> m (None, p) = Some n"
      by (simp add: rs account_key_roundtrip)
    moreover have "(k, n) \<in> set rs \<Longrightarrow> k = account_key db packed (?p k)" for k by (simp add: rs)
    ultimately show ?thesis unfolding mem by (metis account_key_roundtrip)
  qed
  ultimately show ?thesis by (simp add: lists_nodes_def)
qed

lemma range_events_list:
  assumes "range_events db packed t (of_nat i) = Ok es" and "rows t = encode_rows db packed m" and "i < 16"
  shows "lists_nodes (\<lambda>a. \<exists>b. a = Some b \<and> unat (first_nibble b) = i) m es"
proof -
  let ?p = "subkey_to_nibbles db packed"
  obtain rs where walk: "tx_walk_storages db (range_low (of_nat i)) (range_high (of_nat i)) t = Ok (map Ok rs)"
      and es: "es = map (\<lambda>(a, k, n). (Some a, ?p k, n)) rs"
    using assms(1) by (auto simp: range_events_def rbind_eq_Ok read_entries_Ok)
  have d: "distinct (map (\<lambda>r. (fst r, fst (snd r))) rs)"
    using walk_storages [OF walk] by (rule conjunct1)
  have rs: "(a, k, n) \<in> set rs \<longleftrightarrow> unat (first_nibble a) = i \<and> storage_subkey db packed (?p k) = k \<and>
      m (Some a, ?p k) = Some n" for a k n
  proof -
    have "(a, k, n) \<in> set rs \<longleftrightarrow> range_low (of_nat i) \<le> a \<and> a \<le> range_high (of_nat i) \<and> rows t (Some a, k) = Some n"
      by (rule walk_storages [OF walk, THEN conjunct2, rule_format])
    also have "\<dots> \<longleftrightarrow> unat (first_nibble a) = i \<and> rows t (Some a, k) = Some n"
      unfolding conj_assoc [symmetric] in_range_iff [OF assms(3)] ..
    finally show ?thesis by (simp only: assms(2) encode_storage_Some)
  qed
  have "map (\<lambda>r. (fst r, fst (snd r))) rs =
      map (\<lambda>(a, p). (the a, storage_subkey db packed p)) (map event_key es)"
    by (auto simp: es rs)
  then have "distinct (map event_key es)" using d by (simp only: distinct_map)
  moreover have "(a, p, n) \<in> set es \<longleftrightarrow> (\<exists>b. a = Some b \<and> unat (first_nibble b) = i) \<and> m (a, p) = Some n" for a p n
  proof -
    have mem: "(a, p, n) \<in> set es \<longleftrightarrow> (\<exists>b k. (b, k, n) \<in> set rs \<and> a = Some b \<and> p = ?p k)" by (force simp: es)
    have "(b, storage_subkey db packed p, n) \<in> set rs \<longleftrightarrow> unat (first_nibble b) = i \<and> m (Some b, p) = Some n" for b
      by (simp add: rs subkey_roundtrip)
    moreover have "(b, k, n) \<in> set rs \<Longrightarrow> k = storage_subkey db packed (?p k)" for b k by (simp add: rs)
    ultimately show ?thesis unfolding mem by (metis subkey_roundtrip)
  qed
  ultimately show ?thesis by (simp add: lists_nodes_def)
qed

lemma all_ranges_list:
  assumes "all_ranges db packed t (map of_nat is) = Ok ess" and "rows t = encode_rows db packed m"
    and "distinct is" and "set is \<subseteq> {0..<16}"
  shows "lists_nodes (\<lambda>a. \<exists>b. a = Some b \<and> unat (first_nibble b) \<in> set is) m (concat ess)"
  using assms(1,3,4)
proof (induction "is" arbitrary: ess)
  case Nil
  then show ?case by (simp add: lists_nodes_def)
next
  case (Cons i "is")
  obtain es ess' where es: "range_events db packed t (of_nat i) = Ok es"
      and ess': "all_ranges db packed t (map of_nat is) = Ok ess'" "ess = es # ess'"
    using Cons.prems(1) by (auto simp: rbind_eq_Ok)
  have "lists_nodes (\<lambda>a. (\<exists>b. a = Some b \<and> unat (first_nibble b) = i) \<or>
      (\<exists>b. a = Some b \<and> unat (first_nibble b) \<in> set is)) m (es @ concat ess')"
    using range_events_list [OF es assms(2)] Cons.IH [OF ess'(1)] Cons.prems
    by (intro lists_nodes_append) auto
  then show ?case by (auto simp: lists_nodes_def ess'(2))
qed

end

section \<open>The digest of the tables\<close>

text \<open>A scheduler may return any interleaving of the ranges.\<close>

definition fair_schedule :: "(node_event list list \<Rightarrow> node_event list) \<Rightarrow> bool" where
  "fair_schedule schedule \<longleftrightarrow> (\<forall>ess. interleaves ess (schedule ess))"

definition events_summary :: "hasher \<Rightarrow> node_event list \<Rightarrow> trie_tables_digest" where
  "events_summary h es = \<lparr>tt_account_nodes = of_nat (length (filter (\<lambda>e. fst e = None) es)),
     tt_storage_nodes = of_nat (length (filter (\<lambda>e. fst e \<noteq> None) es)),
     tt_digest = snapshot (fold (push h) es digest_default)\<rparr>"

lemma sum_of_nat_length: "sum_list (map (\<lambda>es. of_nat (length es) :: u64) ess) = of_nat (length (concat ess))"
  by (induction ess) auto

context scannable_store
begin

lemma digest_tables_summary:
  assumes "digest_tables db h schedule packed t = Ok r" and "fair_schedule schedule"
    and "rows t = encode_rows db packed (content_of es)" and "distinct (map event_key es)"
  shows "r = events_summary h es"
proof -
  obtain accounts ranges where acc: "account_events db packed t = Ok accounts"
      and rng: "all_ranges db packed t (map of_nat [0..<16]) = Ok ranges"
      and r: "r = \<lparr>tt_account_nodes = of_nat (length accounts),
        tt_storage_nodes = sum_list (map (\<lambda>es. of_nat (length es)) ranges),
        tt_digest = snapshot (fold (push h) (schedule ranges) (fold (push h) accounts digest_default))\<rparr>"
    using assms(1) by (auto simp: digest_tables_def rbind_eq_Ok Let_def)
  have A: "lists_nodes (\<lambda>a. a = None) (content_of es) accounts"
    by (rule account_events_list [OF acc assms(3)])
  have "lists_nodes (\<lambda>a. \<exists>b. a = Some b \<and> unat (first_nibble b) \<in> set [0..<16]) (content_of es) (concat ranges)"
    by (rule all_ranges_list [OF rng assms(3)]) auto
  moreover have "unat (first_nibble b) \<in> set [0..<16]" for b using first_nibble_less [of b] by simp
  ultimately have S: "lists_nodes (\<lambda>a. \<exists>b. a = Some b) (content_of es) (concat ranges)" by simp
  have "lists_nodes (\<lambda>a. a = None \<or> (\<exists>b. a = Some b)) (content_of es) (accounts @ concat ranges)"
    by (rule lists_nodes_append [OF A S]) auto
  moreover have "(\<lambda>a :: b256 option. a = None \<or> (\<exists>b. a = Some b)) = (\<lambda>_. True)"
    by (rule ext) (case_tac a, auto)
  ultimately have "lists_nodes (\<lambda>_. True) (content_of es) (accounts @ concat ranges)" by simp
  then have perm: "mset (accounts @ concat ranges) = mset es"
    by (rule lists_nodes_mset) (rule assms(4))
  have a: "filter (\<lambda>e. fst e = None) accounts = accounts" "filter (\<lambda>e. fst e \<noteq> None) accounts = []"
    using A by (auto simp: lists_nodes_def filter_id_conv filter_empty_conv)
  have s: "filter (\<lambda>e. fst e = None) (concat ranges) = []" "filter (\<lambda>e. fst e \<noteq> None) (concat ranges) = concat ranges"
    using S unfolding lists_nodes_def filter_id_conv filter_empty_conv by (metis option.distinct(1) prod.collapse)+
  have "length accounts = length (filter (\<lambda>e. fst e = None) es)"
    using length_filter_mset [OF perm, of "\<lambda>e. fst e = None"] a s by simp
  moreover have "length (concat ranges) = length (filter (\<lambda>e. fst e \<noteq> None) es)"
    using length_filter_mset [OF perm, of "\<lambda>e. fst e \<noteq> None"] a s by simp
  moreover have "mset (accounts @ schedule ranges) = mset es"
    using perm interleaves_mset [of ranges "schedule ranges"] assms(2) by (simp add: fair_schedule_def)
  then have "snapshot (fold (push h) (accounts @ schedule ranges) digest_default) =
      snapshot (fold (push h) es digest_default)"
    by (rule digest_permute)
  ultimately show ?thesis by (simp add: r events_summary_def sum_of_nat_length del: length_concat)
qed

end

context full_store
begin

lemma digest_trie_tables_summary:
  assumes "digest_trie_tables db codec h schedule t = Ok r" and "fair_schedule schedule"
    and "rows t = encode_rows db (packed_of codec (others t)) (content_of es)"
    and "distinct (map event_key es)"
  shows "r = events_summary h es"
proof -
  obtain packed where p: "uses_packed_trie_keys db codec t = Ok packed"
      and d: "digest_tables db h schedule packed t = Ok r"
    using assms(1) by (auto simp: digest_trie_tables_def rbind_eq_Ok)
  show ?thesis
    by (rule digest_tables_summary [OF d assms(2) _ assms(4)])
      (use uses_packed_Ok [OF p] assms(3) in simp)
qed

end

context reliable_store
begin

lemma digest_tables_succeeds: "\<exists>r. digest_tables db h schedule packed t = Ok r"
proof -
  have read: "read_entries (map Ok rs) = Ok rs" for rs :: "'x list"
    by (simp add: read_entries_Ok)
  obtain rs where "tx_walk_accounts db t = Ok (map Ok rs)" using walk_accounts_succeeds by blast
  then obtain accounts where acc: "account_events db packed t = Ok accounts"
    by (simp add: account_events_def read)
  have range: "\<exists>es. range_events db packed t nib = Ok es" for nib
  proof -
    obtain rs where "tx_walk_storages db (range_low nib) (range_high nib) t = Ok (map Ok rs)"
      using walk_storages_succeeds by blast
    then show ?thesis by (simp add: range_events_def read)
  qed
  have "\<exists>ess. all_ranges db packed t nibs = Ok ess" for nibs
  proof (induction nibs)
    case Nil
    then show ?case by simp
  next
    case (Cons nib nibs)
    then obtain ess where "all_ranges db packed t nibs = Ok ess" by blast
    moreover obtain es where "range_events db packed t nib = Ok es" using range by blast
    ultimately show ?case by simp
  qed
  then obtain ranges where "all_ranges db packed t (map of_nat [0..<16]) = Ok ranges" by blast
  then show ?thesis unfolding digest_tables_def acc rbind_Ok Let_def by simp
qed

lemma digest_trie_tables_succeeds: "\<exists>r. digest_trie_tables db codec h schedule t = Ok r"
  using uses_packed_succeeds [of codec t] digest_tables_succeeds by (simp add: digest_trie_tables_def)

end

section \<open>Properties\<close>

text \<open>
  The sixteen ranges partition the storage table: an address lies between the bounds of
  exactly one range, that of its first nibble.
\<close>

theorem ranges_partition_addresses:
  "\<exists>!i. i < 16 \<and> range_low (of_nat i) \<le> a \<and> a \<le> range_high (of_nat i)"
  using first_nibble_less [of a] in_range_iff [of _ a] by metis

text \<open>
  C10: When \<open>digest_trie_tables\<close> returns, its counts are those of the account and the storage nodes
  the tables hold, and its digest is the one a run that emits each of these nodes once reports,
  whatever the order in which the ranges were scanned, in both key encodings.
\<close>

theorem digest_trie_tables_of_nodes:
  assumes "full_store db rows position committed others committed_others"
    and "digest_trie_tables db codec h schedule t = Ok r" and "fair_schedule schedule"
    and "rows t = encode_rows db (packed_of codec (others t)) (content_of es)"
    and "distinct (map event_key es)"
  shows "tt_account_nodes r = of_nat (length (filter (\<lambda>e. fst e = None) es)) \<and>
    tt_storage_nodes r = of_nat (length (filter (\<lambda>e. fst e \<noteq> None) es)) \<and>
    tt_digest r = snapshot (fold (digest_on_branch_node h) es digest_default)"
  using full_store.digest_trie_tables_summary [OF assms]
  by (simp add: events_summary_def digest_on_branch_node_def [abs_def])

lemma fair_concat: "fair_schedule concat"
  by (simp add: fair_schedule_def interleaves_concat)

theorem digest_trie_tables_of_nodes_witness:
  "\<exists>r. digest_trie_tables ref_db flag_codec sample_hasher concat
      (ref_put (None, True, [3]) (Some (sample_branch 1)) (ref_empty True)) = Ok r \<and>
    tt_account_nodes r = 1 \<and> tt_storage_nodes r = 0"
proof -
  let ?t = "ref_put (None, True, [3]) (Some (sample_branch 1)) (ref_empty True)"
  have "ref_lookup ?t = encode_rows ref_db True (content_of [(None, [3], sample_branch 1)])"
    using ref_store.encode_account_upd [of True Map.empty "[3]" "Some (sample_branch 1)"]
    by (simp add: content_of_def) (simp add: ref_db_def)
  then have before: "ref_lookup ?t = encode_rows ref_db (packed_of flag_codec (ref_others ?t))
      (content_of [(None, [3], sample_branch 1)])" by simp
  obtain r where r: "digest_trie_tables ref_db flag_codec sample_hasher concat ?t = Ok r"
    using ref_store.digest_trie_tables_succeeds by blast
  show ?thesis
    using r digest_trie_tables_of_nodes [OF ref_store.full_store_axioms r fair_concat before] by simp
qed

end
