(* ===== verification/Bench_Report.thy ===== *)
theory Bench_Report
  imports Bench_Args Table_Digest Human_Bytes Rust_Duration
begin

text \<open>
  The lines \<^verbatim>\<open>datadir_bench\<close> prints (\<^verbatim>\<open>bin/datadir_bench.rs\<close>, and the log lines of \<^verbatim>\<open>rebuild.rs\<close>): a
  \<open>report\<close> is the data of a line, \<open>report_text\<close> its text. Durations are nanoseconds, peaks bytes. How
  a root is displayed is alloy's, an argument.
\<close>

section \<open>Model\<close>

datatype report =
    Usage string
  | Trie_Tables_Cleared
  | Tip_Block "u64 option"
  | Threads nat
  | Hashed_Entries u64
  | Progress_Line string
  | Rebuild_Line rebuild_log
  | Rebuild_Report rebuilt nat u64
  | Write_Report nat b256 u64 written nat u64
  | Build_Report nat b256 u64 digest nat u64
  | Serial_Report b256 nat u64
  | Tables_Report trie_tables_digest nat
  | Walked_Root b256 nat
  | Walk_Mismatch b256 b256
  | Root_Matches string
  | Root_Mismatch string b256

definition newline :: string where "newline = [CHR 0x0A]"

definition usage_text :: "string \<Rightarrow> string" where
  "usage_text msg = msg @ newline @ ''usage: datadir_bench --datadir PATH [--threads N] [--repeat N] [--expected-root 0x..] '' @
     ''[--write] [--chunk-nodes N] [--reth-serial] [--reth-rebuild] [--clear-trie-tables] [--digest-trie-tables]''"

definition digest_text :: "digest \<Rightarrow> string" where
  "digest_text d = ''nodes '' @ show_u64 (count d) @ '' digest '' @ show_hex 32 (unat (xor_fold d))"

definition elapsed_text :: "nat \<Rightarrow> string" where
  "elapsed_text d = '' elapsed '' @ show_duration 2 d"

definition peak_text :: "u64 \<Rightarrow> string" where
  "peak_text peak = '' peak heap '' @ the (human_bytes peak)"

fun rebuild_line :: "rebuild_log \<Rightarrow> string" where
  "rebuild_line lg = ''chunk '' @ show_nat (log_chunks lg) @ '': '' @ show_nat (log_entries lg) @ '' entries walked, '' @
     show_nat (log_written lg) @ '' nodes written, '' @ show_duration 0 (log_elapsed lg)"

fun report_text :: "(b256 \<Rightarrow> string) \<Rightarrow> report \<Rightarrow> string" where
  "report_text sb (Usage msg) = usage_text msg"
| "report_text sb Trie_Tables_Cleared = ''trie tables cleared''"
| "report_text sb (Tip_Block (Some block)) = ''tip block '' @ show_u64 block @ '' (Finish stage checkpoint)''"
| "report_text sb (Tip_Block None) = ''tip block unknown (no Finish checkpoint)''"
| "report_text sb (Threads n) = ''threads '' @ show_nat n"
| "report_text sb (Hashed_Entries n) = ''hashed entries '' @ show_u64 n"
| "report_text sb (Progress_Line l) = l"
| "report_text sb (Rebuild_Line lg) = rebuild_line lg"
| "report_text sb (Rebuild_Report b elapsed peak) = ''reth rebuild: root '' @ sb (rb_root b) @ '' entries '' @
     show_nat (rb_entries b) @ '' written '' @ show_nat (rb_written b) @ '' chunks '' @ show_nat (rb_chunks b) @
     elapsed_text elapsed @ peak_text peak"
| "report_text sb (Write_Report run rt walked wr elapsed peak) = ''run '' @ show_nat run @ '': root '' @ sb rt @ '' entries '' @
     show_u64 walked @ '' written '' @ show_nat (wr_nodes wr) @ '' chunks '' @ show_nat (wr_chunks wr) @
     elapsed_text elapsed @ peak_text peak"
| "report_text sb (Build_Report run rt walked d elapsed peak) = ''run '' @ show_nat run @ '': root '' @ sb rt @ '' entries '' @
     show_u64 walked @ '' '' @ digest_text d @ elapsed_text elapsed @ peak_text peak"
| "report_text sb (Serial_Report rt elapsed peak) = ''reth serial: root '' @ sb rt @ elapsed_text elapsed @ peak_text peak"
| "report_text sb (Tables_Report t elapsed) = ''trie tables: account nodes '' @ show_u64 (tt_account_nodes t) @
     '' storage nodes '' @ show_u64 (tt_storage_nodes t) @ '' '' @ digest_text (tt_digest t) @ elapsed_text elapsed"
| "report_text sb (Walked_Root rt elapsed) = ''reth walk over written tables: root '' @ sb rt @ elapsed_text elapsed"
| "report_text sb (Walk_Mismatch walked rt) = ''reth walk over written tables: ROOT MISMATCH got '' @ sb walked @
     '' expected '' @ sb rt"
| "report_text sb (Root_Matches label) = label @ '': root matches expected''"
| "report_text sb (Root_Mismatch label expected) = label @ '': ROOT MISMATCH expected '' @ sb expected"

text \<open>The lines that go to the standard error.\<close>

fun is_error :: "report \<Rightarrow> bool" where
  "is_error (Usage msg) = True"
| "is_error (Walk_Mismatch walked rt) = True"
| "is_error (Root_Mismatch label expected) = True"
| "is_error r = False"

definition stdout_lines :: "(b256 \<Rightarrow> string) \<Rightarrow> report list \<Rightarrow> string list" where
  "stdout_lines sb rs = map (report_text sb) (filter (\<lambda>r. \<not> is_error r) rs)"

definition stderr_lines :: "(b256 \<Rightarrow> string) \<Rightarrow> report list \<Rightarrow> string list" where
  "stderr_lines sb rs = map (report_text sb) (filter is_error rs)"

section \<open>The lines can be read back\<close>

definition displays :: "(b256 \<Rightarrow> string) \<Rightarrow> bool" where
  "displays sb \<longleftrightarrow> inj sb \<and> (\<forall>rt. CHR '' '' \<notin> set (sb rt))"

lemma show_hex_u128: "show_hex 32 (unat a) = show_hex 32 (unat b) \<longleftrightarrow> a = (b :: u128)"
proof
  assume eq: "show_hex 32 (unat a) = show_hex 32 (unat b)"
  have "unat c < 16 ^ 32" for c :: u128 using unsigned_less [of c, where ?'a = nat] by simp
  then show "a = b" using show_hex_inj [OF _ _ eq] by (simp add: word_unat_eq_iff)
qed simp

lemma digest_text_stops:
  "digest_text d @ CHR '' '' # r = digest_text e @ CHR '' '' # s \<longleftrightarrow> d = e \<and> r = s"
  by (auto simp: digest_text_def stops_at show_hex_u128 del: show_hex.simps intro: digest.equality)

section \<open>Properties\<close>


text \<open>Sixty-four hexadecimal digits display a root.\<close>

definition show_root :: "b256 \<Rightarrow> string" where
  "show_root rt = ''0x'' @ show_hex 64 (unat rt)"

lemma displays_show_root: "displays show_root"
proof -
  have "unat c < 16 ^ 64" for c :: b256 using unsigned_less [of c, where ?'a = nat] by simp
  then have "a = b" if "show_hex 64 (unat a) = show_hex 64 (unat b)" for a b :: b256
    using show_hex_inj [OF _ _ that] by (simp add: word_unat_eq_iff)
  then show ?thesis by (auto simp: displays_def show_root_def inj_def simp del: show_hex.simps)
qed


end
