(* ===== verification/Progress_Sink.thy ===== *)
theory Progress_Sink
  imports Rust_Duration Updates_Sink
begin

text \<open>
  The sink that logs progress (\<^verbatim>\<open>progress.rs\<close>): it passes nodes to an inner sink, counts the entries
  of the batches, and logs a line when the last one is an interval old. Counting is an atomic
  addition, logging happens under a lock, and workers run both concurrently. Instants and
  durations are nanoseconds; the readings of the clock are arguments of the operations that take
  them. Floats and durations are those of Rust_F64 and Rust_Duration. An inner sink may panic.
\<close>

section \<open>Model\<close>

text \<open>\<open>ps_lines\<close> is what \<^verbatim>\<open>log\<close> has been called with, each line with the instant stored for it.\<close>

record 's progress_sink =
  ps_inner :: 's
  ps_total :: u64
  ps_walked :: u64
  ps_started :: nat
  ps_interval :: nat
  ps_last_log :: "nat mutex"
  ps_lines :: "(nat \<times> string) list"

definition progress_new :: "'s \<Rightarrow> u64 \<Rightarrow> nat \<Rightarrow> nat \<Rightarrow> 's progress_sink" where
  "progress_new inner expected interval now = \<lparr>ps_inner = inner, ps_total = expected, ps_walked = 0,
     ps_started = now, ps_interval = interval, ps_last_log = new_mutex now, ps_lines = []\<rparr>"

definition sink_inner :: "'s progress_sink \<Rightarrow> 's" where
  "sink_inner s = ps_inner s"

definition into_inner :: "'s progress_sink \<Rightarrow> 's" where
  "into_inner s = ps_inner s"

definition walked :: "'s progress_sink \<Rightarrow> u64" where
  "walked s = ps_walked s"

definition progress_on_branch_node :: "(node_event \<Rightarrow> 's \<Rightarrow> unit outcome \<times> 's) \<Rightarrow> node_event \<Rightarrow> 's progress_sink \<Rightarrow>
    unit outcome \<times> 's progress_sink" where
  "progress_on_branch_node emit e s = (case emit e (ps_inner s) of (r, inner) \<Rightarrow> (r, s\<lparr>ps_inner := inner\<rparr>))"

definition saturating_sub :: "u64 \<Rightarrow> u64 \<Rightarrow> u64" where
  "saturating_sub a b = (if b \<le> a then a - b else 0)"

definition f64_of_u64 :: "u64 \<Rightarrow> f64" where "f64_of_u64 n = f64_of_nat (unat n)"

definition progress_percent :: "u64 \<Rightarrow> u64 \<Rightarrow> f64" where
  "progress_percent w expected = f64_div (f64_mul (f64_of_nat 100) (f64_of_u64 w)) (f64_of_u64 (max expected 1))"

definition progress_line :: "u64 \<Rightarrow> u64 \<Rightarrow> nat \<Rightarrow> nat \<Rightarrow> string" where
  "progress_line w expected elapsed eta = ''progress '' @
     f64_fixed2 (progress_percent w expected) @
     ''%: '' @ show_u64 w @ '' of '' @ show_u64 expected @ '' entries walked, '' @
     show_duration 0 elapsed @ '' elapsed, '' @ show_duration 0 eta @ '' remaining''"

text \<open>The atomic addition, and the part under the lock. A panic there poisons the lock.\<close>

definition count_entries :: "u64 \<Rightarrow> 's progress_sink \<Rightarrow> u64 \<times> 's progress_sink" where
  "count_entries entries s = (let w = ps_walked s + entries in (w, s\<lparr>ps_walked := w\<rparr>))"

definition log_progress :: "nat \<times> nat \<times> nat \<Rightarrow> u64 \<Rightarrow> 's progress_sink \<Rightarrow>
    unit outcome \<times> 's progress_sink" where
  "log_progress readings w s = (case readings of (t1, t2, t3) \<Rightarrow>
     if poisoned (ps_last_log s) then (Panics ''lock is not poisoned'', s)
     else if t1 - guarded (ps_last_log s) < ps_interval s then (Returns (), s)
     else let s = s\<lparr>ps_last_log := (ps_last_log s)\<lparr>guarded := t2\<rparr>\<rparr>;
         elapsed = t3 - ps_started s;
         remaining = saturating_sub (ps_total s) w
       in case mul_f64 elapsed (f64_div (f64_of_u64 remaining) (f64_of_u64 w)) of
         None \<Rightarrow> (Panics ''cannot convert float seconds to Duration: value is either too big or NaN'',
           s\<lparr>ps_last_log := (ps_last_log s)\<lparr>poisoned := True\<rparr>\<rparr>)
       | Some eta \<Rightarrow> (Returns (),
           s\<lparr>ps_lines := ps_lines s @ [(t2, progress_line w (ps_total s) elapsed eta)]\<rparr>))"

definition on_progress :: "nat \<times> nat \<times> nat \<Rightarrow> u64 \<Rightarrow> 's progress_sink \<Rightarrow>
    unit outcome \<times> 's progress_sink" where
  "on_progress readings entries s = (if entries = 0 then (Returns (), s)
     else let (w, s) = count_entries entries s in log_progress readings w s)"

text \<open>The \<^verbatim>\<open>Debug\<close> form, given that of the inner sink.\<close>

definition debug_progress_sink :: "('s \<Rightarrow> string) \<Rightarrow> 's progress_sink \<Rightarrow> string" where
  "debug_progress_sink debug s = ''ProgressSink { inner: '' @ debug (ps_inner s) @ '', total: '' @ show_u64 (ps_total s) @
     '', walked: '' @ show_u64 (ps_walked s) @ '', interval: '' @ debug_duration (ps_interval s) @ '', .. }''"

text \<open>What workers do with the sink one after the other.\<close>

datatype progress_call = On_Node node_event | On_Progress "nat \<times> nat \<times> nat" u64

fun run_call :: "(node_event \<Rightarrow> 's \<Rightarrow> unit outcome \<times> 's) \<Rightarrow> progress_call \<Rightarrow> 's progress_sink \<Rightarrow> 's progress_sink" where
  "run_call emit (On_Node e) s = snd (progress_on_branch_node emit e s)"
| "run_call emit (On_Progress readings entries) s = snd (on_progress readings entries s)"

fun called_node :: "progress_call \<Rightarrow> node_event list" where
  "called_node (On_Node e) = [e]"
| "called_node (On_Progress readings entries) = []"

fun called_entries :: "progress_call \<Rightarrow> u64" where
  "called_entries (On_Node e) = 0"
| "called_entries (On_Progress readings entries) = entries"

text \<open>
  Workers at the same time: a worker counts its next batch, then takes the lock; the clock does not
  run backwards. A worker that panics reports nothing more.
\<close>

record 's progress_run =
  pr_batches :: "u64 list list"
  pr_counted :: "nat \<Rightarrow> u64 option"
  pr_sink :: "'s progress_sink"
  pr_clock :: nat

inductive progress_step :: "'s progress_run \<Rightarrow> 's progress_run \<Rightarrow> bool" where
  empty_batch: "i < length (pr_batches s) \<Longrightarrow> pr_batches s ! i = 0 # bs \<Longrightarrow> pr_counted s i = None \<Longrightarrow>
    progress_step s (s\<lparr>pr_batches := (pr_batches s)[i := bs]\<rparr>)"
| count_batch: "i < length (pr_batches s) \<Longrightarrow> pr_batches s ! i = n # bs \<Longrightarrow> n \<noteq> 0 \<Longrightarrow> pr_counted s i = None \<Longrightarrow>
    count_entries n (pr_sink s) = (w, sink) \<Longrightarrow>
    progress_step s (s\<lparr>pr_batches := (pr_batches s)[i := bs], pr_counted := (pr_counted s)(i \<mapsto> w),
      pr_sink := sink\<rparr>)"
| take_lock: "pr_counted s i = Some w \<Longrightarrow> pr_clock s \<le> t1 \<Longrightarrow> t1 \<le> t2 \<Longrightarrow> t2 \<le> t3 \<Longrightarrow>
    log_progress (t1, t2, t3) w (pr_sink s) = (r, sink) \<Longrightarrow>
    progress_step s (s\<lparr>pr_batches := (if r = Returns () then pr_batches s else (pr_batches s)[i := []]),
      pr_counted := (pr_counted s)(i := None), pr_sink := sink, pr_clock := t3\<rparr>)"

definition progress_start :: "'s \<Rightarrow> u64 \<Rightarrow> nat \<Rightarrow> nat \<Rightarrow> u64 list list \<Rightarrow> 's progress_run" where
  "progress_start inner expected interval now batches = \<lparr>pr_batches = batches, pr_counted = Map.empty,
     pr_sink = progress_new inner expected interval now, pr_clock = now\<rparr>"

section \<open>The wrapper is transparent\<close>

lemma log_progress_keeps:
  "log_progress readings w s = (r, s') \<Longrightarrow> ps_inner s' = ps_inner s \<and> ps_total s' = ps_total s \<and>
   ps_walked s' = ps_walked s \<and> ps_started s' = ps_started s \<and> ps_interval s' = ps_interval s"
  by (auto simp: log_progress_def Let_def split: prod.splits if_splits option.splits)

lemma on_progress_inner [simp]: "ps_inner (snd (on_progress readings entries s)) = ps_inner s"
proof (cases "log_progress readings (ps_walked s + entries) (s\<lparr>ps_walked := ps_walked s + entries\<rparr>)")
  case (Pair r s')
  then show ?thesis using log_progress_keeps [OF Pair] by (simp add: on_progress_def count_entries_def Let_def)
qed

lemma on_progress_walked [simp]:
  "ps_walked (snd (on_progress readings entries s)) = ps_walked s + entries"
proof (cases "log_progress readings (ps_walked s + entries) (s\<lparr>ps_walked := ps_walked s + entries\<rparr>)")
  case (Pair r s')
  then show ?thesis using log_progress_keeps [OF Pair] by (simp add: on_progress_def count_entries_def Let_def)
qed

lemma on_progress_fixed:
  "ps_total (snd (on_progress readings entries s)) = ps_total s \<and> ps_started (snd (on_progress readings entries s)) = ps_started s"
proof (cases "log_progress readings (ps_walked s + entries) (s\<lparr>ps_walked := ps_walked s + entries\<rparr>)")
  case (Pair r s')
  then show ?thesis using log_progress_keeps [OF Pair] by (simp add: on_progress_def count_entries_def Let_def)
qed

lemma run_calls_walked:
  "walked (fold (run_call emit) cs s) = walked s + sum_list (map called_entries cs)"
proof (induction cs arbitrary: s)
  case Nil
  then show ?case by simp
next
  case (Cons c cs)
  have "walked (run_call emit c s) = walked s + called_entries c"
    by (cases c) (simp_all add: walked_def progress_on_branch_node_def split: prod.split)
  then show ?case using Cons.IH [of "run_call emit c s"] by (simp add: add.assoc)
qed

lemma run_call_inner: "ps_inner (run_call emit c s) = fold (\<lambda>e i. snd (emit e i)) (called_node c) (ps_inner s)"
  by (cases c) (simp_all add: progress_on_branch_node_def split: prod.split)

lemma run_calls_inner:
  "ps_inner (fold (run_call emit) cs s) = fold (\<lambda>e i. snd (emit e i)) (concat (map called_node cs)) (ps_inner s)"
  by (induction cs arbitrary: s) (simp_all add: run_call_inner)

context trie_sink
begin

text \<open>A wrapped sink is a sink: the wrapper keeps every contract of its inner sink.\<close>

lemma wrapped_sink:
  assumes "\<And>e i. snd (call e i) = emit e i"
  shows "trie_sink (\<lambda>e s. snd (progress_on_branch_node call e s)) (\<lambda>s. view (ps_inner s)) (\<lambda>s. invar (ps_inner s)) compat"
proof -
  have call: "snd (progress_on_branch_node call e s) = s\<lparr>ps_inner := emit e (ps_inner s)\<rparr>" for e s
    by (simp add: progress_on_branch_node_def split: prod.split flip: assms)
  show ?thesis
    by unfold_locales
    (auto simp: call invar_emit view_commute compat_sym intro: view_cong)
qed

end

interpretation progress_digest: trie_sink
    "\<lambda>e s. snd (progress_on_branch_node (\<lambda>e d. (Returns (), digest_on_branch_node h e d)) e s)"
    "\<lambda>s. snapshot (ps_inner s)" "\<lambda>s. True" any_order
  by (rule digest_sink.wrapped_sink) simp

section \<open>Lines and counts under concurrency\<close>

definition line_times :: "'s progress_sink \<Rightarrow> nat list" where
  "line_times s = map fst (ps_lines s)"

definition spaced :: "nat \<Rightarrow> nat list \<Rightarrow> bool" where
  "spaced interval ts = successively (\<lambda>a b. a + interval \<le> b) ts"

lemma spaced_snoc:
  "spaced interval (t # ts) \<Longrightarrow> last (t # ts) + interval \<le> u \<Longrightarrow> spaced interval (t # ts @ [u])"
  using successively_append_iff [of "\<lambda>a b. a + interval \<le> b" "t # ts" "[u]"]
  by (simp add: spaced_def)

lemma spaced_last: "spaced interval (t # ts) \<Longrightarrow> t + length ts * interval \<le> last (t # ts)"
proof (induction ts arbitrary: t)
  case Nil
  then show ?case by simp
next
  case (Cons u ts)
  then have "t + interval \<le> u" "u + length ts * interval \<le> last (u # ts)" by (simp_all add: spaced_def)
  then show ?case by simp
qed

definition batch_sum :: "u64 list list \<Rightarrow> u64" where
  "batch_sum bss = sum_list (map sum_list bss)"

lemma batch_sum_update:
  "i < length bss \<Longrightarrow> bss ! i = n # bs \<Longrightarrow> batch_sum bss = n + batch_sum (bss[i := bs])"
proof (induction bss arbitrary: i)
  case Nil
  then show ?case by simp
next
  case (Cons b bss)
  then show ?case by (cases i) (auto simp: batch_sum_def algebra_simps)
qed

lemma batch_sum_done: "\<forall>bs \<in> set bss. bs = [] \<Longrightarrow> batch_sum bss = 0"
  by (induction bss) (auto simp: batch_sum_def)

definition progress_inv :: "'s \<Rightarrow> nat \<Rightarrow> nat \<Rightarrow> u64 \<Rightarrow> 's progress_run \<Rightarrow> bool" where
  "progress_inv inner interval now counted s \<longleftrightarrow> ps_inner (pr_sink s) = inner \<and>
     ps_interval (pr_sink s) = interval \<and> ps_started (pr_sink s) = now \<and>
     spaced interval (now # line_times (pr_sink s)) \<and>
     last (now # line_times (pr_sink s)) \<le> guarded (ps_last_log (pr_sink s)) \<and>
     guarded (ps_last_log (pr_sink s)) \<le> pr_clock s \<and>
     (\<not> poisoned (ps_last_log (pr_sink s)) \<longrightarrow> walked (pr_sink s) + batch_sum (pr_batches s) = counted)"

lemma progress_inv_start:
  "progress_inv inner interval now (batch_sum bss) (progress_start inner expected interval now bss)"
  by (simp add: progress_inv_def progress_start_def progress_new_def walked_def line_times_def spaced_def)

lemma log_progress_cases:
  assumes "log_progress (t1, t2, t3) w s = (r, s')"
  obtains (poisoned) "poisoned (ps_last_log s)" "s' = s"
  | (early) "\<not> poisoned (ps_last_log s)" "r = Returns ()" "s' = s"
  | (panics) "\<not> poisoned (ps_last_log s)" "guarded (ps_last_log s') = t2" "poisoned (ps_last_log s')" "ps_lines s' = ps_lines s"
  | (logs) line where "\<not> poisoned (ps_last_log s)" "r = Returns ()" "ps_interval s \<le> t1 - guarded (ps_last_log s)"
      "guarded (ps_last_log s') = t2" "ps_lines s' = ps_lines s @ [(t2, line)]"
  using assms by (auto simp: log_progress_def Let_def not_less split: if_splits option.splits)

lemma progress_inv_step:
  assumes "progress_step s s'" and inv: "progress_inv inner interval now counted s"
  shows "progress_inv inner interval now counted s'"
  using assms(1)
proof cases
  case (empty_batch i bs)
  then show ?thesis using inv batch_sum_update [of i "pr_batches s" 0 bs] by (simp add: progress_inv_def)
next
  case (count_batch i n bs w sink)
  then show ?thesis
    using inv batch_sum_update [of i "pr_batches s" n bs]
    by (auto simp: progress_inv_def count_entries_def Let_def walked_def line_times_def add.assoc)
next
  case (take_lock i w t1 t2 t3 r sink)
  note keeps = log_progress_keeps [OF take_lock(6)]
  have clock: "guarded (ps_last_log (pr_sink s)) \<le> t2" "t2 \<le> t3"
    using inv take_lock(3-5) by (auto simp: progress_inv_def)
  show ?thesis
  proof (cases rule: log_progress_cases [OF take_lock(6)])
    case 1
    then show ?thesis using inv clock keeps by (simp add: progress_inv_def take_lock(1))
  next
    case 2
    then show ?thesis using inv clock keeps by (simp add: progress_inv_def take_lock(1))
  next
    case 3
    then show ?thesis using inv clock keeps by (simp add: progress_inv_def take_lock(1) line_times_def)
  next
    case (4 line)
    have "guarded (ps_last_log (pr_sink s)) + interval \<le> t2"
      using 4(3) clock(1) take_lock(4) inv by (auto simp: progress_inv_def)
    then have "last (now # line_times (pr_sink s)) + interval \<le> t2" using inv by (simp add: progress_inv_def)
    then have "spaced interval (now # line_times (pr_sink s) @ [t2])"
      using inv by (intro spaced_snoc) (simp_all add: progress_inv_def)
    then show ?thesis
      using inv clock keeps 4 by (simp add: progress_inv_def take_lock(1) line_times_def walked_def)
  qed
qed

lemma progress_inv_steps:
  "(progress_step)\<^sup>*\<^sup>* (progress_start inner expected interval now bss) s \<Longrightarrow>
   progress_inv inner interval now (batch_sum bss) s"
  by (induction rule: rtranclp_induct) (auto intro: progress_inv_start progress_inv_step)

lemma progress_inv_rate:
  assumes "progress_inv inner interval now counted s"
  shows "spaced interval (now # line_times (pr_sink s)) \<and>
    now + length (ps_lines (pr_sink s)) * interval \<le> pr_clock s"
proof -
  have "now + length (line_times (pr_sink s)) * interval \<le> last (now # line_times (pr_sink s))"
    using assms spaced_last by (simp add: progress_inv_def)
  moreover have "last (now # line_times (pr_sink s)) \<le> pr_clock s"
    using assms unfolding progress_inv_def by (meson le_trans)
  ultimately show ?thesis using assms by (simp add: progress_inv_def line_times_def)
qed

section \<open>No call panics\<close>

lemma eta_fits:
  assumes "w \<noteq> 0" and "max (unat expected) 1 * d < 2 ^ 58 * nanos_per_sec"
  shows "mul_f64 d (f64_div (f64_of_u64 (saturating_sub expected w)) (f64_of_u64 w)) \<noteq> None"
  unfolding f64_of_u64_def
proof (rule mul_f64_fits)
  let ?r = "unat (saturating_sub expected w)"
  show pos: "0 < unat w" using assms(1) by (simp add: unat_gt_0)
  show "unat w < 2 ^ 64" "?r < 2 ^ 64"
    using unsigned_less [of w, where ?'a = nat] unsigned_less [of "saturating_sub expected w", where ?'a = nat] by simp_all
  have "1 * d \<le> max (unat expected) 1 * d" by (rule mult_le_mono1) simp
  then have "d < 2 ^ 58 * nanos_per_sec" using assms(2) unfolding mult_1 by (rule le_less_trans)
  also have "\<dots> \<le> 2 ^ 64 * nanos_per_sec" by (rule mult_le_mono1) simp
  finally show "d < 2 ^ 64 * nanos_per_sec" .
  have "?r \<le> unat expected" by (simp add: saturating_sub_def unat_sub)
  then have "?r * d \<le> max (unat expected) 1 * d" by (intro mult_le_mono1) simp
  also have "\<dots> < 2 ^ 58 * nanos_per_sec * 1" using assms(2) by simp
  also have "\<dots> \<le> 2 ^ 58 * nanos_per_sec * unat w" using pos by (intro mult_le_mono2) simp
  finally show "?r * d < 2 ^ 58 * nanos_per_sec * unat w" .
qed

lemma log_progress_calm:
  assumes "\<not> poisoned (ps_last_log s)" and "w \<noteq> 0"
    and "max (unat (ps_total s)) 1 * (t3 - ps_started s) < 2 ^ 58 * nanos_per_sec"
  shows "\<exists>s'. log_progress (t1, t2, t3) w s = (Returns (), s') \<and> \<not> poisoned (ps_last_log s')"
proof -
  obtain eta where "mul_f64 (t3 - ps_started s)
      (f64_div (f64_of_u64 (saturating_sub (ps_total s) w)) (f64_of_u64 w)) = Some eta"
    using eta_fits [OF assms(2,3)] by blast
  then show ?thesis using assms(1) by (simp add: log_progress_def Let_def)
qed

text \<open>The entries still to be counted, without wrap-around.\<close>

definition batch_count :: "u64 list list \<Rightarrow> nat" where
  "batch_count bss = sum_list (map (\<lambda>bs. sum_list (map unat bs)) bss)"

lemma batch_count_update:
  "i < length bss \<Longrightarrow> bss ! i = n # bs \<Longrightarrow> batch_count bss = unat n + batch_count (bss[i := bs])"
proof (induction bss arbitrary: i)
  case Nil
  then show ?case by simp
next
  case (Cons b bss)
  then show ?case by (cases i) (auto simp: batch_count_def)
qed

lemma batch_count_done: "\<forall>bs \<in> set bss. bs = [] \<Longrightarrow> batch_count bss = 0"
  by (induction bss) (auto simp: batch_count_def)

definition calm_inv :: "u64 \<Rightarrow> nat \<Rightarrow> nat \<Rightarrow> 's progress_run \<Rightarrow> bool" where
  "calm_inv expected now counted s \<longleftrightarrow> ps_total (pr_sink s) = expected \<and> ps_started (pr_sink s) = now \<and>
     \<not> poisoned (ps_last_log (pr_sink s)) \<and> unat (walked (pr_sink s)) + batch_count (pr_batches s) = counted \<and>
     (\<forall>i w. pr_counted s i = Some w \<longrightarrow> w \<noteq> 0)"

lemma progress_step_clock: "progress_step s s' \<Longrightarrow> pr_clock s \<le> pr_clock s'"
  by (induction rule: progress_step.induct) auto

lemma calm_inv_step:
  assumes "progress_step s s'" and inv: "calm_inv expected now counted s" and "counted < 2 ^ 64"
    and "max (unat expected) 1 * (pr_clock s' - now) < 2 ^ 58 * nanos_per_sec"
  shows "calm_inv expected now counted s'"
  using assms(1)
proof cases
  case (empty_batch i bs)
  then show ?thesis using inv batch_count_update [of i "pr_batches s" 0 bs] by (simp add: calm_inv_def)
next
  case (count_batch i n bs w sink)
  have fits: "unat (walked (pr_sink s)) + unat n < 2 ^ 64"
    using inv assms(3) batch_count_update [OF count_batch(2,3)] by (simp add: calm_inv_def)
  have sink: "sink = (pr_sink s)\<lparr>ps_walked := ps_walked (pr_sink s) + n\<rparr>" and w: "w = ps_walked (pr_sink s) + n"
    using count_batch(6) by (auto simp: count_entries_def Let_def)
  have sum: "unat (ps_walked (pr_sink s) + n) = unat (ps_walked (pr_sink s)) + unat n"
    using fits by (simp add: unat_word_ariths walked_def)
  then have "w \<noteq> 0" using count_batch(4) unfolding w by (metis add_is_0 unat_eq_zero unsigned_0)
  then show ?thesis
    using inv sum batch_count_update [OF count_batch(2,3)]
    by (auto simp: count_batch(1) sink calm_inv_def walked_def)
next
  case (take_lock i w t1 t2 t3 r sink)
  have pre: "\<not> poisoned (ps_last_log (pr_sink s))" "w \<noteq> 0"
      "max (unat (ps_total (pr_sink s))) 1 * (t3 - ps_started (pr_sink s)) < 2 ^ 58 * nanos_per_sec"
    using inv take_lock(1,2) assms(4) by (auto simp: calm_inv_def)
  have "r = Returns ()" "\<not> poisoned (ps_last_log sink)"
    using log_progress_calm [OF pre, of t1 t2] take_lock(6) by auto
  then show ?thesis
    using inv log_progress_keeps [OF take_lock(6)] by (auto simp: take_lock(1) calm_inv_def walked_def split: if_splits)
qed

lemma calm_inv_steps:
  assumes "progress_step\<^sup>*\<^sup>* (progress_start inner expected interval now bss) s" and "batch_count bss < 2 ^ 64"
    and "max (unat expected) 1 * (pr_clock s - now) < 2 ^ 58 * nanos_per_sec"
  shows "calm_inv expected now (batch_count bss) s"
  using assms(1,3)
proof (induction rule: rtranclp_induct)
  case base
  then show ?case
    by (simp add: calm_inv_def progress_start_def progress_new_def walked_def new_mutex_def)
next
  case (step s s')
  have "max (unat expected) 1 * (pr_clock s - now) \<le> max (unat expected) 1 * (pr_clock s' - now)"
    using progress_step_clock [OF step.hyps(2)] by (intro mult_le_mono2) simp
  then have "calm_inv expected now (batch_count bss) s" using step.prems by (intro step.IH) (rule le_less_trans)
  from calm_inv_step [OF step.hyps(2) this assms(2) step.prems] show ?case .
qed

section \<open>The line\<close>

text \<open>The percentage is right up to the rounding of four operations.\<close>

lemma progress_percent_close:
  fixes w expected :: u64
  defines "r \<equiv> 100 * (real (unat w) / real (max (unat expected) 1))"
  shows "is_finite (progress_percent w expected) \<and> \<bar>f64_value (progress_percent w expected) - r\<bar> \<le> 8 / 2 ^ 53 * r"
proof -
  let ?t = "unat (max expected 1)"
  let ?W = "f64_of_u64 w" and ?T = "f64_of_u64 (max expected 1)" and ?P = "f64_mul (f64_of_nat 100) (f64_of_u64 w)"
  have t: "?t = max (unat expected) 1" by (simp add: max_def word_le_nat_alt)
  have small: "unat n \<le> 2 ^ 1000" "real (unat n) < 2 ^ 64" for n :: u64
  proof -
    have n: "unat n < 2 ^ 64" using unsigned_less [of n, where ?'a = nat] by simp
    also have "(2 :: nat) ^ 64 \<le> 2 ^ 1000" by (rule power_increasing) simp_all
    finally show "unat n \<le> 2 ^ 1000" by simp
    show "real (unat n) < 2 ^ 64" using n by (metis of_nat_less_iff of_nat_numeral of_nat_power)
  qed
  have W: "approximates ?W (real (unat w))" and T: "approximates ?T (real ?t)"
    unfolding f64_of_u64_def by (rule f64_of_nat_close, rule small)+
  have h: "is_finite (f64_of_nat 100)" "f64_value (f64_of_nat 100) = 100" using f64_of_nat_exact [of 100] by simp_all
  have T1: "1 / 2 \<le> f64_value ?T" "f64_value ?T \<le> 2 ^ 65"
    using approximates_bounds(3,4) [OF T] small(2) [of "max expected 1"] t by simp_all
  have zero: "f64_value ?W = 0" if "w = 0" using that by (simp add: f64_of_u64_def f64_of_nat_def round_f64_def)
  have "normal (100 * f64_value ?W)"
  proof (cases "w = 0")
    case False
    then have "1 \<le> real (unat w)" using unat_gt_0 [of w] by linarith
    then show ?thesis using approximates_bounds(3,4) [OF W] small(2) [of w] by (intro normalI) simp_all
  next
    case True
    show ?thesis unfolding zero [OF True] by (simp add: normal_def)
  qed
  then have P: "approximates ?P (100 * f64_value ?W)"
    using f64_mul_close [OF h(1) approximates_bounds(1) [OF W]] h(2) by simp
  have "normal (f64_value ?P / f64_value ?T)"
  proof (cases "w = 0")
    case False
    then have "1 \<le> real (unat w)" using unat_gt_0 [of w] by linarith
    then have P1: "25 \<le> f64_value ?P" "f64_value ?P \<le> 2 ^ 75"
      using approximates_bounds(3,4) [OF W] approximates_bounds(3,4) [OF P] small(2) [of w] by simp_all
    have Q: "25 / 2 ^ 65 \<le> f64_value ?P / f64_value ?T" "f64_value ?P / f64_value ?T \<le> 2 ^ 75 / (1 / 2)"
      using P1 T1 by (intro frac_le; simp)+
    show ?thesis by (rule normalI; rule order_trans [OF _ Q(1)] order_trans [OF Q(2)]; simp)
  next
    case True
    then have "f64_value ?P = 0" using approximates_bounds(4) [OF P] zero by (simp add: antisym)
    then show ?thesis by (simp add: normal_def)
  qed
  then have X: "approximates (progress_percent w expected) (f64_value ?P / f64_value ?T)"
    unfolding progress_percent_def
    by (intro f64_div_close approximates_bounds(1) [OF P] approximates_bounds(1) [OF T]) (use T1 in auto)
  have "\<bar>f64_value (progress_percent w expected) - 100 * (real (unat w) / real ?t)\<bar> \<le>
      8 / 2 ^ 53 * (100 * (real (unat w) / real ?t))"
  proof (rule quotient_error [OF W T P X])
    show "0 < real ?t" unfolding t by simp
    show "0 \<le> real (unat w)" by (rule of_nat_0_le_iff)
  qed simp
  then show ?thesis using approximates_bounds(1) [OF X] unfolding r_def t by blast
qed

section \<open>Properties\<close>

text \<open>
  Wrapping a sink changes nothing but the log: after any calls, in any order and with any
  clock, the inner sink is in the state it would be in without the wrapper, and the count of
  walked entries is the sum of the batches, whatever was logged and whatever panicked.
\<close>

theorem progress_sink_transparent:
  "into_inner (fold (run_call emit) cs (progress_new inner expected interval now)) =
     fold (\<lambda>e i. snd (emit e i)) (concat (map called_node cs)) inner \<and>
   walked (fold (run_call emit) cs (progress_new inner expected interval now)) = sum_list (map called_entries cs)"
  using run_calls_walked [of emit cs "progress_new inner expected interval now"]
  by (simp add: into_inner_def run_calls_inner progress_new_def walked_def)

text \<open>
  C30: Under every interleaving of concurrent workers the log stays within its rate: the first line
  comes an interval or more after the start, each line an interval or more after the one before, so
  there are at most as many lines as intervals have passed; when every worker has reported its
  batches and none has panicked, the count is the sum of all batches.
\<close>

theorem progress_lines_rate_limited:
  assumes "(progress_step)\<^sup>*\<^sup>* (progress_start inner expected interval now bss) s"
  shows "spaced interval (now # line_times (pr_sink s)) \<and>
    now + length (ps_lines (pr_sink s)) * interval \<le> pr_clock s \<and>
    (\<not> poisoned (ps_last_log (pr_sink s)) \<and> (\<forall>bs \<in> set (pr_batches s). bs = []) \<longrightarrow>
      walked (pr_sink s) = batch_sum bss)"
proof -
  have inv: "progress_inv inner interval now (batch_sum bss) s" by (rule progress_inv_steps [OF assms])
  have "(\<forall>bs \<in> set (pr_batches s). bs = []) \<longrightarrow> batch_sum (pr_batches s) = 0"
    by (simp add: batch_sum_done)
  then show ?thesis using inv progress_inv_rate [OF inv] by (auto simp: progress_inv_def)
qed

theorem progress_lines_rate_limited_witness:
  "\<exists>s. (progress_step)\<^sup>*\<^sup>* (progress_start () 10 5 0 [[4]]) s \<and> line_times (pr_sink s) = [7] \<and>
     walked (pr_sink s) = 4 \<and> length (ps_lines (pr_sink s)) * 5 \<le> pr_clock s"
proof -
  let ?s0 = "progress_start () 10 5 0 [[4]]"
  let ?s1 = "?s0\<lparr>pr_batches := [[]], pr_counted := (pr_counted ?s0)(0 \<mapsto> 4), pr_sink := (pr_sink ?s0)\<lparr>ps_walked := 4\<rparr>\<rparr>"
  have s1: "progress_step ?s0 ?s1"
    using progress_step.count_batch [of 0 ?s0 4 "[]" 4 "(pr_sink ?s0)\<lparr>ps_walked := 4\<rparr>"]
    by (simp add: progress_start_def progress_new_def count_entries_def)
  obtain r sink where log: "log_progress (6, 7, 8) 4 (pr_sink ?s1) = (r, sink)" by fastforce
  have fits: "mul_f64 8 (f64_div (f64_of_nat 6) (f64_of_nat 4)) \<noteq> None"
    by (rule mul_f64_fits) (simp_all add: nanos_per_sec_def)
  then have sink: "line_times sink = [7]" "r = Returns ()" "poisoned (ps_last_log sink) = False"
    using log by (auto simp: log_progress_def progress_start_def progress_new_def f64_of_u64_def saturating_sub_def
        line_times_def Let_def)
  define s2 where "s2 = ?s1\<lparr>pr_batches := (if r = Returns () then pr_batches ?s1 else (pr_batches ?s1)[0 := []]),
    pr_counted := (pr_counted ?s1)(0 := None), pr_sink := sink, pr_clock := 8\<rparr>"
  have "progress_step ?s1 s2"
    unfolding s2_def
    by (rule progress_step.take_lock [OF _ _ _ _ log]) (simp_all add: progress_start_def)
  then have run: "(progress_step)\<^sup>*\<^sup>* ?s0 s2"
    using s1 by (meson converse_rtranclp_into_rtranclp r_into_rtranclp)
  have s2: "pr_sink s2 = sink" "pr_batches s2 = [[]]" "pr_clock s2 = 8" using sink by (simp_all add: s2_def)
  have "walked (pr_sink s2) = batch_sum [[4]] \<and> length (ps_lines (pr_sink s2)) * 5 \<le> pr_clock s2"
    using progress_lines_rate_limited [OF run] s2 sink by simp
  then show ?thesis using run s2(1) sink(1) by (auto simp: batch_sum_def)
qed

text \<open>
  C31: Logging progress cannot stop a build. If the entries reported fit in 64 bits and the expected entries
  times the time since the start stay below 2^58 entry seconds, then under every interleaving no
  call panics, the lock is never poisoned, and no batch is lost: the count and what the workers
  still have to report add up to all batches, without wrap-around.
\<close>

theorem progress_never_panics:
  assumes "progress_step\<^sup>*\<^sup>* (progress_start inner expected interval now bss) s"
    and "batch_count bss < 2 ^ 64" and "max (unat expected) 1 * (pr_clock s - now) < 2 ^ 58 * nanos_per_sec"
  shows "\<not> poisoned (ps_last_log (pr_sink s)) \<and>
    unat (walked (pr_sink s)) + batch_count (pr_batches s) = batch_count bss \<and>
    ((\<forall>bs \<in> set (pr_batches s). bs = []) \<longrightarrow> unat (walked (pr_sink s)) = batch_count bss)"
  using calm_inv_steps [OF assms] batch_count_done [of "pr_batches s"] by (auto simp: calm_inv_def)

theorem progress_never_panics_witness:
  "\<exists>s. progress_step\<^sup>*\<^sup>* (progress_start () 10 5 0 [[4]]) s \<and> unat (walked (pr_sink s)) = 4 \<and>
     pr_batches s = [[]] \<and> \<not> poisoned (ps_last_log (pr_sink s))"
proof -
  let ?s0 = "progress_start () 10 5 0 [[4]]"
  let ?s1 = "?s0\<lparr>pr_batches := [[]], pr_counted := (pr_counted ?s0)(0 \<mapsto> 4), pr_sink := (pr_sink ?s0)\<lparr>ps_walked := 4\<rparr>\<rparr>"
  have "progress_step ?s0 ?s1"
    using progress_step.count_batch [of 0 ?s0 4 "[]" 4 "(pr_sink ?s0)\<lparr>ps_walked := 4\<rparr>"]
    by (simp add: progress_start_def progress_new_def count_entries_def)
  then have run: "progress_step\<^sup>*\<^sup>* ?s0 ?s1" by blast
  show ?thesis
    using progress_never_panics [OF run] run
    by (intro exI [of _ ?s1]) (simp add: progress_start_def batch_count_def nanos_per_sec_def)
qed



end
