(* ===== verification/Peak_Alloc.thy ===== *)
theory Peak_Alloc
  imports Prelude
begin

text \<open>
  The counting allocator (\<^verbatim>\<open>alloc.rs\<close>): every request goes to the system allocator unchanged, and
  two atomic counters follow the live bytes and their peak. The system allocator is an argument,
  the locale \<open>system_heap\<close> its contract; \<open>bump_heap\<close> has it. The counters are modelled twice: as
  the sequence of a request's effects, and as separate atomic steps of concurrent threads.
\<close>

section \<open>The counters\<close>

record peak_alloc =
  pa_current :: u64
  pa_peak :: u64

definition peak_alloc_new :: peak_alloc where
  "peak_alloc_new = \<lparr>pa_current = 0, pa_peak = 0\<rparr>"

definition peak_alloc_default :: peak_alloc where
  "peak_alloc_default = peak_alloc_new"

definition current_bytes :: "peak_alloc \<Rightarrow> u64" where
  "current_bytes c = pa_current c"

definition peak_bytes :: "peak_alloc \<Rightarrow> u64" where
  "peak_bytes c = pa_peak c"

definition reset_peak :: "peak_alloc \<Rightarrow> peak_alloc" where
  "reset_peak c = c\<lparr>pa_peak := current_bytes c\<rparr>"

definition pa_add :: "u64 \<Rightarrow> peak_alloc \<Rightarrow> peak_alloc" where
  "pa_add bytes c = (let now = pa_current c + bytes in
     c\<lparr>pa_current := now, pa_peak := max (pa_peak c) now\<rparr>)"

definition pa_sub :: "u64 \<Rightarrow> peak_alloc \<Rightarrow> peak_alloc" where
  "pa_sub bytes c = c\<lparr>pa_current := pa_current c - bytes\<rparr>"

section \<open>The allocator\<close>

text \<open>A pointer is its address, the null pointer zero.\<close>

type_synonym ptr = u64

record layout =
  layout_size :: u64
  layout_align :: u64

record 'h system_alloc =
  sys_alloc :: "layout \<Rightarrow> 'h \<Rightarrow> ptr \<times> 'h"
  sys_alloc_zeroed :: "layout \<Rightarrow> 'h \<Rightarrow> ptr \<times> 'h"
  sys_dealloc :: "ptr \<Rightarrow> layout \<Rightarrow> 'h \<Rightarrow> 'h"
  sys_realloc :: "ptr \<Rightarrow> layout \<Rightarrow> u64 \<Rightarrow> 'h \<Rightarrow> ptr \<times> 'h"

definition pa_alloc :: "'h system_alloc \<Rightarrow> layout \<Rightarrow> peak_alloc \<times> 'h \<Rightarrow> ptr \<times> peak_alloc \<times> 'h" where
  "pa_alloc sys layout s = (case s of (c, h) \<Rightarrow>
     let (ptr, h') = sys_alloc sys layout h in
     (ptr, if ptr \<noteq> 0 then pa_add (layout_size layout) c else c, h'))"

definition pa_alloc_zeroed :: "'h system_alloc \<Rightarrow> layout \<Rightarrow> peak_alloc \<times> 'h \<Rightarrow> ptr \<times> peak_alloc \<times> 'h" where
  "pa_alloc_zeroed sys layout s = (case s of (c, h) \<Rightarrow>
     let (ptr, h') = sys_alloc_zeroed sys layout h in
     (ptr, if ptr \<noteq> 0 then pa_add (layout_size layout) c else c, h'))"

definition pa_dealloc :: "'h system_alloc \<Rightarrow> ptr \<Rightarrow> layout \<Rightarrow> peak_alloc \<times> 'h \<Rightarrow> peak_alloc \<times> 'h" where
  "pa_dealloc sys ptr layout s = (case s of (c, h) \<Rightarrow>
     let h' = sys_dealloc sys ptr layout h in (pa_sub (layout_size layout) c, h'))"

definition pa_realloc :: "'h system_alloc \<Rightarrow> ptr \<Rightarrow> layout \<Rightarrow> u64 \<Rightarrow> peak_alloc \<times> 'h \<Rightarrow> ptr \<times> peak_alloc \<times> 'h" where
  "pa_realloc sys ptr layout new_size s = (case s of (c, h) \<Rightarrow>
     let (new, h') = sys_realloc sys ptr layout new_size h in
     (new, if new \<noteq> 0 then pa_add new_size (pa_sub (layout_size layout) c) else c, h'))"

text \<open>A program's requests, and the reset of the peak.\<close>

datatype request = Alloc layout | Alloc_Zeroed layout | Dealloc ptr layout | Realloc ptr layout u64 | Reset

fun run_request :: "'h system_alloc \<Rightarrow> request \<Rightarrow> peak_alloc \<times> 'h \<Rightarrow> ptr \<times> peak_alloc \<times> 'h" where
  "run_request sys (Alloc l) s = pa_alloc sys l s"
| "run_request sys (Alloc_Zeroed l) s = pa_alloc_zeroed sys l s"
| "run_request sys (Dealloc p l) s = (0, pa_dealloc sys p l s)"
| "run_request sys (Realloc p l n) s = pa_realloc sys p l n s"
| "run_request sys Reset s = (0, reset_peak (fst s), snd s)"

fun run_system :: "'h system_alloc \<Rightarrow> request \<Rightarrow> 'h \<Rightarrow> ptr \<times> 'h" where
  "run_system sys (Alloc l) h = sys_alloc sys l h"
| "run_system sys (Alloc_Zeroed l) h = sys_alloc_zeroed sys l h"
| "run_system sys (Dealloc p l) h = (0, sys_dealloc sys p l h)"
| "run_system sys (Realloc p l n) h = sys_realloc sys p l n h"
| "run_system sys Reset h = (0, h)"

fun run_requests :: "'h system_alloc \<Rightarrow> request list \<Rightarrow> peak_alloc \<times> 'h \<Rightarrow> ptr list \<times> peak_alloc \<times> 'h" where
  "run_requests sys [] s = ([], s)"
| "run_requests sys (r # rs) s = (let (p, s) = run_request sys r s; (ps, s) = run_requests sys rs s in (p # ps, s))"

fun run_systems :: "'h system_alloc \<Rightarrow> request list \<Rightarrow> 'h \<Rightarrow> ptr list \<times> 'h" where
  "run_systems sys [] h = ([], h)"
| "run_systems sys (r # rs) h = (let (p, h) = run_system sys r h; (ps, h) = run_systems sys rs h in (p # ps, h))"

lemma run_request_system:
  "(fst (run_request sys r (c, h)), snd (snd (run_request sys r (c, h)))) = run_system sys r h"
  by (cases r) (simp_all add: pa_alloc_def pa_alloc_zeroed_def pa_dealloc_def pa_realloc_def split_def Let_def)

lemma run_requests_system:
  "(fst (run_requests sys rs (c, h)), snd (snd (run_requests sys rs (c, h)))) = run_systems sys rs h"
proof (induction rs arbitrary: c h)
  case Nil
  then show ?case by simp
next
  case (Cons r rs)
  obtain p c' h' where r: "run_request sys r (c, h) = (p, c', h')" by (metis prod_cases3)
  then have "run_system sys r h = (p, h')" using run_request_system [of sys r c h] by simp
  moreover obtain ps c2 h2 where "run_requests sys rs (c', h') = (ps, c2, h2)" by (metis prod_cases3)
  ultimately show ?case using Cons.IH [of c' h'] r by (auto split: prod.split)
qed

section \<open>What the counters count\<close>

definition live_bytes :: "('h \<Rightarrow> ptr \<Rightarrow> u64 option) \<Rightarrow> 'h \<Rightarrow> nat" where
  "live_bytes live h = (\<Sum>p \<in> dom (live h). unat (the (live h p)))"

text \<open>Live blocks do not overlap, so together they are smaller than the address space.\<close>

locale system_heap =
  fixes sys :: "'h system_alloc"
    and live :: "'h \<Rightarrow> ptr \<Rightarrow> u64 option"
    and sane :: "'h \<Rightarrow> bool"
  assumes finite_live: "sane h \<Longrightarrow> finite (dom (live h))"
    and small_live: "sane h \<Longrightarrow> live_bytes live h < 2 ^ 64"
    and alloc_live: "sane h \<Longrightarrow> sys_alloc sys l h = (p, h') \<Longrightarrow>
      sane h' \<and> (if p = 0 then live h' = live h
        else live h p = None \<and> live h' = (live h)(p \<mapsto> layout_size l))"
    and alloc_zeroed_live: "sane h \<Longrightarrow> sys_alloc_zeroed sys l h = (p, h') \<Longrightarrow>
      sane h' \<and> (if p = 0 then live h' = live h
        else live h p = None \<and> live h' = (live h)(p \<mapsto> layout_size l))"
    and dealloc_live: "sane h \<Longrightarrow> live h p = Some (layout_size l) \<Longrightarrow>
      sane (sys_dealloc sys p l h) \<and> live (sys_dealloc sys p l h) = (live h)(p := None)"
    and realloc_live: "sane h \<Longrightarrow> live h p = Some (layout_size l) \<Longrightarrow> sys_realloc sys p l n h = (q, h') \<Longrightarrow>
      sane h' \<and> (if q = 0 then live h' = live h
        else ((live h)(p := None)) q = None \<and> live h' = (live h)(p := None, q \<mapsto> n))"

text \<open>A request is valid if it frees a live block with its size.\<close>

fun valid_request :: "('h \<Rightarrow> ptr \<Rightarrow> u64 option) \<Rightarrow> request \<Rightarrow> 'h \<Rightarrow> bool" where
  "valid_request live (Dealloc p l) h = (live h p = Some (layout_size l))"
| "valid_request live (Realloc p l n) h = (live h p = Some (layout_size l))"
| "valid_request live r h = True"

text \<open>The largest number of live bytes after any request since the last reset.\<close>

fun high_water_step :: "('h \<Rightarrow> ptr \<Rightarrow> u64 option) \<Rightarrow> request \<Rightarrow> 'h \<Rightarrow> nat \<Rightarrow> nat" where
  "high_water_step live Reset h hi = live_bytes live h"
| "high_water_step live r h hi = max hi (live_bytes live h)"

fun valid_requests :: "'h system_alloc \<Rightarrow> ('h \<Rightarrow> ptr \<Rightarrow> u64 option) \<Rightarrow> request list \<Rightarrow> 'h \<Rightarrow> bool" where
  "valid_requests sys live [] h = True"
| "valid_requests sys live (r # rs) h =
     (valid_request live r h \<and> valid_requests sys live rs (snd (run_system sys r h)))"

fun high_water :: "'h system_alloc \<Rightarrow> ('h \<Rightarrow> ptr \<Rightarrow> u64 option) \<Rightarrow> request list \<Rightarrow> 'h \<Rightarrow> nat \<Rightarrow> nat" where
  "high_water sys live [] h hi = hi"
| "high_water sys live (r # rs) h hi = (let h' = snd (run_system sys r h) in
     high_water sys live rs h' (high_water_step live r h' hi))"

definition counts_heap :: "('h \<Rightarrow> ptr \<Rightarrow> u64 option) \<Rightarrow> nat \<Rightarrow> peak_alloc \<Rightarrow> 'h \<Rightarrow> bool" where
  "counts_heap live hi c h \<longleftrightarrow> unat (pa_current c) = live_bytes live h \<and> unat (pa_peak c) = hi"

text \<open>Requests in parts.\<close>

lemma run_systems_append: "snd (run_systems sys (rs @ rs') h) = snd (run_systems sys rs' (snd (run_systems sys rs h)))"
  by (induction rs arbitrary: h) (simp_all add: split_def Let_def)

lemma high_water_append:
  "high_water sys live (rs @ rs') h hi =
   high_water sys live rs' (snd (run_systems sys rs h)) (high_water sys live rs h hi)"
  by (induction rs arbitrary: h hi) (simp_all add: split_def Let_def)

lemma live_bytes_insert:
  assumes "finite (dom (live h))" and "live h p = None" and "live h' = (live h)(p \<mapsto> n)"
  shows "live_bytes live h' = live_bytes live h + unat n"
proof -
  have "(\<Sum>q \<in> dom (live h). unat (the (((live h)(p \<mapsto> n)) q))) = (\<Sum>q \<in> dom (live h). unat (the (live h q)))"
    by (rule sum.cong) (use assms(2) in auto)
  then show ?thesis using assms by (simp add: live_bytes_def domIff)
qed

lemma live_bytes_remove:
  assumes "finite (dom (live h))" and "live h p = Some n" and "live h' = (live h)(p := None)"
  shows "live_bytes live h' + unat n = live_bytes live h"
proof -
  have "(\<Sum>q \<in> dom (live h) - {p}. unat (the (((live h)(p := None)) q))) =
      (\<Sum>q \<in> dom (live h) - {p}. unat (the (live h q)))"
    by (rule sum.cong) auto
  then show ?thesis
    using assms sum.remove [of "dom (live h)" p "\<lambda>q. unat (the (live h q))"]
    by (simp add: live_bytes_def domI)
qed

lemma unat_plus_exact: "unat a + unat b < 2 ^ 64 \<Longrightarrow> unat (a + b :: u64) = unat a + unat b"
  by (simp add: unat_word_ariths)

lemma unat_max: "unat (max a b :: u64) = max (unat a) (unat b)"
  by (auto simp: max_def word_le_nat_alt)

lemma counts_add:
  assumes "unat (pa_current c) + unat n < 2 ^ 64"
  shows "unat (pa_current (pa_add n c)) = unat (pa_current c) + unat n \<and>
    unat (pa_peak (pa_add n c)) = max (unat (pa_peak c)) (unat (pa_current c) + unat n)"
  using unat_plus_exact [OF assms] by (simp add: pa_add_def Let_def unat_max)

lemma counts_sub:
  assumes "unat n \<le> unat (pa_current c)"
  shows "unat (pa_current (pa_sub n c)) = unat (pa_current c) - unat n \<and> pa_peak (pa_sub n c) = pa_peak c"
  using assms by (simp add: pa_sub_def unat_sub word_le_nat_alt)

context system_heap
begin

lemma counts_new_block:
  assumes "counts_heap live hi c h" and "sane h" and "sane h'" and "live h p = None"
    and "live h' = (live h)(p \<mapsto> n)"
  shows "counts_heap live (max hi (live_bytes live h')) (pa_add n c) h'"
  using counts_add [of c n] live_bytes_insert [OF finite_live [OF assms(2)] assms(4,5)] small_live [OF assms(3)]
    assms(1) by (simp add: counts_heap_def)

lemma counts_request:
  assumes "counts_heap live hi c h" and "live_bytes live h \<le> hi" and sane: "sane h"
    and "valid_request live r h" and run: "run_request sys r (c, h) = (p, c', h')"
  shows "sane h' \<and> counts_heap live (high_water_step live r h' hi) c' h' \<and>
    live_bytes live h' \<le> high_water_step live r h' hi"
proof (cases r)
  case (Alloc l)
  obtain q h1 where q: "sys_alloc sys l h = (q, h1)" by fastforce
  have h': "h' = h1" and c': "c' = (if q \<noteq> 0 then pa_add (layout_size l) c else c)"
    using run q by (auto simp: Alloc pa_alloc_def Let_def)
  note live = alloc_live [OF sane q]
  show ?thesis
  proof (cases "q = 0")
    case True
    then show ?thesis using live assms(1,2) h' c' Alloc by (simp add: counts_heap_def live_bytes_def)
  next
    case False
    then show ?thesis using live h' c' Alloc counts_new_block [OF assms(1) sane, of h1 q "layout_size l"] by simp
  qed
next
  case (Alloc_Zeroed l)
  obtain q h1 where q: "sys_alloc_zeroed sys l h = (q, h1)" by fastforce
  have h': "h' = h1" and c': "c' = (if q \<noteq> 0 then pa_add (layout_size l) c else c)"
    using run q by (auto simp: Alloc_Zeroed pa_alloc_zeroed_def Let_def)
  note live = alloc_zeroed_live [OF sane q]
  show ?thesis
  proof (cases "q = 0")
    case True
    then show ?thesis using live assms(1,2) h' c' Alloc_Zeroed by (simp add: counts_heap_def live_bytes_def)
  next
    case False
    then show ?thesis using live h' c' Alloc_Zeroed counts_new_block [OF assms(1) sane, of h1 q "layout_size l"] by simp
  qed
next
  case (Dealloc q l)
  have l: "live h q = Some (layout_size l)" using assms(4) Dealloc by simp
  have h': "h' = sys_dealloc sys q l h" and c': "c' = pa_sub (layout_size l) c"
    using run by (simp_all add: Dealloc pa_dealloc_def Let_def)
  have live: "sane h'" "live h' = (live h)(q := None)" using dealloc_live [OF sane l] h' by simp_all
  have "live_bytes live h' + unat (layout_size l) = live_bytes live h"
    by (rule live_bytes_remove [OF finite_live [OF sane] l live(2)])
  then show ?thesis
    using live(1) counts_sub [of "layout_size l" c] assms(1,2) c' Dealloc by (auto simp: counts_heap_def)
next
  case (Realloc q l n)
  have l: "live h q = Some (layout_size l)" using assms(4) Realloc by simp
  obtain x h1 where x: "sys_realloc sys q l n h = (x, h1)" by fastforce
  have h': "h' = h1" and c': "c' = (if x \<noteq> 0 then pa_add n (pa_sub (layout_size l) c) else c)"
    using run x by (auto simp: Realloc pa_realloc_def Let_def)
  note live = realloc_live [OF sane l x]
  show ?thesis
  proof (cases "x = 0")
    case True
    then show ?thesis using live assms(1,2) h' c' Realloc by (simp add: counts_heap_def live_bytes_def)
  next
    case False
    have fin: "finite (dom (live h))" by (rule finite_live [OF sane])
    let ?L = "\<lambda>m :: ptr \<Rightarrow> u64 option. m"
    have out: "live_bytes ?L ((live h)(q := None)) + unat (layout_size l) = live_bytes ?L (live h)"
      by (rule live_bytes_remove [where live = ?L and h = "live h" and p = q]) (use fin l in simp_all)
    have "live_bytes ?L ((live h)(q := None, x \<mapsto> n)) = live_bytes ?L ((live h)(q := None)) + unat n"
      by (rule live_bytes_insert [where live = ?L and h = "(live h)(q := None)" and p = x])
        (use fin live False in simp_all)
    then have new: "live_bytes live h' = live_bytes ?L ((live h)(q := None)) + unat n"
      using live False h' by (simp add: live_bytes_def)
    have cur: "unat (pa_current (pa_sub (layout_size l) c)) = live_bytes ?L ((live h)(q := None))"
        "pa_peak (pa_sub (layout_size l) c) = pa_peak c"
      using counts_sub [of "layout_size l" c] assms(1) out by (simp_all add: counts_heap_def live_bytes_def)
    then show ?thesis
      using live False h' c' Realloc new small_live [of h'] counts_add [of "pa_sub (layout_size l) c" n] assms(1)
      by (simp add: counts_heap_def)
  qed
next
  case Reset
  then show ?thesis using run assms(1) sane by (auto simp: counts_heap_def reset_peak_def current_bytes_def)
qed

lemma counts_requests:
  assumes "counts_heap live hi c h" and "live_bytes live h \<le> hi" and "sane h"
    and "valid_requests sys live rs h" and "run_requests sys rs (c, h) = (ps, c', h')"
  shows "sane h' \<and> counts_heap live (high_water sys live rs h hi) c' h' \<and> live_bytes live h' \<le> high_water sys live rs h hi"
  using assms
proof (induction rs arbitrary: c h hi ps)
  case Nil
  then show ?case by simp
next
  case (Cons r rs)
  obtain p c1 h1 where r: "run_request sys r (c, h) = (p, c1, h1)" by (metis prod_cases3)
  obtain ps' where rest: "run_requests sys rs (c1, h1) = (ps', c', h')"
    using Cons.prems(5) r by (auto split: prod.splits)
  have sys: "run_system sys r h = (p, h1)" using run_request_system [of sys r c h] r by simp
  have "valid_request live r h" "valid_requests sys live rs h1" using Cons.prems(4) sys by simp_all
  then show ?case
    using counts_request [OF Cons.prems(1,2,3) _ r] Cons.IH [OF _ _ _ _ rest, of "high_water_step live r h1 hi"] sys
    by (simp add: Let_def)
qed

end

section \<open>A heap that has the contract\<close>

text \<open>Blocks are cut from an address that only grows; freed addresses are not used again.\<close>

record bump_heap =
  bump_next :: nat
  bump_live :: "ptr \<Rightarrow> u64 option"

definition bump_alloc :: "u64 \<Rightarrow> bump_heap \<Rightarrow> ptr \<times> bump_heap" where
  "bump_alloc n h = (if bump_next h + unat n + 1 < 2 ^ 64
     then (of_nat (bump_next h), \<lparr>bump_next = bump_next h + unat n + 1,
       bump_live = (bump_live h)(of_nat (bump_next h) \<mapsto> n)\<rparr>)
     else (0, h))"

definition bump_free :: "ptr \<Rightarrow> bump_heap \<Rightarrow> bump_heap" where
  "bump_free p h = h\<lparr>bump_live := (bump_live h)(p := None)\<rparr>"

definition bump_system :: "bump_heap system_alloc" where
  "bump_system = \<lparr>sys_alloc = (\<lambda>l. bump_alloc (layout_size l)),
     sys_alloc_zeroed = (\<lambda>l. bump_alloc (layout_size l)),
     sys_dealloc = (\<lambda>p l. bump_free p),
     sys_realloc = (\<lambda>p l n h. case bump_alloc n h of (q, h') \<Rightarrow> if q = 0 then (0, h) else (q, bump_free p h'))\<rparr>"

definition bump_sane :: "bump_heap \<Rightarrow> bool" where
  "bump_sane h \<longleftrightarrow> 0 < bump_next h \<and> bump_next h < 2 ^ 64 \<and> finite (dom (bump_live h)) \<and>
     (\<forall>p \<in> dom (bump_live h). unat p < bump_next h) \<and> live_bytes bump_live h < bump_next h"

definition bump_empty :: bump_heap where
  "bump_empty = \<lparr>bump_next = 1, bump_live = Map.empty\<rparr>"

lemma bump_alloc_live:
  assumes "bump_sane h" and "bump_alloc n h = (p, h')"
  shows "bump_sane h' \<and> (if p = 0 then h' = h
    else bump_live h p = None \<and> bump_live h' = (bump_live h)(p \<mapsto> n))"
proof (cases "bump_next h + unat n + 1 < 2 ^ 64")
  case False
  then show ?thesis using assms by (auto simp: bump_alloc_def)
next
  case True
  then have p: "p = of_nat (bump_next h)" and h': "h' = \<lparr>bump_next = bump_next h + unat n + 1,
      bump_live = (bump_live h)(of_nat (bump_next h) \<mapsto> n)\<rparr>"
    using assms(2) by (auto simp: bump_alloc_def)
  have up: "unat p = bump_next h"
    using assms(1) by (simp add: p bump_sane_def unat_of_nat take_bit_nat_eq_self)
  then have "p \<noteq> 0" using assms(1) by (auto simp: bump_sane_def)
  have fresh: "bump_live h p = None"
    using assms(1) up by (cases "bump_live h p") (force simp: bump_sane_def dom_def)+
  have "live_bytes bump_live h' = live_bytes bump_live h + unat n"
    using assms(1) fresh by (intro live_bytes_insert) (simp_all add: bump_sane_def h' p)
  moreover have "\<forall>q \<in> dom (bump_live h). unat q < Suc (bump_next h + unat n)"
    using assms(1) by (meson bump_sane_def less_SucI trans_less_add1)
  ultimately have "bump_sane h'"
    using assms(1) True up by (simp add: bump_sane_def h' p)
  then show ?thesis using \<open>p \<noteq> 0\<close> fresh by (simp add: h' p)
qed

lemma bump_free_live:
  assumes "bump_sane h" and "bump_live h p = Some n"
  shows "bump_sane (bump_free p h)"
proof -
  have "live_bytes bump_live (bump_free p h) + unat n = live_bytes bump_live h"
    using assms by (intro live_bytes_remove) (simp_all add: bump_sane_def bump_free_def)
  then show ?thesis using assms by (auto simp: bump_sane_def bump_free_def)
qed

interpretation bump: system_heap bump_system bump_live bump_sane
proof (unfold_locales, goal_cases)
  case (1 h)
  then show ?case by (simp add: bump_sane_def)
next
  case (2 h)
  then show ?case by (simp add: bump_sane_def)
next
  case (3 h l p h')
  then show ?case using bump_alloc_live [of h "layout_size l" p h'] by (auto simp: bump_system_def)
next
  case (4 h l p h')
  then show ?case using bump_alloc_live [of h "layout_size l" p h'] by (auto simp: bump_system_def)
next
  case (5 h p l)
  then show ?case using bump_free_live by (auto simp: bump_system_def bump_free_def)
next
  case (6 h p l n q h')
  obtain x h1 where x: "bump_alloc n h = (x, h1)" by fastforce
  note live = bump_alloc_live [OF 6(1) x]
  show ?case
  proof (cases "x = 0")
    case True
    then show ?thesis using 6 x by (simp add: bump_system_def)
  next
    case False
    then have "bump_live h1 p = Some (layout_size l)" "x \<noteq> p" using live 6(2) by auto
    then show ?thesis
      using 6 x live False bump_free_live [of h1 p "layout_size l"]
      by (auto simp: bump_system_def bump_free_def)
  qed
qed

section \<open>The counters as atomics\<close>

text \<open>
  Concurrent threads. A request is the system allocator's step and then the atomic operations on the
  counters: \<^verbatim>\<open>add\<close> raises the current size and then the peak to the value it saw, \<^verbatim>\<open>sub\<close> lowers the
  current size, \<^verbatim>\<open>realloc\<close> does both. \<open>co_phases\<close> says where every thread is. \<open>co_live\<close> is the number of
  bytes the system allocator has given out, \<open>co_highest\<close> the highest size any addition saw.
\<close>

datatype phase = Idle | To_Add u64 | To_Max u64 | To_Sub u64 | To_Sub_Add u64 u64

record counters =
  co_current :: u64
  co_peak :: u64
  co_phases :: "phase list"
  co_live :: nat
  co_highest :: u64

inductive counter_step :: "counters \<Rightarrow> counters \<Rightarrow> bool" where
  system_alloc: "i < length (co_phases s) \<Longrightarrow> co_phases s ! i = Idle \<Longrightarrow>
    counter_step s (s\<lparr>co_phases := (co_phases s)[i := To_Add n], co_live := co_live s + unat n\<rparr>)"
| system_dealloc: "i < length (co_phases s) \<Longrightarrow> co_phases s ! i = Idle \<Longrightarrow> unat n \<le> co_live s \<Longrightarrow>
    counter_step s (s\<lparr>co_phases := (co_phases s)[i := To_Sub n], co_live := co_live s - unat n\<rparr>)"
| system_realloc: "i < length (co_phases s) \<Longrightarrow> co_phases s ! i = Idle \<Longrightarrow> unat n \<le> co_live s \<Longrightarrow>
    counter_step s (s\<lparr>co_phases := (co_phases s)[i := To_Sub_Add n m], co_live := co_live s - unat n + unat m\<rparr>)"
| fetch_add: "i < length (co_phases s) \<Longrightarrow> co_phases s ! i = To_Add n \<Longrightarrow> now = co_current s + n \<Longrightarrow>
    counter_step s (s\<lparr>co_phases := (co_phases s)[i := To_Max now], co_current := now,
      co_highest := max (co_highest s) now\<rparr>)"
| fetch_max: "i < length (co_phases s) \<Longrightarrow> co_phases s ! i = To_Max now \<Longrightarrow>
    counter_step s (s\<lparr>co_phases := (co_phases s)[i := Idle], co_peak := max (co_peak s) now\<rparr>)"
| fetch_sub: "i < length (co_phases s) \<Longrightarrow> co_phases s ! i = To_Sub n \<Longrightarrow>
    counter_step s (s\<lparr>co_phases := (co_phases s)[i := Idle], co_current := co_current s - n\<rparr>)"
| fetch_sub_add: "i < length (co_phases s) \<Longrightarrow> co_phases s ! i = To_Sub_Add n m \<Longrightarrow>
    counter_step s (s\<lparr>co_phases := (co_phases s)[i := To_Add m], co_current := co_current s - n\<rparr>)"

text \<open>After a reset with all threads idle.\<close>

definition counters_start :: "nat \<Rightarrow> u64 \<Rightarrow> counters" where
  "counters_start threads n = \<lparr>co_current = n, co_peak = n, co_phases = replicate threads Idle,
     co_live = unat n, co_highest = n\<rparr>"

fun still_to_add :: "phase \<Rightarrow> u64" where
  "still_to_add (To_Add n) = n"
| "still_to_add (To_Sub_Add n m) = m"
| "still_to_add _ = 0"

fun still_to_sub :: "phase \<Rightarrow> u64" where
  "still_to_sub (To_Sub n) = n"
| "still_to_sub (To_Sub_Add n m) = n"
| "still_to_sub _ = 0"

definition in_flight :: "phase list \<Rightarrow> u64" where
  "in_flight ps = (\<Sum>p \<leftarrow> ps. still_to_add p - still_to_sub p)"

lemma in_flight_update:
  "i < length ps \<Longrightarrow> in_flight (ps[i := p]) =
   in_flight ps + (still_to_add p - still_to_sub p) - (still_to_add (ps ! i) - still_to_sub (ps ! i))"
proof (induction ps arbitrary: i)
  case Nil
  then show ?case by simp
next
  case (Cons q ps)
  then show ?case by (cases i) (auto simp: in_flight_def)
qed

lemma in_flight_idle: "\<forall>p \<in> set ps. p = Idle \<Longrightarrow> in_flight ps = 0"
  by (induction ps) (auto simp: in_flight_def)

definition counters_inv :: "counters \<Rightarrow> bool" where
  "counters_inv s \<longleftrightarrow> of_nat (co_live s) = co_current s + in_flight (co_phases s) \<and> co_peak s \<le> co_highest s \<and>
     (\<forall>now. To_Max now \<in> set (co_phases s) \<longrightarrow> now \<le> co_highest s) \<and>
     (co_peak s = co_highest s \<or> To_Max (co_highest s) \<in> set (co_phases s))"

lemma counters_inv_start: "counters_inv (counters_start threads n)"
  using in_flight_idle [of "replicate threads Idle"] by (simp add: counters_inv_def counters_start_def)

text \<open>A step that replaces a phase other than \<open>To_Max\<close> keeps the pending maxima.\<close>

lemma pending_kept:
  assumes "i < length ps" and "To_Max now \<in> set ps" and "ps ! i \<noteq> To_Max now"
  shows "To_Max now \<in> set (ps[i := p])"
  using assms by (metis in_set_conv_nth length_list_update nth_list_update_neq)

lemma pending_before: "To_Max now \<in> set (ps[i := p]) \<Longrightarrow> p \<noteq> To_Max now \<Longrightarrow> To_Max now \<in> set ps"
  using set_update_subset_insert by fastforce

lemma counters_inv_other:
  assumes inv: "counters_inv s" and i: "i < length (co_phases s)" "\<forall>now. co_phases s ! i \<noteq> To_Max now" "\<forall>now. p \<noteq> To_Max now"
    and s': "s' = s\<lparr>co_phases := (co_phases s)[i := p], co_live := l, co_current := c\<rparr>"
    and eq: "of_nat l = c + in_flight ((co_phases s)[i := p])"
  shows "counters_inv s'"
proof -
  have "\<forall>now. To_Max now \<in> set ((co_phases s)[i := p]) \<longleftrightarrow> To_Max now \<in> set (co_phases s)"
    using i pending_kept pending_before by metis
  then show ?thesis using inv eq by (simp add: counters_inv_def s')
qed

lemma counters_inv_step:
  assumes "counter_step s s'" and inv: "counters_inv s" shows "counters_inv s'"
proof -
  have live: "of_nat (co_live s) = co_current s + in_flight (co_phases s)" using inv by (simp add: counters_inv_def)
  from assms(1) show ?thesis
  proof cases
    case (system_alloc i n)
    then show ?thesis
      using live by (intro counters_inv_other [OF inv, where i = i and p = "To_Add n" and l = "co_live s + unat n" and c = "co_current s"])
        (auto simp: in_flight_update)
  next
    case (system_dealloc i n)
    then show ?thesis
      using live by (intro counters_inv_other [OF inv, where i = i and p = "To_Sub n" and l = "co_live s - unat n" and c = "co_current s"])
        (auto simp: in_flight_update of_nat_diff)
  next
    case (system_realloc i n m)
    then show ?thesis
      using live by (intro counters_inv_other [OF inv, where i = i and p = "To_Sub_Add n m" and l = "co_live s - unat n + unat m" and c = "co_current s"])
        (auto simp: in_flight_update of_nat_diff)
  next
    case (fetch_sub i n)
    then show ?thesis
      using live by (intro counters_inv_other [OF inv, where i = i and p = "Idle" and l = "co_live s" and c = "co_current s - n"])
        (auto simp: in_flight_update)
  next
    case (fetch_sub_add i n m)
    then show ?thesis
      using live by (intro counters_inv_other [OF inv, where i = i and p = "To_Add m" and l = "co_live s" and c = "co_current s - n"])
        (auto simp: in_flight_update)
  next
    case (fetch_add i n now)
    let ?ps = "(co_phases s)[i := To_Max now]"
    have "To_Max now \<in> set ?ps" using fetch_add(2) by (simp add: set_update_memI)
    moreover have "m \<le> max (co_highest s) now" if "To_Max m \<in> set ?ps" for m
      using that pending_before [of m "co_phases s" i "To_Max now"] inv
      by (cases "m = now") (auto simp: counters_inv_def le_max_iff_disj)
    moreover have "To_Max m \<in> set (co_phases s) \<Longrightarrow> To_Max m \<in> set ?ps" for m
      using pending_kept [OF fetch_add(2), of m] fetch_add(3) by simp
    moreover have "co_peak s \<le> max (co_highest s) now" using inv by (simp add: counters_inv_def le_max_iff_disj)
    moreover have "of_nat (co_live s) = now + in_flight ?ps"
      using live fetch_add(2-4) by (simp add: in_flight_update)
    ultimately show ?thesis
      using inv unfolding counters_inv_def fetch_add(1)
      by (cases "now \<le> co_highest s") (auto simp: max_absorb1 max_absorb2)
  next
    case (fetch_max i now)
    let ?ps = "(co_phases s)[i := Idle]"
    have now: "now \<le> co_highest s" using inv fetch_max(2,3) by (metis counters_inv_def nth_mem)
    have "max (co_peak s) now = co_highest s \<or> To_Max (co_highest s) \<in> set ?ps"
    proof (cases "now = co_highest s")
      case True
      then show ?thesis using inv by (simp add: counters_inv_def max_absorb2)
    next
      case False
      then show ?thesis
        using inv now pending_kept [OF fetch_max(2), of "co_highest s" Idle] fetch_max(3)
        by (auto simp: counters_inv_def max_absorb1)
    qed
    moreover have "of_nat (co_live s) = co_current s + in_flight ?ps"
      using live fetch_max(2,3) by (simp add: in_flight_update)
    moreover have "To_Max m \<in> set ?ps \<Longrightarrow> m \<le> co_highest s" for m
      using inv pending_before [of m "co_phases s" i Idle] by (auto simp: counters_inv_def)
    ultimately show ?thesis using inv now unfolding counters_inv_def fetch_max(1) by auto
  qed
qed

lemma counters_inv_steps: "counter_step\<^sup>*\<^sup>* (counters_start threads n) s \<Longrightarrow> counters_inv s"
  by (induction rule: rtranclp_induct) (auto intro: counters_inv_start counters_inv_step)

section \<open>Properties\<close>

text \<open>
  The allocator hands every request to the system allocator unchanged: the pointers a program
  gets and the heap they live in are those of a run on the system allocator alone, whatever the
  counters say.
\<close>

theorem allocator_transparent:
  "(fst (run_requests sys rs (c, h)), snd (snd (run_requests sys rs (c, h)))) = run_systems sys rs h"
  by (rule run_requests_system)

text \<open>
  C38: The counters are exact. On an allocator that gives out blocks that do not overlap, for a
  program that frees only live blocks with their size, the current counter is the number of live
  bytes and the peak the largest number of live bytes since the reset, through allocations,
  reallocations and frees, failed ones included.
\<close>

theorem peak_heap_exact:
  assumes "system_heap sys live sane" and "sane h" and "unat (pa_current c) = live_bytes live h"
    and "valid_requests sys live rs h"
    and "run_requests sys (Reset # rs) (c, h) = (ps, c', h')"
  shows "unat (current_bytes c') = live_bytes live h' \<and>
    unat (peak_bytes c') = high_water sys live rs h (live_bytes live h)"
proof -
  obtain ps' where run: "run_requests sys rs (reset_peak c, h) = (ps', c', h')"
    using assms(5) by (auto split: prod.splits)
  have "counts_heap live (live_bytes live h) (reset_peak c) h"
    using assms(3) by (simp add: counts_heap_def reset_peak_def current_bytes_def)
  then show ?thesis
    using system_heap.counts_requests [OF assms(1) _ _ assms(2,4) run] by (simp add: counts_heap_def current_bytes_def peak_bytes_def)
qed

theorem peak_heap_exact_witness:
  "\<exists>ps c' h'. run_requests bump_system [Reset, Alloc \<lparr>layout_size = 10, layout_align = 1\<rparr>,
       Dealloc 1 \<lparr>layout_size = 10, layout_align = 1\<rparr>] (peak_alloc_new, bump_empty) = (ps, c', h') \<and>
     unat (current_bytes c') = live_bytes bump_live h' \<and> current_bytes c' = 0 \<and> peak_bytes c' = 10"
proof -
  let ?l = "\<lparr>layout_size = 10, layout_align = 1\<rparr>"
  have "bump_sane bump_empty" and empty: "live_bytes bump_live bump_empty = 0"
    by (simp_all add: bump_sane_def bump_empty_def live_bytes_def)
  moreover have "unat (pa_current peak_alloc_new) = live_bytes bump_live bump_empty"
    using empty by (simp add: peak_alloc_new_def)
  moreover have "valid_requests bump_system bump_live [Alloc ?l, Dealloc 1 ?l] bump_empty"
    by (simp add: bump_system_def bump_alloc_def bump_empty_def)
  moreover obtain ps c' h' where run: "run_requests bump_system (Reset # [Alloc ?l, Dealloc 1 ?l])
      (peak_alloc_new, bump_empty) = (ps, c', h')" by (metis prod_cases3)
  ultimately have "unat (current_bytes c') = live_bytes bump_live h'"
    using peak_heap_exact [OF bump.system_heap_axioms] by blast
  moreover have "current_bytes c' = 0 \<and> peak_bytes c' = 10"
    using run by (auto simp: bump_system_def bump_alloc_def bump_empty_def bump_free_def pa_alloc_def
        pa_dealloc_def pa_add_def pa_sub_def reset_peak_def current_bytes_def peak_alloc_new_def peak_bytes_def)
  ultimately show ?thesis using run by blast
qed

text \<open>
  C39: Under every interleaving of concurrent allocations, reallocations and frees no race loses a byte
  or a peak: the current counter differs from the live bytes by exactly the requests that are between
  the system allocator and the counters, so with no request in flight it is the number of live
  bytes; and then the peak is the highest size any addition saw.
\<close>

theorem concurrent_counts_exact:
  assumes "counter_step\<^sup>*\<^sup>* (counters_start threads n) s"
  shows "of_nat (co_live s) = co_current s + in_flight (co_phases s) \<and> co_peak s \<le> co_highest s \<and>
    ((\<forall>p \<in> set (co_phases s). p = Idle) \<longrightarrow> co_current s = of_nat (co_live s) \<and> co_peak s = co_highest s)"
  using counters_inv_steps [OF assms] in_flight_idle [of "co_phases s"] by (auto simp: counters_inv_def)

text \<open>
  The peak is the highest value of the counter, not the highest number of live bytes: a thread that
  has freed ten bytes has not yet lowered the counter when another one allocates ten.
\<close>

lemma race_counts_freed_bytes:
  "\<exists>s. counter_step\<^sup>*\<^sup>* (counters_start 2 10) s \<and> (\<forall>p \<in> set (co_phases s). p = Idle) \<and> co_live s = 10 \<and> co_peak s = 20"
proof -
  let ?s0 = "\<lparr>co_current = 10, co_peak = 10, co_phases = [Idle, Idle], co_live = 10, co_highest = 10\<rparr>"
  let ?s1 = "?s0\<lparr>co_phases := [To_Sub 10, Idle], co_live := 0\<rparr>"
  let ?s2 = "?s0\<lparr>co_phases := [To_Sub 10, To_Add 10], co_live := 10\<rparr>"
  let ?s3 = "\<lparr>co_current = 20, co_peak = 10, co_phases = [To_Sub 10, To_Max 20], co_live = 10, co_highest = 20\<rparr>"
  let ?s4 = "\<lparr>co_current = 20, co_peak = 20, co_phases = [To_Sub 10, Idle], co_live = 10, co_highest = 20\<rparr>"
  let ?s5 = "\<lparr>co_current = 10, co_peak = 20, co_phases = [Idle, Idle], co_live = 10, co_highest = 20\<rparr>"
  have "counter_step ?s0 ?s1" using counter_step.system_dealloc [of 0 ?s0 10] by simp
  moreover have "counter_step ?s1 ?s2" using counter_step.system_alloc [of 1 ?s1 10] by simp
  moreover have "counter_step ?s2 ?s3" using counter_step.fetch_add [of 1 ?s2 10 20] by simp
  moreover have "counter_step ?s3 ?s4" using counter_step.fetch_max [of 1 ?s3 20] by simp
  moreover have "counter_step ?s4 ?s5" using counter_step.fetch_sub [of 0 ?s4 10] by simp
  ultimately have "counter_step\<^sup>*\<^sup>* ?s0 ?s5" by (meson r_into_rtranclp rtranclp_trans)
  moreover have "replicate 2 Idle = [Idle, Idle]" by (simp add: numeral_2_eq_2)
  then have "counters_start 2 10 = ?s0" by (simp add: counters_start_def)
  ultimately show ?thesis by (intro exI [of _ ?s5]) simp
qed

theorem concurrent_counts_exact_witness:
  "\<exists>s. counter_step\<^sup>*\<^sup>* (counters_start 2 10) s \<and> co_current s = of_nat (co_live s) \<and> co_peak s = co_highest s"
  using race_counts_freed_bytes concurrent_counts_exact [of 2 10] by blast

end
