(* ===== verification/Bench_Main.thy ===== *)
theory Bench_Main
  imports Bench_Report Progress_Sink Peak_Alloc
begin

text \<open>
  The program \<^verbatim>\<open>datadir_bench\<close> (\<^verbatim>\<open>bin/datadir_bench.rs\<close>, with \<^verbatim>\<open>runtime\<close> of \<^verbatim>\<open>lib.rs\<close> and the providers
  of \<^verbatim>\<open>mdbx.rs\<close>): actions on the database of the directory, the console and the heap that return, exit
  or panic. What reth and the system provide is a \<open>bench_env\<close>: the database, the walk, the
  partitioned build as the calls it makes on its sink in the order in which they take effect, the
  clock, the allocator, and what the program asks of it from one reading of the clock or the heap to
  the next.
\<close>

section \<open>Actions\<close>

datatype 'a flow = Continue 'a | Exits nat | Panicked string | Diverges

text \<open>\<open>bench_heap\<close> is the global allocator with the system's heap, \<open>bench_tick\<close> counts the readings.\<close>

record ('d, 'h) bench =
  bench_db :: 'd
  bench_out :: "report list"
  bench_heap :: "peak_alloc \<times> 'h"
  bench_tick :: nat

text \<open>The static \<^verbatim>\<open>HEAP\<close>, the global allocator as the program starts.\<close>

definition static_heap :: peak_alloc where "static_heap = peak_alloc_new"

type_synonym ('a, 'd, 'h) action = "('d, 'h) bench \<Rightarrow> 'a flow \<times> ('d, 'h) bench"

definition andthen :: "('a, 'd, 'h) action \<Rightarrow> ('a \<Rightarrow> ('b, 'd, 'h) action) \<Rightarrow> ('b, 'd, 'h) action" where
  "andthen m f s = (case m s of (r, s') \<Rightarrow> (case r of
     Continue x \<Rightarrow> f x s' | Exits c \<Rightarrow> (Exits c, s') | Panicked msg \<Rightarrow> (Panicked msg, s') | Diverges \<Rightarrow> (Diverges, s')))"

definition return :: "'a \<Rightarrow> ('a, 'd, 'h) action" where
  "return x s = (Continue x, s)"

definition exit_with :: "nat \<Rightarrow> ('a, 'd, 'h) action" where
  "exit_with c s = (Exits c, s)"

definition expect :: "string \<Rightarrow> 'e + 'a \<Rightarrow> ('a, 'd, 'h) action" where
  "expect msg r s = (case r of Err e \<Rightarrow> (Panicked msg, s) | Ok x \<Rightarrow> (Continue x, s))"

definition print :: "report list \<Rightarrow> (unit, 'd, 'h) action" where
  "print rs s = (Continue (), s\<lparr>bench_out := bench_out s @ rs\<rparr>)"

text \<open>A call that changes the database and returns a result.\<close>

definition on_db :: "('d \<Rightarrow> 'd \<times> 'a) \<Rightarrow> ('a, 'd, 'h) action" where
  "on_db f s = (case f (bench_db s) of (d, x) \<Rightarrow> (Continue x, s\<lparr>bench_db := d\<rparr>))"

section \<open>The environment\<close>

text \<open>The providers over a bare database (\<^verbatim>\<open>mdbx.rs\<close>); their prune modes are the default.\<close>

record ('t, 'p) tx_provider =
  tp_tx :: 't
  tp_prune_modes :: 'p

definition source_provider_ro :: "('d, 't, 'k) trie_db \<Rightarrow> 'p \<Rightarrow> 'd \<Rightarrow> db_error + ('t, 'p) tx_provider" where
  "source_provider_ro db prune_default d = rbind (db_tx db d) (\<lambda>t. Ok \<lparr>tp_tx = t, tp_prune_modes = prune_default\<rparr>)"

definition provider_tx :: "('t, 'p) tx_provider \<Rightarrow> 't" where
  "provider_tx p = tp_tx p"

definition provider_prune_modes_ref :: "('t, 'p) tx_provider \<Rightarrow> 'p" where
  "provider_prune_modes_ref p = tp_prune_modes p"

definition provider_tx_mut :: "('t \<Rightarrow> 't) \<Rightarrow> ('t, 'p) tx_provider \<Rightarrow> ('t, 'p) tx_provider" where
  "provider_tx_mut f p = p\<lparr>tp_tx := f (tp_tx p)\<rparr>"

definition provider_into_tx :: "('t, 'p) tx_provider \<Rightarrow> 't" where
  "provider_into_tx p = tp_tx p"

definition provider_commit :: "('d, 't, 'k) trie_db \<Rightarrow> ('t, 'p) tx_provider \<Rightarrow> 'd \<Rightarrow> 'd \<times> (db_error + unit)" where
  "provider_commit db p d = tx_commit db (tp_tx p) d"

record rayon_config =
  cpu_threads :: "u64 option"

text \<open>\<open>env_build\<close> gets the runtime's threads, the number of the run and what opening a provider gives.\<close>

record ('d, 't, 'k, 'st, 'w, 'h, 'p) bench_env =
  env_db :: "('d, 't, 'k) trie_db"
  env_codec :: "'st settings_codec"
  env_walk :: "('t, 'w) state_root_walk"
  env_hasher :: hasher
  env_schedule :: "node_event list list \<Rightarrow> node_event list"
  env_parse_b256 :: "string \<Rightarrow> b256 option"
  env_runtime :: "rayon_config \<Rightarrow> string + nat"
  env_open :: "bool \<Rightarrow> string \<Rightarrow> 'd \<Rightarrow> string + unit"
  env_tip :: "'t \<Rightarrow> db_error + u64 option"
  env_accounts :: "'t \<Rightarrow> db_error + u64"
  env_storages :: "'t \<Rightarrow> db_error + u64"
  env_prune_modes :: 'p
  env_build :: "nat \<Rightarrow> nat \<Rightarrow> db_error + ('t, 'p) tx_provider \<Rightarrow> progress_call list \<times> (string + b256)"
  env_clock :: "nat \<Rightarrow> nat"
  env_rebuild_clock :: "nat \<Rightarrow> nat"
  env_system :: "'h system_alloc"
  env_requests :: "nat \<Rightarrow> request list"
  env_debug :: bool

text \<open>A reading of the clock or the heap, after what the program has allocated and freed since the last.\<close>

definition tick :: "('d, 't, 'k, 'st, 'w, 'h, 'p) bench_env \<Rightarrow> (nat, 'd, 'h) action" where
  "tick env s = (Continue (bench_tick s), s\<lparr>bench_tick := Suc (bench_tick s),
     bench_heap := snd (run_requests (env_system env) (env_requests env (bench_tick s)) (bench_heap s))\<rparr>)"

definition read_clock :: "('d, 't, 'k, 'st, 'w, 'h, 'p) bench_env \<Rightarrow> (nat, 'd, 'h) action" where
  "read_clock env = andthen (tick env) (\<lambda>i. return (env_clock env i))"

definition elapsed_since :: "('d, 't, 'k, 'st, 'w, 'h, 'p) bench_env \<Rightarrow> nat \<Rightarrow> (nat, 'd, 'h) action" where
  "elapsed_since env started = andthen (read_clock env) (\<lambda>now. return (now - started))"

definition reset_heap :: "('d, 't, 'k, 'st, 'w, 'h, 'p) bench_env \<Rightarrow> (unit, 'd, 'h) action" where
  "reset_heap env = andthen (tick env) (\<lambda>_ s.
     (Continue (), s\<lparr>bench_heap := (reset_peak (fst (bench_heap s)), snd (bench_heap s))\<rparr>))"

definition heap_peak :: "('d, 't, 'k, 'st, 'w, 'h, 'p) bench_env \<Rightarrow> (u64, 'd, 'h) action" where
  "heap_peak env = andthen (tick env) (\<lambda>_ s. (Continue (peak_bytes (fst (bench_heap s))), s))"

definition runtime :: "(rayon_config \<Rightarrow> string + nat) \<Rightarrow> u64 option \<Rightarrow> (nat, 'd, 'h) action" where
  "runtime build n = expect ''runtime builds'' (build \<lparr>cpu_threads = n\<rparr>)"

definition progress_interval :: nat where "progress_interval = 10 * 10 ^ 9"

text \<open>The calls of a build on its sink; a panic of one ends the build.\<close>

definition call_sink :: "(node_event \<Rightarrow> 's \<Rightarrow> unit outcome \<times> 's) \<Rightarrow> progress_call \<Rightarrow> 's progress_sink \<Rightarrow>
    unit outcome \<times> 's progress_sink" where
  "call_sink emit c s = (case c of On_Node e \<Rightarrow> progress_on_branch_node emit e s
     | On_Progress readings n \<Rightarrow> on_progress readings n s)"

fun feed :: "(node_event \<Rightarrow> 's \<Rightarrow> unit outcome \<times> 's) \<Rightarrow> progress_call list \<Rightarrow> 's progress_sink \<Rightarrow>
    unit outcome \<times> 's progress_sink" where
  "feed emit [] s = (Returns (), s)"
| "feed emit (c # cs) s = (case call_sink emit c s of (r, s') \<Rightarrow>
     (case r of Panics msg \<Rightarrow> (Panics msg, s') | Returns _ \<Rightarrow> feed emit cs s'))"

text \<open>The sinks of the program. Sending to a writer that has ended panics.\<close>

definition digest_emit :: "hasher \<Rightarrow> node_event \<Rightarrow> node_digest \<Rightarrow> unit outcome \<times> node_digest" where
  "digest_emit h e d = (Returns (), digest_on_branch_node h e d)"

definition writer_emit :: "('d, 't, 'k) trie_db \<Rightarrow> bool \<Rightarrow> bool \<Rightarrow> nat \<Rightarrow> node_event \<Rightarrow> 'd writer_thread \<Rightarrow>
    unit outcome \<times> 'd writer_thread" where
  "writer_emit db packed debug c e w = (if is_running w then (Returns (), writer_receive db packed debug c e w)
     else (Panics ''writer thread is alive'', w))"

definition root_with_sink :: "('d, 't, 'k, 'st, 'w, 'h, 'p) bench_env \<Rightarrow> nat \<Rightarrow> nat \<Rightarrow>
    (node_event \<Rightarrow> 's \<Rightarrow> unit outcome \<times> 's) \<Rightarrow> 's progress_sink \<Rightarrow> 'd \<Rightarrow> b256 flow \<times> 's progress_sink" where
  "root_with_sink env n run emit sink d =
     (case env_build env n run (source_provider_ro (env_db env) (env_prune_modes env) d) of (calls, rt) \<Rightarrow>
      (case feed emit calls sink of (r, sink) \<Rightarrow>
        (case r of Panics msg \<Rightarrow> Panicked msg
         | Returns _ \<Rightarrow> (case rt of Err e \<Rightarrow> Panicked ''state root'' | Ok rt \<Rightarrow> Continue rt), sink)))"

text \<open>What is measured: the peak is reset and the time read before, both are read after.\<close>

definition measured :: "('d, 't, 'k, 'st, 'w, 'h, 'p) bench_env \<Rightarrow> ('a, 'd, 'h) action \<Rightarrow>
    ('a \<Rightarrow> nat \<Rightarrow> u64 \<Rightarrow> ('b, 'd, 'h) action) \<Rightarrow> ('b, 'd, 'h) action" where
  "measured env m f = andthen (reset_heap env) (\<lambda>_. andthen (read_clock env) (\<lambda>started. andthen m (\<lambda>x.
     andthen (elapsed_since env started) (\<lambda>elapsed. andthen (heap_peak env) (\<lambda>peak. f x elapsed peak)))))"

section \<open>The parts of main\<close>

definition read_tx :: "('d, 't, 'k, 'st, 'w, 'h, 'p) bench_env \<Rightarrow> ('t, 'd, 'h) action" where
  "read_tx env s = expect ''read transaction'' (db_tx (env_db env) (bench_db s)) s"

definition print_tip :: "('d, 't, 'k, 'st, 'w, 'h, 'p) bench_env \<Rightarrow> 't \<Rightarrow> (unit, 'd, 'h) action" where
  "print_tip env t = andthen (expect ''read stage checkpoints'' (env_tip env t)) (\<lambda>tip. print [Tip_Block tip])"

definition hashed_entries :: "('d, 't, 'k, 'st, 'w, 'h, 'p) bench_env \<Rightarrow> 't \<Rightarrow> (u64, 'd, 'h) action" where
  "hashed_entries env t = andthen (expect ''count hashed accounts'' (env_accounts env t)) (\<lambda>a.
     andthen (expect ''count hashed storages'' (env_storages env t)) (\<lambda>b. return (a + b)))"

definition print_trie_tables_digest :: "('d, 't, 'k, 'st, 'w, 'h, 'p) bench_env \<Rightarrow> 't \<Rightarrow> (unit, 'd, 'h) action" where
  "print_trie_tables_digest env t = andthen (read_clock env) (\<lambda>started.
     andthen (expect ''digest trie tables''
       (digest_trie_tables (env_db env) (env_codec env) (env_hasher env) (env_schedule env) t)) (\<lambda>tables.
     andthen (elapsed_since env started) (\<lambda>elapsed. print [Tables_Report tables elapsed])))"

definition check_written_tables :: "('d, 't, 'k, 'st, 'w, 'h, 'p) bench_env \<Rightarrow> 't \<Rightarrow> b256 \<Rightarrow> (unit, 'd, 'h) action" where
  "check_written_tables env t rt = andthen (print_trie_tables_digest env t) (\<lambda>_. andthen (read_clock env) (\<lambda>started.
     andthen (expect ''reth StateRoot over written tables''
       (reth_serial_root (env_db env) (env_codec env) (env_walk env) t)) (\<lambda>walked.
     if walked = rt then andthen (elapsed_since env started) (\<lambda>elapsed. print [Walked_Root walked elapsed])
     else andthen (print [Walk_Mismatch walked rt]) (\<lambda>_. exit_with 1))))"

definition check_root :: "b256 \<Rightarrow> b256 option \<Rightarrow> string \<Rightarrow> (unit, 'd, 'h) action" where
  "check_root rt expected label = (case expected of
     None \<Rightarrow> return ()
   | Some expected \<Rightarrow> if rt = expected then print [Root_Matches label]
       else andthen (print [Root_Mismatch label expected]) (\<lambda>_. exit_with 1))"

definition clear_tables :: "('d, 't, 'k, 'st, 'w, 'h, 'p) bench_env \<Rightarrow> (unit, 'd, 'h) action" where
  "clear_tables env = andthen (on_db (clear_trie_tables (env_db env))) (expect ''clear trie tables'')"

definition rebuild_db :: "('d, 't, 'k, 'st, 'w, 'h, 'p) bench_env \<Rightarrow> (rebuilt, 'd, 'h) action" where
  "rebuild_db env s = (case reth_rebuild (env_rebuild_clock env) (env_db env) (env_codec env) (env_walk env) None (bench_db s) of
     None \<Rightarrow> (Diverges, s)
   | Some (d, lg, r) \<Rightarrow> andthen (print (map Rebuild_Line lg)) (\<lambda>_. expect ''reth rebuild'' r) (s\<lparr>bench_db := d\<rparr>))"

definition main_rebuild :: "('d, 't, 'k, 'st, 'w, 'h, 'p) bench_env \<Rightarrow> bench_args \<Rightarrow> (unit, 'd, 'h) action" where
  "main_rebuild env args = andthen (read_tx env) (\<lambda>t. andthen (print_tip env t) (\<lambda>_.
     measured env (rebuild_db env) (\<lambda>built elapsed peak.
     andthen (print [Rebuild_Report built elapsed peak]) (\<lambda>_.
     andthen (check_root (rb_root built) (expected_root args) ''reth rebuild'') (\<lambda>_.
     andthen (read_tx env) (\<lambda>t. check_written_tables env t (rb_root built)))))))"

text \<open>
  A build: the lines of the sink are printed as they come; \<open>db_of\<close> is the database as the sink leaves
  it. Then the writer: it starts on the database as it is, and \<^verbatim>\<open>finish\<close> flushes it.
\<close>

definition run_build :: "('d, 't, 'k, 'st, 'w, 'h, 'p) bench_env \<Rightarrow> nat \<Rightarrow> nat \<Rightarrow>
    (node_event \<Rightarrow> 's \<Rightarrow> unit outcome \<times> 's) \<Rightarrow> ('s \<Rightarrow> 'd \<Rightarrow> 'd) \<Rightarrow> 's progress_sink \<Rightarrow>
    (b256 \<times> 's progress_sink, 'd, 'h) action" where
  "run_build env n run emit db_of sink s =
     (case root_with_sink env n run emit sink (bench_db s) of (r, sink) \<Rightarrow>
       (map_flow (\<lambda>rt. (rt, sink)) r, s\<lparr>bench_db := db_of (into_inner sink) (bench_db s),
          bench_out := bench_out s @ map (\<lambda>l. Progress_Line (snd l)) (ps_lines sink)\<rparr>))"

definition new_writer :: "('d, 't, 'k, 'st, 'w, 'h, 'p) bench_env \<Rightarrow> nat \<Rightarrow> (bool \<times> nat \<times> 'd writer_thread, 'd, 'h) action" where
  "new_writer env chunk s = (case new_write_sink (env_db env) (env_codec env) (bench_db s) chunk [] of
     Err e \<Rightarrow> (Panicked ''writer'', s)
   | Ok (packed, c, _) \<Rightarrow> (Continue (packed, c, writer_start (bench_db s)), s))"

definition finish_writer :: "('d, 't, 'k, 'st, 'w, 'h, 'p) bench_env \<Rightarrow> bool \<Rightarrow> 'd writer_thread \<Rightarrow> (written, 'd, 'h) action" where
  "finish_writer env packed w s = (let w = writer_flush (env_db env) packed w; s = s\<lparr>bench_db := writer_db w\<rparr>
     in (case finish_result w of
       None \<Rightarrow> (Diverges, s)
     | Some (Panics msg) \<Rightarrow> (Panicked msg, s)
     | Some (Returns written) \<Rightarrow> expect ''write trie tables'' written s))"

text \<open>The root, the entries walked and what was written.\<close>

definition build_written :: "('d, 't, 'k, 'st, 'w, 'h, 'p) bench_env \<Rightarrow> bench_args \<Rightarrow> nat \<Rightarrow> u64 \<Rightarrow> nat \<Rightarrow>
    (b256 \<times> u64 \<times> written, 'd, 'h) action" where
  "build_written env args n entries run = andthen (new_writer env (unat (chunk_nodes args))) (\<lambda>(packed, c, w).
     andthen (read_clock env) (\<lambda>now.
     andthen (run_build env n run (writer_emit (env_db env) packed (env_debug env) c) (\<lambda>w _. writer_db w)
       (progress_new w entries progress_interval now)) (\<lambda>(rt, sink).
     andthen (finish_writer env packed (into_inner sink)) (\<lambda>wr. return (rt, walked sink, wr)))))"

definition run_label :: "nat \<Rightarrow> string" where
  "run_label run = ''run '' @ show_nat run"

definition generator_run :: "('d, 't, 'k, 'st, 'w, 'h, 'p) bench_env \<Rightarrow> bench_args \<Rightarrow> nat \<Rightarrow> u64 \<Rightarrow> nat \<Rightarrow> (unit, 'd, 'h) action" where
  "generator_run env args n entries run = andthen (clear_tables env) (\<lambda>_.
     measured env (build_written env args n entries run) (\<lambda>(rt, walked, wr) elapsed peak.
     andthen (print [Write_Report run rt walked wr elapsed peak]) (\<lambda>_.
     andthen (check_root rt (expected_root args) (run_label run)) (\<lambda>_.
     andthen (read_tx env) (\<lambda>t. check_written_tables env t rt)))))"

text \<open>\<^verbatim>\<open>for run in 1..=args.repeat\<close>.\<close>

fun for_runs :: "(nat \<Rightarrow> (unit, 'd, 'h) action) \<Rightarrow> nat \<Rightarrow> nat \<Rightarrow> (unit, 'd, 'h) action" where
  "for_runs body run 0 = return ()"
| "for_runs body run (Suc k) = andthen (body run) (\<lambda>_. for_runs body (run + 1) k)"

definition main_write :: "('d, 't, 'k, 'st, 'w, 'h, 'p) bench_env \<Rightarrow> bench_args \<Rightarrow> nat \<Rightarrow> (unit, 'd, 'h) action" where
  "main_write env args n = andthen (read_tx env) (\<lambda>t. andthen (print_tip env t) (\<lambda>_.
     andthen (print [Threads n]) (\<lambda>_. andthen (read_tx env) (\<lambda>t. andthen (hashed_entries env t) (\<lambda>entries.
     andthen (print [Hashed_Entries entries]) (\<lambda>_.
     for_runs (generator_run env args n entries) 1 (unat (repeat args))))))))"

definition digest_run :: "('d, 't, 'k, 'st, 'w, 'h, 'p) bench_env \<Rightarrow> bench_args \<Rightarrow> nat \<Rightarrow> u64 \<Rightarrow> nat \<Rightarrow> (unit, 'd, 'h) action" where
  "digest_run env args n entries run = andthen (read_clock env) (\<lambda>now.
     measured env (run_build env n run (digest_emit (env_hasher env)) (\<lambda>_ d. d)
       (progress_new digest_default entries progress_interval now)) (\<lambda>(rt, sink) elapsed peak.
     andthen (print [Build_Report run rt (walked sink) (snapshot (sink_inner sink)) elapsed peak]) (\<lambda>_.
     check_root rt (expected_root args) (run_label run))))"

definition main_read :: "('d, 't, 'k, 'st, 'w, 'h, 'p) bench_env \<Rightarrow> bench_args \<Rightarrow> nat \<Rightarrow> (unit, 'd, 'h) action" where
  "main_read env args n = andthen (read_tx env) (\<lambda>t. andthen (print_tip env t) (\<lambda>_. andthen (print [Threads n]) (\<lambda>_.
     if digest_flag args then print_trie_tables_digest env t
     else if reth_serial_flag args then
       measured env (expect ''reth StateRoot'' (reth_serial_root (env_db env) (env_codec env) (env_walk env) t)) (\<lambda>rt elapsed peak.
       andthen (print [Serial_Report rt elapsed peak]) (\<lambda>_. check_root rt (expected_root args) ''reth serial''))
     else andthen (hashed_entries env t) (\<lambda>entries. andthen (print [Hashed_Entries entries]) (\<lambda>_.
       for_runs (digest_run env args n entries) 1 (unat (repeat args)))))))"

definition if_set :: "bool \<Rightarrow> (unit, 'd, 'h) action \<Rightarrow> (unit, 'd, 'h) action" where
  "if_set b m = (if b then m else return ())"

definition opened :: "('d, 't, 'k, 'st, 'w, 'h, 'p) bench_env \<Rightarrow> bool \<Rightarrow> string \<Rightarrow> string \<Rightarrow> (unit, 'd, 'h) action" where
  "opened env rw dir msg s = expect msg (env_open env rw dir (bench_db s)) s"

definition writes :: "bench_args \<Rightarrow> bool" where
  "writes args \<longleftrightarrow> clear_flag args \<or> reth_rebuild_flag args \<or> write_flag args"

definition main_with :: "('d, 't, 'k, 'st, 'w, 'h, 'p) bench_env \<Rightarrow> bench_args \<Rightarrow> (unit, 'd, 'h) action" where
  "main_with env args = andthen (runtime (env_runtime env) (threads args)) (\<lambda>n.
     if writes args then
       andthen (opened env True (datadir args) ''open datadir db read-write'') (\<lambda>_.
       andthen (if_set (clear_flag args) (andthen (clear_tables env) (\<lambda>_. print [Trie_Tables_Cleared]))) (\<lambda>_.
       andthen (if_set (reth_rebuild_flag args) (main_rebuild env args)) (\<lambda>_.
       if_set (write_flag args) (main_write env args n))))
     else andthen (opened env False (datadir args) ''open datadir db read-only'') (\<lambda>_. main_read env args n))"

definition main :: "('d, 't, 'k, 'st, 'w, 'h, 'p) bench_env \<Rightarrow> string list \<Rightarrow> (unit, 'd, 'h) action" where
  "main env argv = (case parse_args (env_parse_b256 env) argv of
     Err msg \<Rightarrow> andthen (print [Usage msg]) (\<lambda>_. exit_with 2)
   | Ok args \<Rightarrow> main_with env args)"

end
