(* ===== verification/Bench_Walk.thy ===== *)
theory Bench_Walk
  imports Bench_Main
begin

text \<open>
  Rules for the actions of \<^verbatim>\<open>datadir_bench\<close>, and the walk through the program: whatever its steps
  keep, \<open>main\<close> keeps. The program is walked once, in the locales \<open>build_walk\<close> (builds) and \<open>main_walk\<close>
  (their reports and checks); Bench_Runs has the instances.
\<close>

section \<open>Rules for actions\<close>

text \<open>From \<open>P\<close>, an action that returns \<open>x\<close> leaves \<open>Q x\<close>; one that stops leaves \<open>E\<close> of how it stopped.\<close>

definition stops_with :: "(unit flow \<Rightarrow> 's \<Rightarrow> bool) \<Rightarrow> ('a \<Rightarrow> 's \<Rightarrow> bool) \<Rightarrow> 'a flow \<times> 's \<Rightarrow> bool" where
  "stops_with E Q out = (case out of (r, s) \<Rightarrow> (case r of
     Continue x \<Rightarrow> Q x s | Exits c \<Rightarrow> E (Exits c) s | Panicked msg \<Rightarrow> E (Panicked msg) s | Diverges \<Rightarrow> E Diverges s))"

definition spec :: "(('d, 'h) bench \<Rightarrow> bool) \<Rightarrow> ('a, 'd, 'h) action \<Rightarrow> ('a \<Rightarrow> ('d, 'h) bench \<Rightarrow> bool) \<Rightarrow>
    (unit flow \<Rightarrow> ('d, 'h) bench \<Rightarrow> bool) \<Rightarrow> bool" where
  "spec P m Q E \<longleftrightarrow> (\<forall>s. P s \<longrightarrow> stops_with E Q (m s))"

lemma stops_with_simps [simp]:
  "stops_with E Q (Continue x, s) = Q x s" "stops_with E Q (Exits c, s) = E (Exits c) s"
  "stops_with E Q (Panicked msg, s) = E (Panicked msg) s" "stops_with E Q (Diverges, s) = E Diverges s"
  by (simp_all add: stops_with_def)

lemma specI: "(\<And>s. P s \<Longrightarrow> stops_with E Q (m s)) \<Longrightarrow> spec P m Q E"
  by (simp add: spec_def)

lemma specD: "spec P m Q E \<Longrightarrow> P s \<Longrightarrow> stops_with E Q (m s)"
  by (simp add: spec_def)

lemma spec_andthen:
  assumes "spec P m Q E" and "\<And>x. spec (Q x) (f x) R E" shows "spec P (andthen m f) R E"
proof (rule specI)
  fix s assume "P s"
  then have "stops_with E Q (m s)" by (rule specD [OF assms(1)])
  then show "stops_with E R (andthen m f s)"
    using specD [OF assms(2)] by (cases "m s"; cases "fst (m s)") (auto simp: andthen_def)
qed

lemma spec_return: "(\<And>s. P s \<Longrightarrow> Q x s) \<Longrightarrow> spec P (return x) Q E"
  by (rule specI) (simp add: return_def)

lemma spec_expect:
  "(\<And>s. P s \<Longrightarrow> E (Panicked msg) s) \<Longrightarrow> (\<And>x s. r = Ok x \<Longrightarrow> P s \<Longrightarrow> Q x s) \<Longrightarrow> spec P (expect msg r) Q E"
  by (rule specI) (auto simp: expect_def split: sum.split)

lemma spec_if: "(b \<Longrightarrow> spec P m Q E) \<Longrightarrow> (\<not> b \<Longrightarrow> spec P m' Q E) \<Longrightarrow> spec P (if b then m else m') Q E"
  by simp

lemma spec_pre: "(\<And>s. P s \<Longrightarrow> P' s) \<Longrightarrow> spec P' m Q E \<Longrightarrow> spec P m Q E"
  unfolding spec_def by blast

text \<open>What an action keeps, \<open>keeping I E m\<close>, it keeps in every position.\<close>

abbreviation "keeping I E m \<equiv> spec I m (\<lambda>_. I) E"

lemma keeping_andthen: "keeping I E m \<Longrightarrow> (\<And>x. spec I (f x) R E) \<Longrightarrow> spec I (andthen m f) R E"
  by (rule spec_andthen)

lemma keeping_return: "keeping I E (return x)"
  by (rule spec_return)

lemma keeping_if_set: "(b \<Longrightarrow> keeping I E m) \<Longrightarrow> keeping I E (if_set b m)"
  unfolding if_set_def by (intro spec_if keeping_return)

lemma keeping_for_runs: "(\<And>run. keeping I E (body run)) \<Longrightarrow> keeping I E (for_runs body run k)"
  by (induction k arbitrary: run) (auto intro!: keeping_return keeping_andthen)

section \<open>The walk through the program\<close>

fun root_of :: "report \<Rightarrow> b256 option" where
  "root_of (Rebuild_Report b elapsed peak) = Some (rb_root b)"
| "root_of (Write_Report run rt w wr elapsed peak) = Some rt"
| "root_of (Build_Report run rt w d elapsed peak) = Some rt"
| "root_of (Serial_Report rt elapsed peak) = Some rt"
| "root_of (Walked_Root rt elapsed) = Some rt"
| "root_of r = None"

text \<open>The elapsed time and the peak of the heap that a report gives.\<close>

fun measure_of :: "report \<Rightarrow> (nat \<times> u64) option" where
  "measure_of (Rebuild_Report b elapsed peak) = Some (elapsed, peak)"
| "measure_of (Write_Report run rt w wr elapsed peak) = Some (elapsed, peak)"
| "measure_of (Build_Report run rt w d elapsed peak) = Some (elapsed, peak)"
| "measure_of (Serial_Report rt elapsed peak) = Some (elapsed, peak)"
| "measure_of r = None"

definition quiet :: "report \<Rightarrow> bool" where
  "quiet r \<longleftrightarrow> root_of r = None \<and> \<not> is_error r"

definition printed :: "report list \<Rightarrow> ('d, 'h) bench \<Rightarrow> ('d, 'h) bench" where
  "printed rs s = s\<lparr>bench_out := bench_out s @ rs\<rparr>"

text \<open>
  \<open>I\<close> holds between the steps of a build, \<open>E\<close> when the program stops, \<open>db_ok\<close> is what is known of the
  database.
\<close>

locale build_walk =
  fixes env :: "('d, 't, 'k, 'st, 'w, 'h, 'p) bench_env" and args :: bench_args
    and I :: "('d, 'h) bench \<Rightarrow> bool" and E :: "unit flow \<Rightarrow> ('d, 'h) bench \<Rightarrow> bool" and db_ok :: "'d \<Rightarrow> bool"
  assumes panics: "I s \<Longrightarrow> E (Panicked msg) s"
    and ticks: "I s \<Longrightarrow> I (snd (tick env s))"
    and prints: "I s \<Longrightarrow> quiet r \<Longrightarrow> I (printed [r] s)"
    and db_is: "I s \<Longrightarrow> db_ok (bench_db s)"
    and db_becomes: "I s \<Longrightarrow> db_ok d \<Longrightarrow> I (s\<lparr>bench_db := d\<rparr>)"
    and clear_ok: "writes args \<Longrightarrow> db_ok d \<Longrightarrow> clear_trie_tables (env_db env) d = (d', r') \<Longrightarrow> db_ok d'"
    and rebuild_ok: "writes args \<Longrightarrow> db_ok d \<Longrightarrow>
      reth_rebuild clk (env_db env) (env_codec env) (env_walk env) None d = Some (d', lg, built) \<Longrightarrow> db_ok d'"
    and rebuild_ends: "I s \<Longrightarrow> reth_rebuild clk (env_db env) (env_codec env) (env_walk env) None d = None \<Longrightarrow> E Diverges s"
    and receive_ok: "writes args \<Longrightarrow> db_ok (writer_db w) \<Longrightarrow> db_ok (writer_db (writer_receive (env_db env) packed debug c e' w))"
    and flush_ok: "writes args \<Longrightarrow> db_ok (writer_db w) \<Longrightarrow> db_ok (writer_db (writer_flush (env_db env) packed w))"
begin

lemma prints_all: "I s \<Longrightarrow> \<forall>r \<in> set rs. quiet r \<Longrightarrow> I (printed rs s)"
proof (induction rs arbitrary: s)
  case Nil
  then show ?case by (simp add: printed_def)
next
  case (Cons r rs)
  then have "I (printed rs (printed [r] s))" by (intro Cons.IH prints) simp_all
  then show ?case by (simp add: printed_def)
qed

lemma print_keeps: "\<forall>r \<in> set rs. quiet r \<Longrightarrow> keeping I E (print rs)"
  by (rule specI) (use prints_all in \<open>simp add: print_def printed_def\<close>)

lemma expect_keeps: "keeping I E (expect msg r)"
  by (rule spec_expect) (rule panics)

lemma tick_keeps: "keeping I E (tick env)"
proof (rule specI)
  fix s assume "I s"
  then have "I (snd (tick env s))" by (rule ticks)
  then show "stops_with E (\<lambda>_. I) (tick env s)" by (simp add: tick_def)
qed

lemma read_clock_keeps: "keeping I E (read_clock env)"
  unfolding read_clock_def by (intro keeping_andthen tick_keeps keeping_return)

lemma elapsed_since_keeps: "keeping I E (elapsed_since env t)"
  unfolding elapsed_since_def by (intro keeping_andthen read_clock_keeps keeping_return)

lemma read_tx_keeps: "keeping I E (read_tx env)"
  by (rule specI) (auto simp: read_tx_def expect_def panics split: sum.split)

lemma opened_keeps: "keeping I E (opened env rw dir msg)"
  by (rule specI) (auto simp: opened_def expect_def panics split: sum.split)

lemma runtime_keeps: "keeping I E (runtime build n)"
  unfolding runtime_def by (rule expect_keeps)

lemma print_tip_keeps: "keeping I E (print_tip env t)"
  unfolding print_tip_def by (intro keeping_andthen expect_keeps print_keeps) (simp add: quiet_def)

lemma hashed_entries_keeps: "keeping I E (hashed_entries env t)"
  unfolding hashed_entries_def by (intro keeping_andthen expect_keeps keeping_return)

lemma print_digest_keeps: "keeping I E (print_trie_tables_digest env t)"
  unfolding print_trie_tables_digest_def
  by (intro keeping_andthen expect_keeps read_clock_keeps elapsed_since_keeps print_keeps) (simp add: quiet_def)

end

text \<open>Builds. What the calls keep of the inner sink, the build leaves.\<close>

lemma call_sink_inner:
  assumes "call_sink emit c s = (r, s')" and "\<And>e x. Q x \<Longrightarrow> Q (snd (emit e x))" and "Q (ps_inner s)"
  shows "Q (ps_inner s')"
proof (cases c)
  case (On_Node e)
  have "Q (snd (emit e (ps_inner s)))" using assms(2,3) by blast
  moreover have "s' = s\<lparr>ps_inner := snd (emit e (ps_inner s))\<rparr>"
    using assms(1) by (auto simp: On_Node call_sink_def progress_on_branch_node_def split: prod.splits)
  ultimately show ?thesis by simp
next
  case (On_Progress readings n)
  then have "s' = snd (on_progress readings n s)" using assms(1) by (simp add: call_sink_def)
  then show ?thesis using assms(3) by simp
qed

lemma feed_inner:
  "feed emit cs s = (r, s') \<Longrightarrow> (\<And>e x. Q x \<Longrightarrow> Q (snd (emit e x))) \<Longrightarrow> Q (ps_inner s) \<Longrightarrow> Q (ps_inner s')"
proof (induction emit cs s arbitrary: r s' rule: feed.induct)
  case (1 emit s)
  then show ?case by simp
next
  case (2 emit c cs s)
  obtain r1 s1 where c: "call_sink emit c s = (r1, s1)" by fastforce
  have "Q (ps_inner s1)" using call_sink_inner [OF c, of Q] 2(3,4) by blast
  then show ?case using 2 c by (cases r1) auto
qed

lemma root_with_sink_inner:
  assumes "root_with_sink env n run emit sink d = (r, sink')" and "\<And>e x. Q x \<Longrightarrow> Q (snd (emit e x))"
    and "Q (into_inner sink)"
  shows "Q (into_inner sink') \<and> (case r of Continue rt \<Rightarrow> True | Panicked msg \<Rightarrow> True | _ \<Rightarrow> False)"
proof -
  obtain calls rt where b: "env_build env n run (source_provider_ro (env_db env) (env_prune_modes env) d) = (calls, rt)"
    by fastforce
  obtain r1 s1 where f: "feed emit calls sink = (r1, s1)" by fastforce
  then have "sink' = s1" using assms(1) b by (simp add: root_with_sink_def)
  then show ?thesis
    using feed_inner [OF f, of Q] assms f b by (auto simp: into_inner_def root_with_sink_def split: outcome.splits sum.splits)
qed

context build_walk
begin

lemma run_build_keeps:
  assumes "Q (into_inner sink)" and "\<And>e x. Q x \<Longrightarrow> Q (snd (emit e x))"
    and "\<And>x d. Q x \<Longrightarrow> db_ok d \<Longrightarrow> db_ok (db_of x d)"
  shows "spec I (run_build env n run emit db_of sink) (\<lambda>(rt, sink) s. I s \<and> Q (into_inner sink)) E"
proof (rule specI)
  fix s assume s: "I s"
  obtain r sink' where r: "root_with_sink env n run emit sink (bench_db s) = (r, sink')" by fastforce
  note inner = root_with_sink_inner [OF r, of Q, OF assms(2,1)]
  let ?ls = "map (\<lambda>l. Progress_Line (snd l)) (ps_lines sink')"
  have "I (printed ?ls (s\<lparr>bench_db := db_of (into_inner sink') (bench_db s)\<rparr>))"
    by (intro prints_all db_becomes s assms(3) db_is) (use inner in \<open>auto simp: quiet_def\<close>)
  then show "stops_with E (\<lambda>(rt, sink) s. I s \<and> Q (into_inner sink)) (run_build env n run emit db_of sink s)"
    using inner panics by (cases r) (simp_all add: run_build_def r printed_def)
qed

lemma build_andthen:
  assumes "Q (into_inner sink)" and "\<And>e x. Q x \<Longrightarrow> Q (snd (emit e x))"
    and "\<And>x d. Q x \<Longrightarrow> db_ok d \<Longrightarrow> db_ok (db_of x d)"
    and "\<And>rt sink. Q (into_inner sink) \<Longrightarrow> spec I (f (rt, sink)) R E"
  shows "spec I (andthen (run_build env n run emit db_of sink) f) R E"
proof (rule spec_andthen [OF run_build_keeps [of Q, OF assms(1-3)]])
  show "spec (case x of (rt, sink) \<Rightarrow> \<lambda>s. I s \<and> Q (into_inner sink)) (f x) R E" for x
    using assms(4) by (cases x; cases "Q (into_inner (snd x))") (auto simp: spec_def)
qed

text \<open>What the modes that write do to the database.\<close>

lemma clear_tables_keeps:
  assumes "writes args" shows "keeping I E (clear_tables env)"
  unfolding clear_tables_def
proof (rule keeping_andthen [OF specI expect_keeps])
  fix s assume s: "I s"
  obtain d r where c: "clear_trie_tables (env_db env) (bench_db s) = (d, r)" by fastforce
  show "stops_with E (\<lambda>_. I) (on_db (clear_trie_tables (env_db env)) s)"
    using db_becomes [OF s clear_ok [OF assms db_is [OF s] c]] by (simp add: on_db_def c)
qed

lemma rebuild_db_keeps:
  assumes "writes args" shows "keeping I E (rebuild_db env)"
proof (rule specI)
  fix s assume s: "I s"
  show "stops_with E (\<lambda>_. I) (rebuild_db env s)"
  proof (cases "reth_rebuild (env_rebuild_clock env) (env_db env) (env_codec env) (env_walk env) None (bench_db s)")
    case None
    then show ?thesis using rebuild_ends [OF s None] by (simp add: rebuild_db_def)
  next
    case (Some x)
    obtain d lg r where x: "x = (d, lg, r)" by (cases x)
    have "I (s\<lparr>bench_db := d\<rparr>)" using db_becomes [OF s rebuild_ok [OF assms db_is [OF s] Some [unfolded x]]] .
    moreover have "keeping I E (andthen (print (map Rebuild_Line lg)) (\<lambda>_. expect ''reth rebuild'' r))"
      by (intro keeping_andthen print_keeps expect_keeps) (auto simp: quiet_def)
    ultimately show ?thesis using specD by (fastforce simp: rebuild_db_def Some x)
  qed
qed

lemma finish_writer_keeps:
  assumes "writes args" and "db_ok (writer_db w)" shows "keeping I E (finish_writer env packed w)"
proof (rule specI)
  fix s assume s: "I s"
  let ?w = "writer_flush (env_db env) packed w"
  have I: "I (s\<lparr>bench_db := writer_db ?w\<rparr>)" by (rule db_becomes [OF s flush_ok [OF assms]])
  obtain d r where "?w = Ended d r" using Ended_cases [OF flush_Ended [of "env_db env" packed w]] by blast
  then show "stops_with E (\<lambda>_. I) (finish_writer env packed w s)"
    using I panics [OF I] by (cases r) (auto simp: finish_writer_def Let_def expect_def split: sum.split)
qed

lemma new_writer_andthen:
  assumes "\<And>packed c w. db_ok (writer_db w) \<Longrightarrow> spec I (f (packed, c, w)) R E"
  shows "spec I (andthen (new_writer env chunk) f) R E"
proof (rule spec_andthen)
  show "spec I (new_writer env chunk) (\<lambda>(packed, c, w) s. db_ok (writer_db w) \<and> I s) E"
    by (rule specI) (auto simp: new_writer_def panics db_is writer_start_def split: sum.split)
  show "spec (case x of (packed, c, w) \<Rightarrow> \<lambda>s. db_ok (writer_db w) \<and> I s) (f x) R E" for x
    using assms by (cases x; cases "db_ok (writer_db (snd (snd x)))") (auto simp: spec_def)
qed

lemma build_written_keeps:
  assumes "writes args" shows "keeping I E (build_written env args n entries run)"
  unfolding build_written_def
proof (rule new_writer_andthen, simp only: prod.case, rule keeping_andthen [OF read_clock_keeps], goal_cases)
  case (1 packed c w now)
  show ?case
  proof (rule build_andthen [where Q = "\<lambda>w. db_ok (writer_db w)"])
    show "db_ok (writer_db (into_inner (progress_new w entries progress_interval now)))"
      using 1 by (simp add: into_inner_def progress_new_def)
  qed (auto simp: writer_emit_def receive_ok [OF assms] intro!: keeping_andthen finish_writer_keeps assms keeping_return)
qed

end

section \<open>Measured builds and their checks\<close>

text \<open>
  \<open>J\<close> holds between the measured parts, \<open>I i\<close> while the program measures since its reading \<open>i\<close>, \<open>M el pk\<close> when
  it has read the elapsed time \<open>el\<close> and the peak \<open>pk\<close>; \<open>good\<close> is what is known of a root that was checked.
\<close>

locale main_walk = build_walk env args J E db_ok
  for env :: "('d, 't, 'k, 'st, 'w, 'h, 'p) bench_env" and args and J and E and db_ok +
  fixes I :: "nat \<Rightarrow> ('d, 'h) bench \<Rightarrow> bool" and M :: "nat \<Rightarrow> u64 \<Rightarrow> ('d, 'h) bench \<Rightarrow> bool" and good :: "b256 \<Rightarrow> bool"
  assumes builds: "build_walk env args (I i) E db_ok"
    and resets: "J s \<Longrightarrow> I (bench_tick s) (s\<lparr>bench_heap := (reset_peak (fst (bench_heap s)), snd (bench_heap s))\<rparr>)"
    and measures: "I i s \<Longrightarrow> s2 = snd (tick env (snd (tick env s))) \<Longrightarrow>
      M (env_clock env (bench_tick s) - env_clock env i) (peak_bytes (fst (bench_heap s2))) s2"
    and reports: "M el pk s \<Longrightarrow> measure_of r = Some (el, pk) \<Longrightarrow> root_of r = Some rt \<Longrightarrow> good rt \<Longrightarrow> J (printed [r] s)"
    and walks: "J s \<Longrightarrow> good rt \<Longrightarrow> J (printed [Walked_Root rt el] s)"
    and not_checked: "expected_root args = None \<Longrightarrow> good rt"
    and is_checked: "expected_root args = Some e \<Longrightarrow> good e"
    and mismatch: "M el pk s \<Longrightarrow> measure_of r = Some (el, pk) \<Longrightarrow> root_of r = Some rt \<Longrightarrow> rt \<noteq> e \<Longrightarrow>
      E (Exits 1) (printed [r, Root_Mismatch label e] s)"
    and walk_mismatch: "J s \<Longrightarrow> walked' \<noteq> rt \<Longrightarrow> E (Exits 1) (printed [Walk_Mismatch walked' rt] s)"
begin

lemma measured_keeps:
  assumes "\<And>i. keeping (I i) E m" and "\<And>x el pk. spec (M el pk) (f x el pk) R E"
  shows "spec J (measured env m f) R E"
  unfolding measured_def
proof (rule spec_andthen [where Q = "\<lambda>_ s. I (bench_tick s) s"], goal_cases)
  case 1
  show "spec J (reset_heap env) (\<lambda>_ s. I (bench_tick s) s) E"
    unfolding reset_heap_def by (rule keeping_andthen [OF tick_keeps specI]) (auto dest: resets)
next
  case (2 x)
  have start: "spec (\<lambda>s. I (bench_tick s) s) (read_clock env) (\<lambda>started s. \<exists>i. started = env_clock env i \<and> I i s) E"
  proof (rule specI)
    fix s assume s: "I (bench_tick s) s"
    then have "I (bench_tick s) (snd (tick env s))" by (rule build_walk.ticks [OF builds])
    then show "stops_with E (\<lambda>started s. \<exists>i. started = env_clock env i \<and> I i s) (read_clock env s)"
      by (auto simp: read_clock_def andthen_def tick_def return_def)
  qed
  have stop: "spec (I i) (andthen (elapsed_since env (env_clock env i)) (\<lambda>el. andthen (heap_peak env) (f x el))) R E" for i x
  proof (rule specI)
    fix s assume s: "I i s"
    let ?s1 = "snd (tick env s)" let ?s2 = "snd (tick env ?s1)"
    have "stops_with E R (f x (env_clock env (bench_tick s) - env_clock env i) (peak_bytes (fst (bench_heap ?s2))) ?s2)"
      by (rule specD [OF assms(2) measures [OF s refl]])
    then show "stops_with E R (andthen (elapsed_since env (env_clock env i)) (\<lambda>el. andthen (heap_peak env) (f x el)) s)"
      by (simp add: andthen_def elapsed_since_def read_clock_def heap_peak_def tick_def return_def)
  qed
  show ?case
  proof (rule spec_andthen [OF start])
    fix started
    show "spec (\<lambda>s. \<exists>i. started = env_clock env i \<and> I i s) (andthen m (\<lambda>x. andthen (elapsed_since env started)
        (\<lambda>elapsed. andthen (heap_peak env) (\<lambda>peak. f x elapsed peak)))) R E"
    proof (rule specI, elim exE conjE)
      fix s i assume "started = env_clock env i" "I i s"
      then show "stops_with E R (andthen m (\<lambda>x. andthen (elapsed_since env started)
          (\<lambda>elapsed. andthen (heap_peak env) (\<lambda>peak. f x elapsed peak))) s)"
        by (simp only:) (rule specD [OF spec_andthen [OF assms(1) stop]])
    qed
  qed
qed

text \<open>A root is reported and checked; then the tables are.\<close>

lemma report_checked:
  assumes "root_of r = Some rt" and "measure_of r = Some (el, pk)" and "good rt \<Longrightarrow> spec J k Q E"
  shows "spec (M el pk) (andthen (print [r]) (\<lambda>_. andthen (check_root rt (expected_root args) label) (\<lambda>_. k))) Q E"
proof (rule specI)
  fix s assume s: "M el pk s"
  show "stops_with E Q (andthen (print [r]) (\<lambda>_. andthen (check_root rt (expected_root args) label) (\<lambda>_. k)) s)"
  proof (cases "expected_root args")
    case None
    then have "J (printed [r] s)" using reports [OF s assms(2,1) not_checked] by blast
    then show ?thesis
      using specD [OF assms(3) [OF not_checked [OF None]]] None
      by (simp add: andthen_def print_def check_root_def return_def printed_def)
  next
    case (Some e)
    show ?thesis
    proof (cases "rt = e")
      case True
      then have g: "good rt" using is_checked [OF Some] by simp
      then have "J (printed [r] s)" using reports [OF s assms(2,1)] by blast
      then have "J (printed [Root_Matches label] (printed [r] s))" by (rule prints) (simp add: quiet_def)
      then show ?thesis
        using specD [OF assms(3) [OF g]] Some True by (simp add: andthen_def print_def check_root_def printed_def)
    next
      case False
      then show ?thesis
        using mismatch [OF s assms(2,1) False, of label] Some
        by (simp add: andthen_def print_def check_root_def exit_with_def printed_def)
    qed
  qed
qed

lemma andthen_return: "andthen m (\<lambda>_. return ()) = m"
proof
  fix s show "andthen m (\<lambda>_. return ()) s = m s" by (simp add: andthen_def return_def split: prod.split flow.split)
qed

lemma report_checked_last:
  assumes "root_of r = Some rt" and "measure_of r = Some (el, pk)"
  shows "spec (M el pk) (andthen (print [r]) (\<lambda>_. check_root rt (expected_root args) label)) (\<lambda>_. J) E"
proof -
  have "spec (M el pk) (andthen (print [r]) (\<lambda>_. andthen (check_root rt (expected_root args) label) (\<lambda>_. return ()))) (\<lambda>_. J) E"
    by (rule report_checked [OF assms keeping_return])
  then show ?thesis by (simp only: andthen_return)
qed

lemma check_written_keeps: "good rt \<Longrightarrow> keeping J E (check_written_tables env t rt)"
  unfolding check_written_tables_def
proof (rule keeping_andthen [OF print_digest_keeps], rule keeping_andthen [OF read_clock_keeps],
    rule keeping_andthen [OF expect_keeps], rule spec_if, goal_cases)
  case (1 _ started walked')
  have "keeping J E (print [Walked_Root walked' elapsed])" for elapsed
    by (rule specI) (use walks [of _ rt elapsed] 1 in \<open>auto simp: print_def printed_def\<close>)
  then show ?case by (intro keeping_andthen elapsed_since_keeps)
next
  case (2 _ started walked')
  then show ?case
    by (intro specI) (use walk_mismatch [of _ walked' rt] in \<open>auto simp: andthen_def print_def exit_with_def printed_def\<close>)
qed

text \<open>The modes.\<close>

lemma digest_run_keeps: "keeping J E (digest_run env args n entries run)"
  unfolding digest_run_def
proof (rule keeping_andthen [OF read_clock_keeps], rule measured_keeps, goal_cases)
  case (1 now i)
  have "spec (I i) (run_build env n run (digest_emit (env_hasher env)) (\<lambda>_ d. d) sink) (\<lambda>(rt, sink) s. I i s \<and> True) E" for sink
    by (rule build_walk.run_build_keeps [OF builds]) simp_all
  then show ?case by (simp add: split_def)
next
  case (2 now x el pk)
  then show ?case by (cases x) (auto intro!: report_checked_last)
qed

lemma main_rebuild_keeps:
  assumes "writes args" shows "keeping J E (main_rebuild env args)"
  unfolding main_rebuild_def
  by (intro keeping_andthen read_tx_keeps print_tip_keeps measured_keeps build_walk.rebuild_db_keeps [OF builds] assms
      report_checked check_written_keeps) simp_all

lemma generator_run_keeps:
  assumes "writes args" shows "keeping J E (generator_run env args n entries run)"
  unfolding generator_run_def split_def
  by (intro keeping_andthen clear_tables_keeps read_tx_keeps measured_keeps build_walk.build_written_keeps [OF builds] assms
      report_checked check_written_keeps) simp_all

theorem main_with_keeps: "keeping J E (main_with env args)"
proof -
  have "keeping J E (main_write env args n)" if "writes args" for n
    unfolding main_write_def
    by (intro keeping_andthen read_tx_keeps print_tip_keeps print_keeps hashed_entries_keeps keeping_for_runs
        generator_run_keeps that) (simp_all add: quiet_def)
  moreover have "keeping J E (main_read env args n)" for n
    unfolding main_read_def
    by (intro keeping_andthen read_tx_keeps print_tip_keeps print_keeps hashed_entries_keeps keeping_for_runs spec_if
        print_digest_keeps digest_run_keeps measured_keeps build_walk.expect_keeps [OF builds] report_checked_last)
      (simp_all add: quiet_def)
  ultimately show ?thesis
    unfolding main_with_def
    by (intro keeping_andthen runtime_keeps opened_keeps spec_if keeping_if_set clear_tables_keeps print_keeps
        main_rebuild_keeps) (auto simp: quiet_def)
qed

lemma main_with_leaves:
  assumes "J s" and "\<And>s'. J s' \<Longrightarrow> Q s'" and "\<And>r s'. E r s' \<Longrightarrow> Q s'"
  shows "Q (snd (main_with env args s))"
  using specD [OF main_with_keeps assms(1)] assms(2,3)
  by (cases "main_with env args s"; cases "fst (main_with env args s)") auto

end

end
