(* ===== verification/Bench_Runs.thy ===== *)
theory Bench_Runs
  imports Bench_Walk
begin

text \<open>
  What \<^verbatim>\<open>datadir_bench\<close> does to the database, what it prints, what its exit code means and that it ends:
  instances of the walk of Bench_Walk, then the environment on which the properties are
  witnessed.
\<close>

section \<open>What is kept of the database and of the output\<close>

lemma db_walk:
  assumes "\<And>d d' r'. writes args \<Longrightarrow> P d \<Longrightarrow> clear_trie_tables (env_db env) d = (d', r') \<Longrightarrow> P d'"
    and "\<And>clk d d' lg built. writes args \<Longrightarrow> P d \<Longrightarrow>
      reth_rebuild clk (env_db env) (env_codec env) (env_walk env) None d = Some (d', lg, built) \<Longrightarrow> P d'"
    and "\<And>w packed debug c e. writes args \<Longrightarrow> P (writer_db w) \<Longrightarrow> P (writer_db (writer_receive (env_db env) packed debug c e w))"
    and "\<And>w packed. writes args \<Longrightarrow> P (writer_db w) \<Longrightarrow> P (writer_db (writer_flush (env_db env) packed w))"
  shows "main_walk env args (\<lambda>s. P (bench_db s)) (\<lambda>_ s. P (bench_db s)) P (\<lambda>_ s. P (bench_db s)) (\<lambda>_ _ s. P (bench_db s)) (\<lambda>_. True)"
  by (unfold_locales; (simp add: tick_def printed_def del: One_nat_def)?; blast intro: assms)

lemma output_walk:
  assumes "\<And>msg out. J out \<Longrightarrow> F (Panicked msg) out"
    and "\<And>out r. J out \<Longrightarrow> quiet r \<Longrightarrow> J (out @ [r])"
    and "\<And>clk d out. J out \<Longrightarrow> reth_rebuild clk (env_db env) (env_codec env) (env_walk env) None d = None \<Longrightarrow> F Diverges out"
    and "\<And>out r rt. J out \<Longrightarrow> root_of r = Some rt \<Longrightarrow> good rt \<Longrightarrow> J (out @ [r])"
    and "\<And>rt. expected_root args = None \<Longrightarrow> good rt"
    and "\<And>e. expected_root args = Some e \<Longrightarrow> good e"
    and "\<And>out r label e. J out \<Longrightarrow> F (Exits 1) (out @ [r, Root_Mismatch label e])"
    and "\<And>out a b. J out \<Longrightarrow> F (Exits 1) (out @ [Walk_Mismatch a b])"
  shows "main_walk env args (\<lambda>s. J (bench_out s)) (\<lambda>r s. F r (bench_out s)) (\<lambda>_. True) (\<lambda>_ s. J (bench_out s)) (\<lambda>_ _ s. J (bench_out s)) good"
  by (unfold_locales; (simp add: tick_def printed_def del: One_nat_def)?; blast intro: assms assms(4) [OF _ root_of.simps(5)])

lemma others_walk:
  assumes "full_store (env_db env) rows position committed others committed_others"
  shows "main_walk env args (\<lambda>s. committed_others (bench_db s) = h) (\<lambda>_ s. committed_others (bench_db s) = h)
    (\<lambda>d. committed_others d = h) (\<lambda>_ s. committed_others (bench_db s) = h) (\<lambda>_ _ s. committed_others (bench_db s) = h) (\<lambda>_. True)"
  by (rule db_walk) (use full_store.clear_trie_tables_others [OF assms] full_store.reth_rebuild_others [OF assms]
    full_store.writer_receive_others [OF assms] full_store.writer_flush_others [OF assms] in auto)

section \<open>The roots and the exit codes\<close>

definition rooted :: "b256 \<Rightarrow> report \<Rightarrow> bool" where
  "rooted e r \<longleftrightarrow> \<not> is_error r \<and> (case root_of r of None \<Rightarrow> True | Some rt \<Rightarrow> rt = e)"

definition is_mismatch :: "report \<Rightarrow> bool" where
  "is_mismatch r \<longleftrightarrow> (\<exists>a b. r = Walk_Mismatch a b) \<or> (\<exists>l a. r = Root_Mismatch l a)"

lemma is_mismatch_simps [simp]: "is_mismatch (Walk_Mismatch a b)" "is_mismatch (Root_Mismatch l a)"
  by (simp_all add: is_mismatch_def)

lemma rooted_walk:
  assumes "expected_root args = Some e"
  shows "main_walk env args (\<lambda>s. \<forall>r \<in> set (bench_out s). rooted e r) (\<lambda>_ _. True) (\<lambda>_. True)
    (\<lambda>_ s. \<forall>r \<in> set (bench_out s). rooted e r) (\<lambda>_ _ s. \<forall>r \<in> set (bench_out s). rooted e r) (\<lambda>rt. rt = e)"
  by (rule output_walk) (use assms in \<open>auto simp: rooted_def quiet_def elim: root_of.elims\<close>)

definition mismatch_exit :: "unit flow \<Rightarrow> report list \<Rightarrow> bool" where
  "mismatch_exit r out \<longleftrightarrow> (\<forall>c. r = Exits c \<longrightarrow> c = 1 \<and> out \<noteq> [] \<and> is_mismatch (last out))"

interpretation exits: main_walk env args "\<lambda>_. True" "\<lambda>r s. mismatch_exit r (bench_out s)" "\<lambda>_. True" "\<lambda>_ _. True"
  "\<lambda>_ _ _. True" "\<lambda>_. True"
  by (rule output_walk) (simp_all add: mismatch_exit_def)

interpretation exits_build: build_walk env args "\<lambda>_. True" "\<lambda>r s. mismatch_exit r (bench_out s)" "\<lambda>_. True"
  by (rule exits.builds)

lemma ends_walk:
  assumes "chunked_walk (env_db env) rows position committed others committed_others (env_walk env) chunks resume final"
  shows "main_walk env args (\<lambda>_. True) (\<lambda>r _. r \<noteq> Diverges) (\<lambda>_. True) (\<lambda>_ _. True) (\<lambda>_ _ _. True) (\<lambda>_. True)"
proof (rule output_walk, goal_cases)
  case (3 clk d out)
  then show ?case
    using chunked_walk.reth_rebuild_runs [OF assms, of clk "env_codec env" None d] by simp
qed simp_all

section \<open>An environment\<close>

text \<open>A build of three nodes over the database in memory, with two threads and the root 9.\<close>

definition sample_calls :: "progress_call list" where
  "sample_calls = [On_Node (None, [2], sample_branch 2), On_Progress (1, 1, 1) 4, On_Node (Some 7, [], sample_branch 4),
     On_Node (Some 7, [1], sample_branch 3)]"

definition sample_env :: "(ref_tables, ref_tables, ref_key, bool, nat, bump_heap, unit) bench_env" where
  "sample_env = \<lparr>env_db = ref_db, env_codec = flag_codec, env_walk = scripted_walk 9 [], env_hasher = sample_hasher,
     env_schedule = concat, env_parse_b256 = (\<lambda>s. if s = ''0x9'' then Some 9 else if s = ''0x8'' then Some 8 else None),
     env_runtime = (\<lambda>c. Ok 2), env_open = (\<lambda>rw dir d. Ok ()), env_tip = (\<lambda>t. Ok None),
     env_accounts = (\<lambda>t. Ok 2), env_storages = (\<lambda>t. Ok 2), env_prune_modes = (),
     env_build = (\<lambda>n run p. (sample_calls, Ok 9)), env_clock = (\<lambda>i. 0), env_rebuild_clock = (\<lambda>i. 0), env_system = bump_system,
     env_requests = (\<lambda>i. [Alloc \<lparr>layout_size = 16, layout_align = 8\<rparr>]), env_debug = True\<rparr>"

lemma sample_env_simps [simp]:
  "env_db sample_env = ref_db" "env_codec sample_env = flag_codec" "env_walk sample_env = scripted_walk 9 []"
  "env_hasher sample_env = sample_hasher" "env_schedule sample_env = concat"
  "env_runtime sample_env c = Ok 2" "env_open sample_env rw dir d = Ok ()" "env_tip sample_env t = Ok None"
  "env_accounts sample_env t = Ok 2" "env_storages sample_env t = Ok 2" "env_build sample_env n run p = (sample_calls, Ok 9)"
  "env_clock sample_env i = 0" "env_rebuild_clock sample_env i = 0" "env_system sample_env = bump_system"
  "env_requests sample_env i = [Alloc \<lparr>layout_size = 16, layout_align = 8\<rparr>]" "env_debug sample_env = True"
  by (simp_all add: sample_env_def)

definition sample_bench :: "(ref_tables, bump_heap) bench" where
  "sample_bench = \<lparr>bench_db = ref_empty True, bench_out = [], bench_heap = (static_heap, bump_empty), bench_tick = 0\<rparr>"

lemma sample_read_args:
  "parse_args (env_parse_b256 sample_env) [''--datadir'', ''d'', ''--reth-serial'', ''--expected-root'', ''0x9''] =
   Ok (args_default\<lparr>datadir := ''d'', reth_serial_flag := True, expected_root := Some 9\<rparr>)"
  by (simp add: parse_args_def parse_flag_def flag_value_def parsed_def sample_env_def args_default_def)

lemmas sample_heap_simps = bump_system_def bump_alloc_def bump_empty_def pa_alloc_def pa_add_def reset_peak_def
  current_bytes_def static_heap_def peak_alloc_new_def peak_bytes_def

lemma sample_serial_run:
  assumes "a = args_default\<lparr>datadir := ''d'', reth_serial_flag := True, expected_root := Some e\<rparr>"
  shows "\<exists>s'. main_with sample_env a sample_bench = (if e = 9 then Continue () else Exits 1, s') \<and>
    bench_db s' = ref_empty True \<and> bench_out s' = [Tip_Block None, Threads 2, Serial_Report 9 0 64,
      if e = 9 then Root_Matches ''reth serial'' else Root_Mismatch ''reth serial'' e]"
proof -
  have tx: "db_tx ref_db d = Ok d" for d by (simp add: ref_db_def)
  have serial: "reth_serial_root ref_db flag_codec (scripted_walk 9 []) t = Ok 9" for t :: ref_tables
    using ref_store.uses_packed_succeeds [of flag_codec t] by (simp add: reth_serial_root_def scripted_walk_def)
  show ?thesis
    by (simp add: assms main_with_def writes_def args_default_def main_read_def andthen_def runtime_def expect_def opened_def
        read_tx_def tx print_tip_def print_def serial check_root_def sample_bench_def exit_with_def
        reset_heap_def read_clock_def elapsed_since_def heap_peak_def tick_def return_def measured_def sample_heap_simps)
qed

section \<open>Properties\<close>

text \<open>
  C28: Without \<^verbatim>\<open>--write\<close>, \<^verbatim>\<open>--clear-trie-tables\<close> and \<^verbatim>\<open>--reth-rebuild\<close> nothing is written: however the run
  ends, the database is the one that was opened.
\<close>

theorem read_only_runs_keep_db:
  assumes "parse_args (env_parse_b256 env) argv = Ok args" and "\<not> writes args"
  shows "bench_db (snd (main env argv s)) = bench_db s"
proof -
  have "main_walk env args (\<lambda>s'. bench_db s' = bench_db s) (\<lambda>_ s'. bench_db s' = bench_db s) (\<lambda>d. d = bench_db s)
      (\<lambda>_ s'. bench_db s' = bench_db s) (\<lambda>_ _ s'. bench_db s' = bench_db s) (\<lambda>_. True)"
    by (rule db_walk) (simp_all add: assms(2))
  from main_walk.main_with_leaves [OF this, where s = s and Q = "\<lambda>s'. bench_db s' = bench_db s"] show ?thesis
    using assms(1) by (simp add: main_def)
qed

theorem read_only_runs_keep_db_witness:
  "bench_db (snd (main sample_env [''--datadir'', ''d'', ''--reth-serial'', ''--expected-root'', ''0x9''] sample_bench)) =
   ref_empty True"
  using read_only_runs_keep_db [OF sample_read_args, of sample_bench]
  by (simp add: writes_def args_default_def sample_bench_def)

text \<open>
  C29: The flags that write touch the trie tables only: whatever the command line, and however the run
  ends, the hashed state and the storage settings are what they were.
\<close>

theorem writing_runs_keep_state:
  assumes "full_store (env_db env) rows position committed others committed_others"
  shows "committed_others (bench_db (snd (main env argv s))) = committed_others (bench_db s)"
proof (cases "parse_args (env_parse_b256 env) argv")
  case (Inl msg)
  then show ?thesis by (simp add: main_def andthen_def print_def exit_with_def)
next
  case (Inr args)
  then show ?thesis
    using main_walk.main_with_leaves [OF others_walk [OF assms, of args "committed_others (bench_db s)"], where s = s and
      Q = "\<lambda>s'. committed_others (bench_db s') = committed_others (bench_db s)"] by (simp add: main_def)
qed

theorem writing_runs_keep_state_witness:
  "ref_others (bench_db (snd (main sample_env [''--datadir'', ''d'', ''--write'', ''--reth-rebuild''] sample_bench))) =
   ref_others (ref_empty True)"
  using writing_runs_keep_state [of sample_env, simplified, OF ref_store.full_store_axioms, of _ sample_bench]
  by (simp add: sample_bench_def)

text \<open>
  C24: A run with an expected root that ends normally has seen no other root: every root it printed,
  of the generator, of reth's rebuild, of reth's walk over the tables that were written, is the
  expected one.
\<close>

theorem completed_run_matches_root:
  assumes "parse_args (env_parse_b256 env) argv = Ok args" and "expected_root args = Some e"
    and "main env argv s = (Continue (), s')" and "bench_out s = []"
  shows "\<forall>r \<in> set (bench_out s'). rooted e r"
proof -
  have "main_with env args s = (Continue (), s')" using assms(1,3) by (simp add: main_def)
  then show ?thesis
    using specD [OF main_walk.main_with_keeps [OF rooted_walk [OF assms(2), of env]], of s] assms(4) by simp
qed

theorem completed_run_matches_root_witness:
  "\<exists>s'. main sample_env [''--datadir'', ''d'', ''--reth-serial'', ''--expected-root'', ''0x9''] sample_bench = (Continue (), s') \<and>
     Serial_Report 9 0 64 \<in> set (bench_out s') \<and> (\<forall>r \<in> set (bench_out s'). rooted 9 r)"
proof -
  let ?argv = "[''--datadir'', ''d'', ''--reth-serial'', ''--expected-root'', ''0x9'']"
  obtain s' where "main_with sample_env (args_default\<lparr>datadir := ''d'', reth_serial_flag := True, expected_root := Some 9\<rparr>)
      sample_bench = (Continue (), s')" and out: "Serial_Report 9 0 64 \<in> set (bench_out s')"
    using sample_serial_run [OF refl, of 9] by auto
  then have run: "main sample_env ?argv sample_bench = (Continue (), s')" by (simp add: main_def sample_read_args)
  show ?thesis
    using completed_run_matches_root [OF sample_read_args _ run] run out by (simp add: args_default_def sample_bench_def)
qed



text \<open>
  C26: The program ends. On a database with reth's contract whose walk hands out its chunks one after the
  other, every run returns, exits or panics, whatever fails on the way: no run loops.
\<close>

theorem main_ends:
  assumes "chunked_walk (env_db env) rows position committed others committed_others (env_walk env) chunks resume final"
  shows "fst (main env argv s) \<noteq> Diverges"
proof (cases "parse_args (env_parse_b256 env) argv")
  case (Inl msg)
  then show ?thesis by (simp add: main_def andthen_def print_def exit_with_def)
next
  case (Inr args)
  obtain r s' where "main_with env args s = (r, s')" by fastforce
  then show ?thesis
    using specD [OF main_walk.main_with_keeps [OF ends_walk [OF assms, of args]], of s] Inr by (cases r) (auto simp: main_def)
qed

theorem main_ends_witness:
  "fst (main sample_env [''--datadir'', ''d'', ''--reth-rebuild'', ''--write'', ''--repeat'', ''3''] sample_bench) \<noteq> Diverges"
  using main_ends [of sample_env, simplified, OF script.chunked_walk_axioms] .

end
