(* ===== verification/Bench_Heap.thy ===== *)
theory Bench_Heap
  imports Bench_Runs
begin

text \<open>
  The times and peaks that \<^verbatim>\<open>datadir_bench\<close> reports are those of one window of the run: \<open>measuring\<close>
  ties the counters of the global allocator to the blocks that are live since the last \<^verbatim>\<open>reset_peak\<close>.
\<close>

text \<open>The system's heap at a reading, and the most bytes that were live from one reading to another.\<close>

definition heap_at :: "('d, 't, 'k, 'st, 'w, 'h, 'p) bench_env \<Rightarrow> 'h \<Rightarrow> nat \<Rightarrow> 'h" where
  "heap_at env h j = snd (run_systems (env_system env) (concat (map (env_requests env) [0..<j])) h)"

definition most_live :: "('d, 't, 'k, 'st, 'w, 'h, 'p) bench_env \<Rightarrow> ('h \<Rightarrow> ptr \<Rightarrow> u64 option) \<Rightarrow> 'h \<Rightarrow> nat \<Rightarrow> nat \<Rightarrow> nat" where
  "most_live env live h i j = high_water (env_system env) live (concat (map (env_requests env) [i..<j]))
     (heap_at env h i) (live_bytes live (heap_at env h i))"

lemma heap_at_simps [simp]:
  "heap_at env h 0 = h"
  "heap_at env h (Suc j) = snd (run_systems (env_system env) (env_requests env j) (heap_at env h j))"
  by (simp_all add: heap_at_def run_systems_append)

lemma heap_from:
  "i \<le> j \<Longrightarrow> snd (run_systems (env_system env) (concat (map (env_requests env) [i..<j])) (heap_at env h i)) = heap_at env h j"
  by (induction j) (auto simp: run_systems_append le_Suc_eq)

lemma most_live_simps [simp]:
  "most_live env live h i i = live_bytes live (heap_at env h i)"
  "i \<le> j \<Longrightarrow> most_live env live h i (Suc j) =
     high_water (env_system env) live (env_requests env j) (heap_at env h j) (most_live env live h i j)"
  by (simp_all add: most_live_def high_water_append heap_from)

text \<open>
  Times and peaks with the windows in which they were measured. A window \<open>(i, j)\<close> begins with the reset
  of the peak at the reading \<open>i\<close>, which the clock is read right after; the clock is read again at
  \<open>j - 2\<close> and the heap at \<open>j - 1\<close>, the last thing of the window.
\<close>

definition measured_in :: "('d, 't, 'k, 'st, 'w, 'h, 'p) bench_env \<Rightarrow> ('h \<Rightarrow> ptr \<Rightarrow> u64 option) \<Rightarrow> 'h \<Rightarrow> nat \<times> u64 \<Rightarrow> nat \<times> nat \<Rightarrow> bool" where
  "measured_in env live h m w \<longleftrightarrow> (case (m, w) of ((elapsed, peak), (i, j)) \<Rightarrow> i + 2 \<le> j \<and>
     elapsed = env_clock env (j - 2) - env_clock env i \<and> unat peak = most_live env live h i j)"

definition measures_of :: "report list \<Rightarrow> (nat \<times> u64) list" where
  "measures_of rs = List.map_filter measure_of rs"

definition disjoint_windows :: "(nat \<times> nat) list \<Rightarrow> bool" where
  "disjoint_windows ws \<longleftrightarrow> sorted_wrt (\<lambda>w w'. snd w \<le> fst w') ws"

text \<open>The reports so far were measured in windows that have ended before \<open>n\<close>.\<close>

definition measured_before :: "('d, 't, 'k, 'st, 'w, 'h, 'p) bench_env \<Rightarrow> ('h \<Rightarrow> ptr \<Rightarrow> u64 option) \<Rightarrow> 'h \<Rightarrow> nat \<Rightarrow> report list \<Rightarrow> bool" where
  "measured_before env live h n rs \<longleftrightarrow>
     (\<exists>ws. list_all2 (measured_in env live h) (measures_of rs) ws \<and> disjoint_windows ws \<and> (\<forall>w \<in> set ws. snd w \<le> n))"

lemma measured_before_unmeasured:
  "measured_before env live h n rs \<Longrightarrow> \<forall>r \<in> set rs'. measure_of r = None \<Longrightarrow> measured_before env live h n (rs @ rs')"
  by (induction rs' rule: rev_induct) (auto simp: measured_before_def measures_of_def List.map_filter_def)

lemma measured_before_later: "measured_before env live h n rs \<Longrightarrow> n \<le> n' \<Longrightarrow> measured_before env live h n' rs"
  unfolding measured_before_def by (meson le_trans)

lemma measured_before_report:
  assumes "measured_before env live h i rs" and "measure_of r = Some m" and "measured_in env live h m (i, j)"
  shows "measured_before env live h j (rs @ [r])"
proof -
  obtain ws where ws: "list_all2 (measured_in env live h) (measures_of rs) ws" "disjoint_windows ws" "\<forall>w \<in> set ws. snd w \<le> i"
    using assms(1) unfolding measured_before_def by blast
  have "list_all2 (measured_in env live h) (measures_of (rs @ [r])) (ws @ [(i, j)])"
    using ws(1) assms(2,3) by (simp add: measures_of_def List.map_filter_def list_all2_appendI)
  moreover have "disjoint_windows (ws @ [(i, j)])" using ws(2,3) by (simp add: disjoint_windows_def sorted_wrt_append)
  moreover have "i \<le> j" using assms(3) by (simp add: measured_in_def split: prod.splits)
  then have "\<forall>w \<in> set (ws @ [(i, j)]). snd w \<le> j" using ws(3) by auto
  ultimately show ?thesis unfolding measured_before_def by blast
qed

text \<open>The counters count since the reading \<open>i\<close>; the windows of the reports have ended before \<open>n\<close>.\<close>

definition counting :: "('d, 't, 'k, 'st, 'w, 'h, 'p) bench_env \<Rightarrow> ('h \<Rightarrow> ptr \<Rightarrow> u64 option) \<Rightarrow> ('h \<Rightarrow> bool) \<Rightarrow> 'h \<Rightarrow>
    nat \<Rightarrow> ('d, 'h) bench \<Rightarrow> bool" where
  "counting env live sane h i s \<longleftrightarrow> i \<le> bench_tick s \<and> snd (bench_heap s) = heap_at env h (bench_tick s) \<and>
     sane (snd (bench_heap s)) \<and> live_bytes live (snd (bench_heap s)) \<le> most_live env live h i (bench_tick s) \<and>
     counts_heap live (most_live env live h i (bench_tick s)) (fst (bench_heap s)) (snd (bench_heap s))"

definition measuring :: "('d, 't, 'k, 'st, 'w, 'h, 'p) bench_env \<Rightarrow> ('h \<Rightarrow> ptr \<Rightarrow> u64 option) \<Rightarrow> ('h \<Rightarrow> bool) \<Rightarrow> 'h \<Rightarrow>
    nat \<Rightarrow> ('d, 'h) bench \<Rightarrow> bool" where
  "measuring env live sane h i s \<longleftrightarrow> counting env live sane h i s \<and> measured_before env live h i (bench_out s)"

definition idle :: "('d, 't, 'k, 'st, 'w, 'h, 'p) bench_env \<Rightarrow> ('h \<Rightarrow> ptr \<Rightarrow> u64 option) \<Rightarrow> ('h \<Rightarrow> bool) \<Rightarrow> 'h \<Rightarrow>
    ('d, 'h) bench \<Rightarrow> bool" where
  "idle env live sane h s \<longleftrightarrow> (\<exists>i. counting env live sane h i s) \<and> measured_before env live h (bench_tick s) (bench_out s)"

definition just_measured :: "('d, 't, 'k, 'st, 'w, 'h, 'p) bench_env \<Rightarrow> ('h \<Rightarrow> ptr \<Rightarrow> u64 option) \<Rightarrow> ('h \<Rightarrow> bool) \<Rightarrow> 'h \<Rightarrow>
    nat \<Rightarrow> u64 \<Rightarrow> ('d, 'h) bench \<Rightarrow> bool" where
  "just_measured env live sane h el pk s \<longleftrightarrow>
     (\<exists>i. measuring env live sane h i s \<and> measured_in env live h (el, pk) (i, bench_tick s))"

locale counted_run = system_heap "env_system env" live sane
  for env :: "('d, 't, 'k, 'st, 'w, 'h, 'p) bench_env" and live :: "'h \<Rightarrow> ptr \<Rightarrow> u64 option" and sane :: "'h \<Rightarrow> bool" +
  fixes h0 :: 'h
  assumes valid: "valid_requests (env_system env) live (env_requests env j) (heap_at env h0 j)"
begin

lemma counting_tick:
  assumes "counting env live sane h0 i s" shows "counting env live sane h0 i (snd (tick env s))"
proof -
  let ?j = "bench_tick s"
  obtain c h where ch: "bench_heap s = (c, h)" by fastforce
  have h: "h = heap_at env h0 ?j" and j: "i \<le> ?j" using assms ch by (simp_all add: counting_def)
  obtain ps c' h' where run: "run_requests (env_system env) (env_requests env ?j) (c, heap_at env h0 ?j) = (ps, c', h')"
    by (metis prod_cases3)
  have "h' = heap_at env h0 (Suc ?j)"
    using run by (simp flip: run_requests_system [of _ _ c])
  moreover have "sane h' \<and> counts_heap live (most_live env live h0 i (Suc ?j)) c' h' \<and>
      live_bytes live h' \<le> most_live env live h0 i (Suc ?j)"
    using counts_requests [OF _ _ _ _ run, of "most_live env live h0 i ?j"] assms valid [of ?j] ch h j
    by (simp add: counting_def)
  ultimately show ?thesis using assms j by (simp add: counting_def tick_def ch run h)
qed

lemma counting_reset:
  "counting env live sane h0 i s \<Longrightarrow>
   counting env live sane h0 (bench_tick s) (s\<lparr>bench_heap := (reset_peak (fst (bench_heap s)), snd (bench_heap s))\<rparr>)"
  by (auto simp: counting_def counts_heap_def reset_peak_def current_bytes_def)

lemma counting_same: "bench_tick s' = bench_tick s \<Longrightarrow> bench_heap s' = bench_heap s \<Longrightarrow>
    counting env live sane h0 i s' = counting env live sane h0 i s"
  by (simp add: counting_def)

lemma tick_simps [simp]: "bench_tick (snd (tick env s)) = Suc (bench_tick s)" "bench_out (snd (tick env s)) = bench_out s"
  by (simp_all add: tick_def)

lemma measuring_read:
  assumes "measuring env live sane h0 i s" and "s2 = snd (tick env (snd (tick env s)))"
  shows "just_measured env live sane h0 (env_clock env (bench_tick s) - env_clock env i) (peak_bytes (fst (bench_heap s2))) s2"
proof -
  have "measuring env live sane h0 i s2" unfolding assms(2)
    using assms(1) by (simp add: measuring_def counting_tick)
  moreover from this have "unat (peak_bytes (fst (bench_heap s2))) = most_live env live h0 i (bench_tick s2)"
    by (simp add: measuring_def counting_def counts_heap_def peak_bytes_def)
  moreover have "bench_tick s2 = bench_tick s + 2" by (simp add: assms(2))
  moreover have "i \<le> bench_tick s" using assms(1) by (simp add: measuring_def counting_def)
  ultimately show ?thesis unfolding just_measured_def measured_in_def by (intro exI [of _ i]) simp
qed

lemma just_measured_report:
  assumes "just_measured env live sane h0 el pk s" and "measure_of r = Some (el, pk)" and "\<forall>r \<in> set rs. measure_of r = None"
  shows "idle env live sane h0 (printed (r # rs) s)"
proof -
  obtain i where i: "measuring env live sane h0 i s" "measured_in env live h0 (el, pk) (i, bench_tick s)"
    using assms(1) unfolding just_measured_def by blast
  then have "measured_before env live h0 (bench_tick s) (bench_out s @ [r])"
    by (intro measured_before_report [OF _ assms(2) i(2)]) (simp add: measuring_def)
  from measured_before_unmeasured [OF this assms(3)] show ?thesis
    using i(1) counting_same [of "printed (r # rs) s" s] by (auto simp: idle_def printed_def measuring_def)
qed

lemma idle_tick: "idle env live sane h0 s \<Longrightarrow> idle env live sane h0 (snd (tick env s))"
  by (auto simp: idle_def intro: counting_tick measured_before_later)

lemma idle_print: "idle env live sane h0 s \<Longrightarrow> measure_of r = None \<Longrightarrow> idle env live sane h0 (printed [r] s)"
  using measured_before_unmeasured [of _ _ _ _ _ "[r]"] counting_same [of "printed [r] s" s]
  by (auto simp: idle_def printed_def)

lemma measuring_print:
  "measuring env live sane h0 i s \<Longrightarrow> measure_of r = None \<Longrightarrow> measuring env live sane h0 i (printed [r] s)"
  using measured_before_unmeasured [of _ _ _ _ _ "[r]"] counting_same [of "printed [r] s" s]
  by (auto simp: measuring_def printed_def)

lemma idle_measured: "idle env live sane h0 s \<Longrightarrow> \<exists>n. measured_before env live h0 n (bench_out s)"
  by (auto simp: idle_def)

lemma quiet_unmeasured: "quiet r \<Longrightarrow> measure_of r = None"
  by (cases r) (auto simp: quiet_def)

lemma measured_build:
  assumes "\<And>s. J s \<Longrightarrow> J (snd (tick env s))" and "\<And>s r. J s \<Longrightarrow> measure_of r = None \<Longrightarrow> J (printed [r] s)"
    and "\<And>s d. J s \<Longrightarrow> J (s\<lparr>bench_db := d\<rparr>)" and "\<And>s. J s \<Longrightarrow> \<exists>n. measured_before env live h0 n (bench_out s)"
  shows "build_walk env args J (\<lambda>_ s. \<exists>n. measured_before env live h0 n (bench_out s)) (\<lambda>_. True)"
  by unfold_locales (simp_all add: assms quiet_unmeasured)

lemma measured_walk:
  "main_walk env args (idle env live sane h0) (\<lambda>_ s. \<exists>n. measured_before env live h0 n (bench_out s)) (\<lambda>_. True)
     (measuring env live sane h0) (just_measured env live sane h0) (\<lambda>_. True)"
proof (intro main_walk.intro main_walk_axioms.intro measured_build, goal_cases)
  case (3 s d)
  then show ?case using counting_same [of "s\<lparr>bench_db := d\<rparr>" s] by (auto simp: idle_def)
next
  case (5 i s)
  then show ?case by (simp add: measuring_def counting_tick)
next
  case (7 i s d)
  then show ?case using counting_same [of "s\<lparr>bench_db := d\<rparr>" s] by (auto simp: measuring_def)
next
  case (8 i s)
  then show ?case by (auto simp: measuring_def)
next
  case (9 s)
  then show ?case by (auto simp: idle_def measuring_def intro: counting_reset)
next
  case (15 el pk s r rt e label)
  then show ?case by (intro idle_measured just_measured_report) simp_all
next
  case (16 s walked' rt)
  then show ?case by (intro idle_measured idle_print) simp_all
qed (simp_all add: idle_tick idle_print idle_measured measuring_print measuring_read just_measured_report)

end

interpretation sample_heap: counted_run sample_env bump_live bump_sane h
  by (intro counted_run.intro counted_run_axioms.intro) (simp_all add: bump.system_heap_axioms)

section \<open>Properties\<close>



end
