(* ===== verification/Bench_Write.thy ===== *)
theory Bench_Write
  imports Bench_Runs
begin

text \<open>
  A run of \<^verbatim>\<open>datadir_bench --write\<close> from end to end, on a database that does not fail: the tables are
  cleared, the build's nodes go through the progress sink into the writer, the writer commits them
  in chunks, and the tables are digested and walked. \<open>completes\<close> is total correctness of an
  action: it returns, and what is said of it holds.
\<close>

section \<open>A build that does not panic\<close>

text \<open>
  The calls of a build report less than 2^64 entries in all, and the last of them comes early enough
  for the time that remains to be computed.
\<close>

definition calls_fit :: "(nat \<Rightarrow> nat) \<Rightarrow> nat \<Rightarrow> progress_call list \<Rightarrow> bool" where
  "calls_fit clk N calls \<longleftrightarrow> sum_list (map (\<lambda>c. unat (called_entries c)) calls) < 2 ^ 64 \<and>
     (\<forall>t1 t2 t3 n i. On_Progress (t1, t2, t3) n \<in> set calls \<longrightarrow> max N 1 * (t3 - clk i) < 2 ^ 58 * nanos_per_sec)"

lemma calls_fit_time:
  assumes "calls_fit clk N calls" and "unat (expected :: u64) \<le> N" and "On_Progress (t1, t2, t3) n \<in> set calls"
  shows "max (unat expected) 1 * (t3 - clk i) < 2 ^ 58 * nanos_per_sec"
proof -
  have "max (unat expected) 1 * (t3 - clk i) \<le> max N 1 * (t3 - clk i)" using assms(2) by (intro mult_le_mono1) simp
  moreover have "max N 1 * (t3 - clk i) < 2 ^ 58 * nanos_per_sec" using assms(1,3) unfolding calls_fit_def by blast
  ultimately show ?thesis by (rule le_less_trans)
qed

lemma on_progress_calm:
  assumes "\<not> poisoned (ps_last_log s)" and "unat (ps_walked s) + unat n < 2 ^ 64"
    and "max (unat (ps_total s)) 1 * (t3 - ps_started s) < 2 ^ 58 * nanos_per_sec"
  shows "\<exists>s'. on_progress (t1, t2, t3) n s = (Returns (), s') \<and> \<not> poisoned (ps_last_log s')"
proof (cases "n = 0")
  case True
  then show ?thesis using assms(1) by (simp add: on_progress_def)
next
  case False
  let ?s = "s\<lparr>ps_walked := ps_walked s + n\<rparr>"
  have "unat (ps_walked s + n) = unat (ps_walked s) + unat n" using assms(2) by (simp add: unat_word_ariths)
  then have "ps_walked s + n \<noteq> 0" using False by (metis add_is_0 unat_eq_zero unsigned_0)
  then show ?thesis
    using log_progress_calm [of ?s "ps_walked s + n" t3 t1 t2] assms(1,3) False
    by (simp add: on_progress_def count_entries_def Let_def)
qed

text \<open>Nothing panics as long as the inner sink takes the nodes, in the order in which they come.\<close>

definition takes_all :: "(node_event \<Rightarrow> 's \<Rightarrow> unit outcome \<times> 's) \<Rightarrow> node_event list \<Rightarrow> 's \<Rightarrow> bool" where
  "takes_all emit es x \<longleftrightarrow> (\<forall>es1 e es2. es = es1 @ e # es2 \<longrightarrow> fst (emit e (fold (\<lambda>e x. snd (emit e x)) es1 x)) = Returns ())"

lemma takes_all_Cons: "takes_all emit (e # es) x \<longleftrightarrow> fst (emit e x) = Returns () \<and> takes_all emit es (snd (emit e x))"
proof
  assume all: "takes_all emit (e # es) x"
  have "fst (emit f (fold (\<lambda>e x. snd (emit e x)) es1 (snd (emit e x)))) = Returns ()" if "es = es1 @ f # es2" for es1 f es2
    using all [unfolded takes_all_def, rule_format, of "e # es1" f es2] that by simp
  moreover have "fst (emit e x) = Returns ()"
    using all [unfolded takes_all_def, rule_format, of "[]" e es] by simp
  ultimately show "fst (emit e x) = Returns () \<and> takes_all emit es (snd (emit e x))" by (simp add: takes_all_def)
next
  assume rest: "fst (emit e x) = Returns () \<and> takes_all emit es (snd (emit e x))"
  have "fst (emit f (fold (\<lambda>e x. snd (emit e x)) es1 x)) = Returns ()" if "e # es = es1 @ f # es2" for es1 f es2
  proof (cases es1)
    case Nil
    then show ?thesis using that rest by simp
  next
    case (Cons a es3)
    then have "a = e" "es = es3 @ f # es2" using that by simp_all
    then show ?thesis
      using conjunct2 [OF rest, unfolded takes_all_def, rule_format, of es3 f es2] Cons by simp
  qed
  then show "takes_all emit (e # es) x" by (simp add: takes_all_def)
qed

lemma feed_calm:
  assumes "\<not> poisoned (ps_last_log s)" and "takes_all emit (concat (map called_node cs)) (ps_inner s)"
    and "unat (ps_walked s) + sum_list (map (\<lambda>c. unat (called_entries c)) cs) < 2 ^ 64"
    and "\<forall>t1 t2 t3 n. On_Progress (t1, t2, t3) n \<in> set cs \<longrightarrow>
      max (unat (ps_total s)) 1 * (t3 - ps_started s) < 2 ^ 58 * nanos_per_sec"
  shows "\<exists>s'. feed emit cs s = (Returns (), s') \<and>
    ps_inner s' = fold (\<lambda>e x. snd (emit e x)) (concat (map called_node cs)) (ps_inner s)"
  using assms
proof (induction cs arbitrary: s)
  case Nil
  then show ?case by simp
next
  case (Cons c cs)
  show ?case
  proof (cases c)
    case (On_Node e)
    obtain r x where e: "emit e (ps_inner s) = (r, x)" by fastforce
    have "r = Returns ()" "takes_all emit (concat (map called_node cs)) x" using Cons.prems(2) e by (simp_all add: On_Node takes_all_Cons)
    moreover from this have "call_sink emit c s = (Returns (), s\<lparr>ps_inner := x\<rparr>)"
      using e by (simp add: On_Node call_sink_def progress_on_branch_node_def)
    ultimately show ?thesis using Cons.IH [of "s\<lparr>ps_inner := x\<rparr>"] Cons.prems e by (simp add: On_Node)
  next
    case (On_Progress readings n)
    obtain t1 t2 t3 where t: "readings = (t1, t2, t3)" by (cases readings)
    have "max (unat (ps_total s)) 1 * (t3 - ps_started s) < 2 ^ 58 * nanos_per_sec"
      using Cons.prems(4) unfolding On_Progress t by (meson list.set_intros(1))
    then obtain s1 where s1: "on_progress readings n s = (Returns (), s1)" "\<not> poisoned (ps_last_log s1)"
      using on_progress_calm [of s n t3 t1 t2] Cons.prems(1,3) by (auto simp: On_Progress t)
    have n: "unat (ps_walked s + n) = unat (ps_walked s) + unat n"
      using Cons.prems(3) by (simp add: On_Progress unat_word_ariths)
    have same: "ps_inner s1 = ps_inner s" "ps_walked s1 = ps_walked s + n"
      using on_progress_inner [of readings n s] on_progress_walked [of readings n s] s1(1) by simp_all
    have fixed: "ps_total s1 = ps_total s" "ps_started s1 = ps_started s"
      using on_progress_fixed [of readings n s] s1(1) by simp_all
    have "call_sink emit c s = (Returns (), s1)" using s1(1) by (simp add: On_Progress call_sink_def)
    moreover have "\<exists>s'. feed emit cs s1 = (Returns (), s') \<and>
        ps_inner s' = fold (\<lambda>e x. snd (emit e x)) (concat (map called_node cs)) (ps_inner s1)"
    proof (rule Cons.IH [OF s1(2)])
      show "\<forall>t1 t2 t3 n. On_Progress (t1, t2, t3) n \<in> set cs \<longrightarrow>
          max (unat (ps_total s1)) 1 * (t3 - ps_started s1) < 2 ^ 58 * nanos_per_sec"
        using Cons.prems(4) unfolding fixed by (meson list.set_intros(2))
    qed (use Cons.prems(2,3) in \<open>simp_all add: On_Progress same n\<close>)
    ultimately show ?thesis by (simp add: On_Progress same)
  qed
qed

text \<open>
  The build emits each of \<open>es\<close> once, in any order, and finds the root \<open>rt\<close>, whenever it can open a
  provider; there are at most \<open>N\<close> entries.
\<close>

definition builds :: "('d, 't, 'k, 'st, 'w, 'h, 'p) bench_env \<Rightarrow> b256 \<Rightarrow> node_event list \<Rightarrow> nat \<Rightarrow> bool" where
  "builds env rt es N \<longleftrightarrow> distinct (map event_key es) \<and>
     (\<forall>n run p. \<exists>calls. env_build env n run (Ok p) = (calls, Ok rt) \<and> mset (concat (map called_node calls)) = mset es \<and>
       calls_fit (env_clock env) N calls)"

section \<open>Actions that complete\<close>

abbreviation "completes P m Q \<equiv> spec P m Q (\<lambda>_ _. False)"

lemma completesD: "completes P m Q \<Longrightarrow> P s \<Longrightarrow> \<exists>x s'. m s = (Continue x, s') \<and> Q x s'"
  using specD [of P m Q "\<lambda>_ _. False" s] by (cases "m s"; cases "fst (m s)") auto

lemma spec_post: "spec P m Q E \<Longrightarrow> (\<And>x s. Q x s \<Longrightarrow> Q' x s) \<Longrightarrow> spec P m Q' E"
  unfolding spec_def stops_with_def by (fastforce split: flow.splits prod.splits)

lemma spec_fact: "(b \<Longrightarrow> spec P m Q E) \<Longrightarrow> spec (\<lambda>s. b \<and> P s) m Q E"
  by (cases b) (simp_all add: spec_def)

lemma return_andthen: "andthen (return x) f = f x"
  by (simp add: fun_eq_iff andthen_def return_def)

text \<open>
  What is known of the database, and that since the output \<open>o\<close> something was printed of every kind in
  \<open>A\<close>.
\<close>

definition reached :: "report list \<Rightarrow> ('d \<Rightarrow> bool) \<Rightarrow> (report \<Rightarrow> bool) set \<Rightarrow> ('d, 'h) bench \<Rightarrow> bool" where
  "reached before D A s \<longleftrightarrow> D (bench_db s) \<and> (\<exists>out. bench_out s = before @ out \<and> (\<forall>k \<in> A. \<exists>r \<in> set out. k r))"

lemma reached_out:
  assumes "reached before D A s" and "bench_db s' = bench_db s" and "bench_out s' = bench_out s @ rs"
    and "\<forall>k \<in> B. \<exists>r \<in> set rs. k r"
  shows "reached before D (A \<union> B) s'"
proof -
  obtain out where out: "bench_out s = before @ out" "\<forall>k \<in> A. \<exists>r \<in> set out. k r" and "D (bench_db s)"
    using assms(1) unfolding reached_def by blast
  moreover have "bench_out s' = before @ (out @ rs)" using assms(3) out(1) by simp
  moreover have "\<exists>r \<in> set (out @ rs). k r" if "k \<in> A \<union> B" for k using out(2) assms(4) that by auto
  ultimately show ?thesis using assms(2) unfolding reached_def by metis
qed

lemma reached_same: "reached before D A s \<Longrightarrow> bench_db s' = bench_db s \<Longrightarrow> bench_out s' = bench_out s \<Longrightarrow> reached before D A s'"
  by (simp add: reached_def)

lemma completes_print:
  "(\<forall>k \<in> B. \<exists>r \<in> set rs. k r) \<Longrightarrow> completes (reached before D A) (print rs) (\<lambda>_. reached before D (A \<union> B))"
  by (rule specI) (simp add: print_def, erule reached_out, simp_all)

lemma completes_print_any: "completes (reached before D A) (print rs) (\<lambda>_. reached before D A)"
  using completes_print [of "{}" rs before D A] by simp

lemma completes_tick: "completes (reached before D A) (tick env) (\<lambda>_. reached before D A)"
  by (rule specI) (simp add: tick_def, erule reached_same, simp_all)

lemma completes_read_clock: "completes (reached before D A) (read_clock env) (\<lambda>_. reached before D A)"
  unfolding read_clock_def by (rule spec_andthen [OF completes_tick spec_return])

lemma completes_elapsed_since: "completes (reached before D A) (elapsed_since env t) (\<lambda>_. reached before D A)"
  unfolding elapsed_since_def by (rule spec_andthen [OF completes_read_clock spec_return])

lemma completes_heap_peak: "completes (reached before D A) (heap_peak env) (\<lambda>_. reached before D A)"
  unfolding heap_peak_def by (rule spec_andthen [OF completes_tick specI]) simp

lemma completes_reset_heap: "completes (reached before D A) (reset_heap env) (\<lambda>_. reached before D A)"
  unfolding reset_heap_def by (rule spec_andthen [OF completes_tick specI]) (simp, erule reached_same, simp_all)

lemma completes_measured:
  assumes "completes (reached before D A) m (\<lambda>x s. X x \<and> reached before D' A' s)"
    and "\<And>x el pk. X x \<Longrightarrow> completes (reached before D' A') (f x el pk) Q"
  shows "completes (reached before D A) (measured env m f) Q"
  unfolding measured_def
proof (intro spec_andthen [OF completes_reset_heap] spec_andthen [OF completes_read_clock] spec_andthen [OF assms(1)], goal_cases)
  case (1 _ started x)
  show ?case by (rule spec_fact, rule spec_andthen [OF completes_elapsed_since spec_andthen [OF completes_heap_peak assms(2)]])
qed

lemma completes_check_root:
  "expected = None \<or> expected = Some rt \<Longrightarrow> completes (reached before D A) (check_root rt expected label) (\<lambda>_. reached before D A)"
  by (auto simp: check_root_def intro: spec_return completes_print_any)

lemma completes_for_runs:
  "(\<And>i. i < k \<Longrightarrow> completes (P i) (body (run + i)) (\<lambda>_. P (Suc i))) \<Longrightarrow>
   completes (P 0) (for_runs body run k) (\<lambda>_. P k)"
proof (induction k arbitrary: run P)
  case 0
  then show ?case by (simp add: spec_return)
next
  case (Suc k)
  have "completes (P 1) (for_runs body (run + 1) k) (\<lambda>_. P (Suc k))"
    using Suc.IH [of "\<lambda>i. P (Suc i)" "run + 1"] Suc.prems [of "Suc _"] by simp
  then show ?case using spec_andthen [OF Suc.prems [of 0]] by simp
qed

section \<open>What the program does to the database\<close>

text \<open>The nodes in the tables, and the rest of the database.\<close>

definition tables_hold :: "('d, 't, 'k) trie_db \<Rightarrow> ('d \<Rightarrow> 'k table_rows) \<Rightarrow> ('d \<Rightarrow> hashed_tables) \<Rightarrow> bool \<Rightarrow> hashed_tables \<Rightarrow>
    node_event list \<Rightarrow> 'd \<Rightarrow> bool" where
  "tables_hold db committed committed_others packed h es d \<longleftrightarrow> committed_others d = h \<and>
     committed d = encode_rows db packed (content_of (stored_events es))"

context reliable_store
begin

abbreviation "holds env h \<equiv> tables_hold db committed committed_others (packed_of (env_codec env) h) h"

lemma completes_clear_tables:
  fixes env :: "('a, 'b, 'c, 'st, 'w, 'hp, 'p) bench_env"
  assumes "env_db env = db"
  shows "completes (reached before (\<lambda>d. committed_others d = h) A) (clear_tables env) (\<lambda>_. reached before (holds env h []) A)"
proof (rule specI)
  fix s :: "('a, 'hp) bench" assume s: "reached before (\<lambda>d. committed_others d = h) A s"
  obtain d where c: "clear_trie_tables db (bench_db s) = (d, Ok ())" using clear_trie_tables_succeeds by blast
  have "holds env h [] d"
    using clear_trie_tables_Ok [OF c] clear_trie_tables_others [OF c] s
    by (simp add: tables_hold_def reached_def stored_events_def)
  then show "stops_with (\<lambda>_ _. False) (\<lambda>_. reached before (holds env h []) A) (clear_tables env s)"
    using s by (simp add: clear_tables_def assms andthen_def on_db_def c expect_def reached_def)
qed

lemma writer_takes_all:
  assumes "0 < c" and "committed d = encode_rows db packed m" and "distinct (map event_key es)"
  shows "takes_all (writer_emit db packed debug c) es (writer_start d)"
    "fold (\<lambda>e w. snd (writer_emit db packed debug c e w)) es (writer_start d) =
     fold (writer_receive db packed debug c) es (writer_start d)"
proof -
  let ?step = "\<lambda>e w. snd (writer_emit db packed debug c e w)"
  have "takes_all (writer_emit db packed debug c) es (writer_start d) \<and>
      fold ?step es (writer_start d) = fold (writer_receive db packed debug c) es (writer_start d)"
    using assms(3)
  proof (induction es rule: rev_induct)
    case Nil
    then show ?case by (simp add: takes_all_def)
  next
    case (snoc e es)
    have run: "is_running (fold (writer_receive db packed debug c) es (writer_start d))"
      using writer_receives_running [OF assms(1,2)] snoc.prems by simp
    have IH: "takes_all (writer_emit db packed debug c) es (writer_start d)"
        "fold ?step es (writer_start d) = fold (writer_receive db packed debug c) es (writer_start d)"
      using snoc by simp_all
    have "fst (writer_emit db packed debug c f (fold ?step es1 (writer_start d))) = Returns ()"
      if "es @ [e] = es1 @ f # es2" for es1 f es2
    proof (cases es2 rule: rev_cases)
      case Nil
      then show ?thesis using that run IH(2) by (simp add: writer_emit_def)
    next
      case (snoc es3 g)
      then have "es = es1 @ f # es3" using that by simp
      then show ?thesis using IH(1) unfolding takes_all_def by blast
    qed
    then show ?case using run IH(2) by (simp add: takes_all_def writer_emit_def)
  qed
  then show "takes_all (writer_emit db packed debug c) es (writer_start d)"
    "fold ?step es (writer_start d) = fold (writer_receive db packed debug c) es (writer_start d)" by blast+
qed

text \<open>What the writer leaves of the nodes \<open>fs\<close> that a build emits, and the build's calls.\<close>

lemma flush_all:
  assumes "0 < c" and "committed d = encode_rows db packed Map.empty"
    and "distinct (map event_key es)" and "mset fs = mset es"
  shows "\<exists>d' wr. writer_flush db packed (fold (writer_receive db packed debug c) fs (writer_start d)) = Ended d' (Returns (Ok wr)) \<and>
    committed d' = encode_rows db packed (content_of (stored_events es)) \<and> committed_others d' = committed_others d \<and>
    wr_nodes wr = length (stored_events es)"
proof -
  have keys: "distinct (map event_key fs)" using assms(3,4) by (metis mset_eq_imp_distinct_iff mset_map)
  from write_chunks_succeeds [OF assms(1,2), of debug fs] keys
  obtain d' wr where w: "write_chunks db packed debug c fs d = Ended d' (Returns (Ok wr))"
      "committed d' = encode_rows db packed (content_of (stored_events fs))" "wr_nodes wr = length (stored_events fs)"
    by auto
  have perm: "mset (stored_events fs) = mset (stored_events es)" unfolding stored_events_def mset_filter assms(4) ..
  then have "content_of (stored_events fs) = content_of (stored_events es)"
    using content_of_permute [OF _ perm] distinct_map_filter [OF keys] unfolding stored_events_def by blast
  moreover have "length (stored_events fs) = length (stored_events es)" using perm mset_eq_length by blast
  ultimately show ?thesis
    using w write_chunks_others [OF w(1)] unfolding write_chunks_def by auto
qed

lemma feed_writer:
  assumes "0 < c" and "committed d = encode_rows db packed m" and "distinct (map event_key (concat (map called_node calls)))"
    and "calls_fit clk N calls" and "unat entries \<le> N"
  shows "\<exists>sink. feed (writer_emit db packed debug c) calls (progress_new (writer_start d) entries interval (clk i)) = (Returns (), sink) \<and>
    ps_inner sink = fold (writer_receive db packed debug c) (concat (map called_node calls)) (writer_start d)"
proof -
  let ?sink = "progress_new (writer_start d) entries interval (clk i)" let ?emit = "writer_emit db packed debug c"
  note takes = writer_takes_all [OF assms(1-3), of debug]
  have "\<exists>sink. feed ?emit calls ?sink = (Returns (), sink) \<and>
      ps_inner sink = fold (\<lambda>e x. snd (?emit e x)) (concat (map called_node calls)) (ps_inner ?sink)"
  proof (rule feed_calm)
    show "\<forall>t1 t2 t3 n. On_Progress (t1, t2, t3) n \<in> set calls \<longrightarrow>
        max (unat (ps_total ?sink)) 1 * (t3 - ps_started ?sink) < 2 ^ 58 * nanos_per_sec"
      using calls_fit_time [OF assms(4,5)] by (simp add: progress_new_def)
  qed (use takes(1) assms(4) in \<open>simp_all add: progress_new_def calls_fit_def new_mutex_def\<close>)
  then show ?thesis using takes(2) by (auto simp: progress_new_def)
qed

lemma completes_build_written:
  fixes env :: "('a, 'b, 'c, 'st, 'w, 'hp, 'p) bench_env"
  assumes env: "env_db env = db" and builds: "builds env rt es N" and N: "unat entries \<le> N"
  shows "completes (reached before (holds env h []) A) (build_written env args n entries run)
    (\<lambda>x s. (fst x = rt \<and> wr_nodes (snd (snd x)) = length (stored_events es)) \<and> reached before (holds env h es) A s)"
proof (rule specI)
  fix s :: "('a, 'hp) bench" assume s: "reached before (holds env h []) A s"
  define c where "c = max (unat (chunk_nodes args)) 1"
  let ?d = "bench_db s" and ?p = "packed_of (env_codec env) h" and ?s1 = "snd (tick env s)"
  have d: "committed_others ?d = h" "committed ?d = encode_rows db ?p Map.empty" and c: "0 < c"
    using s by (simp_all add: reached_def tables_hold_def stored_events_def c_def)
  have new: "new_write_sink db (env_codec env) ?d (unat (chunk_nodes args)) [] = Ok (?p, c, run_start [] ?d)"
    using d by (simp add: new_write_sink_succeeds c_def)
  obtain t where t: "db_tx db ?d = Ok t" using tx_succeeds by blast
  obtain calls where build: "env_build env n run (source_provider_ro db (env_prune_modes env) ?d) = (calls, Ok rt)"
      and calls: "mset (concat (map called_node calls)) = mset es" and fit: "calls_fit (env_clock env) N calls"
    using builds t unfolding builds_def source_provider_ro_def by fastforce
  have keys: "distinct (map event_key es)" "distinct (map event_key (concat (map called_node calls)))"
    using builds calls unfolding builds_def by (metis mset_eq_imp_distinct_iff mset_map)+
  obtain sink where sink: "feed (writer_emit db ?p (env_debug env) c) calls
        (progress_new (writer_start ?d) entries progress_interval (env_clock env (bench_tick s))) = (Returns (), sink)"
      "into_inner sink = fold (writer_receive db ?p (env_debug env) c) (concat (map called_node calls)) (writer_start ?d)"
    using feed_writer [OF c d(2) keys(2) fit N] unfolding into_inner_def by blast
  obtain d' wr where w: "writer_flush db ?p (into_inner sink) = Ended d' (Returns (Ok wr))"
      "committed d' = encode_rows db ?p (content_of (stored_events es))" "committed_others d' = h"
      "wr_nodes wr = length (stored_events es)"
    using flush_all [OF c d(2) keys(1) calls, of "env_debug env"] d(1) unfolding sink(2) by auto
  let ?s2 = "?s1\<lparr>bench_db := d', bench_out := bench_out s @ map (\<lambda>l. Progress_Line (snd l)) (ps_lines sink)\<rparr>"
  have "build_written env args n entries run s = (Continue (rt, walked sink, wr), ?s2)"
    using w(1) by (simp add: build_written_def new_writer_def env new run_build_def root_with_sink_def build sink(1)
        andthen_def read_clock_def tick_def finish_writer_def Let_def expect_def return_def)
  moreover have "reached before (holds env h []) (A \<union> {}) (?s2\<lparr>bench_db := ?d\<rparr>)"
    by (rule reached_out [OF s]) (simp_all add: tick_def)
  then have "reached before (holds env h es) A ?s2" using w(2,3) by (simp add: reached_def tables_hold_def)
  ultimately show "stops_with (\<lambda>_ _. False) (\<lambda>x s. (fst x = rt \<and> wr_nodes (snd (snd x)) = length (stored_events es)) \<and>
      reached before (holds env h es) A s) (build_written env args n entries run s)"
    using w(4) by simp
qed

end

section \<open>The modes of the program\<close>

text \<open>
  What every mode needs: a runtime, a directory that opens, tables that can be counted. The checks of
  written tables need fair scans, and a walk that finds the root \<open>rt\<close> in the tables with the nodes \<open>es\<close>;
  the generator needs its build.
\<close>

locale bench_run = reliable_store db rows position committed others committed_others
  for db :: "('d, 't, 'k) trie_db" and rows and position and committed and others and committed_others +
  fixes env :: "('d, 't, 'k, 'st, 'w, 'h, 'p) bench_env" and rw :: bool and N :: nat
  assumes env_is: "env_db env = db"
    and starts: "\<exists>n. env_runtime env c = Ok n"
    and opens: "env_open env rw dir d = Ok ()"
    and tips: "\<exists>b. env_tip env t = Ok b"
    and counts: "\<exists>a b. env_accounts env t = Ok a \<and> env_storages env t = Ok b \<and> unat (a + b) \<le> N"

locale table_checks = bench_run db rows position committed others committed_others env rw N
  for db :: "('d, 't, 'k) trie_db" and rows and position and committed and others and committed_others
    and env :: "('d, 't, 'k, 'st, 'w, 'h, 'p) bench_env" and rw and N +
  fixes rt :: b256 and es :: "node_event list" and h :: hashed_tables
  assumes fair: "fair_schedule (env_schedule env)"
    and keys: "distinct (map event_key es)"
    and walks: "rows t = encode_rows db (packed_of (env_codec env) h) (content_of (stored_events es)) \<Longrightarrow>
      others t = h \<Longrightarrow> serial_root (env_walk env) (packed_of (env_codec env) h) t = Ok rt"

locale write_mode = table_checks db rows position committed others committed_others env True N rt es h
  for db :: "('d, 't, 'k) trie_db" and rows and position and committed and others and committed_others
    and env :: "('d, 't, 'k, 'st, 'w, 'h, 'p) bench_env" and rt and es and N and h +
  assumes builds: "builds env rt es N"

text \<open>The lines of a finished run: its report, the digest of its tables, the root walked from them.\<close>

definition reports_run :: "b256 \<Rightarrow> node_event list \<Rightarrow> nat \<Rightarrow> report \<Rightarrow> bool" where
  "reports_run rt es run r \<longleftrightarrow>
     (\<exists>w wr el pk. r = Write_Report run rt w wr el pk \<and> wr_nodes wr = length (stored_events es))"

definition reports_tables :: "hasher \<Rightarrow> node_event list \<Rightarrow> report \<Rightarrow> bool" where
  "reports_tables hh es r \<longleftrightarrow> (\<exists>el. r = Tables_Report (events_summary hh (stored_events es)) el)"

definition reports_walk :: "b256 \<Rightarrow> report \<Rightarrow> bool" where
  "reports_walk rt r \<longleftrightarrow> (\<exists>el. r = Walked_Root rt el)"

context bench_run
begin

text \<open>The reads at the start of a mode.\<close>

lemma completes_opened: "completes P (opened env rw dir msg) (\<lambda>_. P)"
  by (rule specI) (simp add: opened_def opens expect_def)

lemma completes_runtime: "completes P (runtime (env_runtime env) n) (\<lambda>_. P)"
proof (rule specI)
  obtain k where "env_runtime env \<lparr>cpu_threads = n\<rparr> = Ok k" using starts by blast
  then show "P s \<Longrightarrow> stops_with (\<lambda>_ _. False) (\<lambda>_. P) (runtime (env_runtime env) n s)" for s
    by (simp add: runtime_def expect_def)
qed

lemma completes_read_tx: "completes P (read_tx env) (\<lambda>t s. P s \<and> rows t = committed (bench_db s) \<and> others t = committed_others (bench_db s))"
proof (rule specI)
  fix s :: "('d, 'h) bench" assume "P s"
  moreover obtain t where "db_tx db (bench_db s) = Ok t" using tx_succeeds by blast
  ultimately show "stops_with (\<lambda>_ _. False)
      (\<lambda>t s. P s \<and> rows t = committed (bench_db s) \<and> others t = committed_others (bench_db s)) (read_tx env s)"
    using tx_rows tx_others by (simp add: read_tx_def expect_def env_is)
qed

lemma completes_read_tx_any: "completes P (read_tx env) (\<lambda>_. P)"
  by (rule spec_post [OF completes_read_tx]) simp

lemma completes_print_tip: "completes (reached before D A) (print_tip env t) (\<lambda>_. reached before D A)"
proof -
  obtain b where "env_tip env t = Ok b" using tips by blast
  then have "completes (reached before D A) (expect ''read stage checkpoints'' (env_tip env t)) (\<lambda>_. reached before D A)"
    by (intro specI) (simp add: expect_def)
  then show ?thesis unfolding print_tip_def by (rule spec_andthen) (rule completes_print_any)
qed

lemma completes_hashed_entries: "completes P (hashed_entries env t) (\<lambda>n s. unat n \<le> N \<and> P s)"
proof (rule specI)
  obtain a b where "env_accounts env t = Ok a" "env_storages env t = Ok b" "unat (a + b) \<le> N" using counts by blast
  then show "P s \<Longrightarrow> stops_with (\<lambda>_ _. False) (\<lambda>n s. unat n \<le> N \<and> P s) (hashed_entries env t s)" for s
    by (simp add: hashed_entries_def andthen_def expect_def return_def)
qed

text \<open>\<^verbatim>\<open>--clear-trie-tables\<close>.\<close>

lemma completes_clear_flag:
  "completes (reached before (\<lambda>d. committed_others d = hashed) A)
    (if_set b (andthen (clear_tables env) (\<lambda>_. print [Trie_Tables_Cleared])))
    (\<lambda>_. reached before (\<lambda>d. committed_others d = hashed) A)"
proof (cases b)
  case True
  have forget: "reached before (holds env hashed []) A s \<Longrightarrow> reached before (\<lambda>d. committed_others d = hashed) A s"
    for s :: "('d, 'h) bench" by (simp add: reached_def tables_hold_def)
  show ?thesis
    unfolding if_set_def using True
    by (simp only: if_True) (rule spec_andthen [OF completes_clear_tables [OF env_is]],
      rule spec_pre [OF forget completes_print_any])
next
  case False
  then show ?thesis by (simp add: if_set_def spec_return)
qed

end

context table_checks
begin

lemma stored_keys: "distinct (map event_key (stored_events es))"
  using keys by (simp add: stored_events_def distinct_map_filter)

text \<open>The checks and the runs.\<close>

lemma completes_print_digest:
  assumes "rows t = encode_rows db (packed_of (env_codec env) h) (content_of (stored_events es))" and "others t = h"
  shows "completes (reached before D A) (print_trie_tables_digest env t)
    (\<lambda>_. reached before D (A \<union> {reports_tables (env_hasher env) es}))"
proof -
  obtain r where r: "digest_trie_tables db (env_codec env) (env_hasher env) (env_schedule env) t = Ok r"
    using digest_trie_tables_succeeds by blast
  have "r = events_summary (env_hasher env) (stored_events es)"
    by (rule digest_trie_tables_summary [OF r fair _ stored_keys]) (use assms in simp)
  then have tables: "expect msg (digest_trie_tables (env_db env) (env_codec env) (env_hasher env) (env_schedule env) t) =
      return (events_summary (env_hasher env) (stored_events es))" for msg
    using r by (simp add: env_is expect_def return_def fun_eq_iff)
  show ?thesis
    unfolding print_trie_tables_digest_def tables return_andthen
    by (rule spec_andthen [OF completes_read_clock], rule spec_andthen [OF completes_elapsed_since], rule completes_print)
      (simp add: reports_tables_def)
qed

lemma serial_root_found:
  assumes "rows t = encode_rows db (packed_of (env_codec env) h) (content_of (stored_events es))" and "others t = h"
  shows "expect msg (reth_serial_root (env_db env) (env_codec env) (env_walk env) t) = return rt"
proof -
  have "reth_serial_root db (env_codec env) (env_walk env) t = Ok rt"
    using uses_packed_succeeds [of "env_codec env" t] walks [OF assms] assms(2) by (simp add: reth_serial_root_def)
  then show ?thesis by (simp add: env_is expect_def return_def fun_eq_iff)
qed

lemma completes_check_written:
  assumes "rows t = encode_rows db (packed_of (env_codec env) h) (content_of (stored_events es))" and "others t = h"
  shows "completes (reached before D A) (check_written_tables env t rt)
    (\<lambda>_. reached before D (A \<union> {reports_tables (env_hasher env) es} \<union> {reports_walk rt}))"
  unfolding check_written_tables_def serial_root_found [OF assms] return_andthen if_True refl
  by (rule spec_andthen [OF completes_print_digest [OF assms]], rule spec_andthen [OF completes_read_clock],
      simp only: simp_thms if_True, rule spec_andthen [OF completes_elapsed_since], rule completes_print)
    (simp add: reports_walk_def)

lemma completes_read_check:
  "completes (reached before (holds env h es) B) (andthen (read_tx env) (\<lambda>t. check_written_tables env t rt))
    (\<lambda>_. reached before (holds env h es) (B \<union> {reports_tables (env_hasher env) es} \<union> {reports_walk rt}))"
proof (rule spec_andthen [OF completes_read_tx specI])
  fix t and s :: "('d, 'h) bench"
  assume s: "reached before (holds env h es) B s \<and> rows t = committed (bench_db s) \<and> others t = committed_others (bench_db s)"
  then have "rows t = encode_rows db (packed_of (env_codec env) h) (content_of (stored_events es))" "others t = h"
    by (simp_all add: reached_def tables_hold_def)
  from specD [OF completes_check_written [OF this]] s
  show "stops_with (\<lambda>_ _. False) (\<lambda>_. reached before (holds env h es)
      (B \<union> {reports_tables (env_hasher env) es} \<union> {reports_walk rt})) (check_written_tables env t rt s)" by blast
qed

end

context write_mode
begin

abbreviation "run_lines run \<equiv> {reports_run rt es run, reports_tables (env_hasher env) es, reports_walk rt}"

lemma completes_generator_run:
  assumes "expected_root args = None \<or> expected_root args = Some rt" and "unat entries \<le> N"
  shows "completes (reached before (\<lambda>d. committed_others d = h) A) (generator_run env args n entries run)
    (\<lambda>_. reached before (holds env h es) (A \<union> run_lines run))"
  unfolding generator_run_def
proof (rule spec_andthen [OF completes_clear_tables [OF env_is]],
    rule completes_measured [OF completes_build_written [OF env_is builds assms(2)]], goal_cases)
  case (1 _ x el pk)
  obtain w wr where x: "x = (rt, w, wr)" "wr_nodes wr = length (stored_events es)" using 1 by (cases x) auto
  have print: "completes (reached before (holds env h es) A) (print [Write_Report run rt w wr el pk])
      (\<lambda>_. reached before (holds env h es) (A \<union> {reports_run rt es run}))"
    by (rule completes_print) (simp add: reports_run_def x(2))
  have lines: "A \<union> run_lines run = A \<union> {reports_run rt es run} \<union> {reports_tables (env_hasher env) es} \<union> {reports_walk rt}"
    by blast
  show ?case
    unfolding x(1) prod.case lines
    by (rule spec_andthen [OF print], rule spec_andthen [OF completes_check_root [OF assms(1)]],
        rule completes_read_check)
qed

lemma completes_main_write:
  assumes "expected_root args = None \<or> expected_root args = Some rt"
  defines "k \<equiv> unat (repeat args)"
  shows "completes (reached before (\<lambda>d. committed_others d = h) A) (main_write env args n)
    (\<lambda>_. reached before (if k = 0 then \<lambda>d. committed_others d = h else holds env h es) (A \<union> (\<Union>i < k. run_lines (1 + i))))"
proof -
  let ?P = "\<lambda>i. reached before (if i = 0 then \<lambda>d. committed_others d = h else holds env h es) (A \<union> (\<Union>j < i. run_lines (1 + j)))"
  have runs: "completes (?P 0) (for_runs (generator_run env args n entries) 1 k) (\<lambda>_. ?P k)" if "unat entries \<le> N" for n entries
  proof (rule completes_for_runs [where P = ?P])
    fix i
    have lines: "A \<union> (\<Union>j < Suc i. run_lines (1 + j)) = A \<union> (\<Union>j < i. run_lines (1 + j)) \<union> run_lines (1 + i)"
      by (simp only: lessThan_Suc UN_insert) blast
    have "completes (reached before (\<lambda>d. committed_others d = h) (A \<union> (\<Union>j < i. run_lines (1 + j))))
        (generator_run env args n entries (1 + i)) (\<lambda>_. ?P (Suc i))"
      unfolding lines using completes_generator_run [OF assms(1) that] by simp
    then show "completes (?P i) (generator_run env args n entries (1 + i)) (\<lambda>_. ?P (Suc i))"
      by (rule spec_pre [rotated]) (auto simp: reached_def tables_hold_def split: if_splits)
  qed
  have "completes (?P 0) (main_write env args n) (\<lambda>_. ?P k)" for n
    unfolding main_write_def k_def [symmetric]
    by (rule spec_andthen [OF completes_read_tx_any], rule spec_andthen [OF completes_print_tip],
        rule spec_andthen [OF completes_print_any], rule spec_andthen [OF completes_read_tx_any],
        rule spec_andthen [OF completes_hashed_entries], rule spec_fact,
        rule spec_andthen [OF completes_print_any runs])
  then show ?thesis by simp
qed

lemma main_write_completes:
  assumes "expected_root args = None \<or> expected_root args = Some rt"
    and "write_flag args" and "\<not> reth_rebuild_flag args"
  defines "k \<equiv> unat (repeat args)"
  shows "completes (reached before (\<lambda>d. committed_others d = h) {}) (main_with env args)
    (\<lambda>_. reached before (if k = 0 then \<lambda>d. committed_others d = h else holds env h es) (\<Union>i < k. run_lines (1 + i)))"
proof -
  have "main_with env args = andthen (runtime (env_runtime env) (threads args)) (\<lambda>n.
      andthen (opened env True (datadir args) ''open datadir db read-write'') (\<lambda>_.
      andthen (if_set (clear_flag args) (andthen (clear_tables env) (\<lambda>_. print [Trie_Tables_Cleared]))) (\<lambda>_.
      main_write env args n)))"
    using assms(2,3) by (simp add: main_with_def writes_def if_set_def return_andthen)
  then show ?thesis
    using completes_main_write [OF assms(1), of _ "{}"]
    by (simp only: Un_empty_left k_def) (rule spec_andthen [OF completes_runtime],
      rule spec_andthen [OF completes_opened], rule spec_andthen [OF completes_clear_flag])
qed

end

section \<open>The environment of the sample\<close>

lemma sample_builds: "builds sample_env 9 sample_events 4"
proof -
  have "concat (map called_node sample_calls) = sample_events" by (simp add: sample_calls_def sample_events_def)
  moreover have "calls_fit (\<lambda>i. 0) 4 sample_calls" by (simp add: calls_fit_def sample_calls_def nanos_per_sec_def)
  moreover have "env_clock sample_env = (\<lambda>i. 0)" by (simp add: fun_eq_iff)
  ultimately show ?thesis using sample_events_distinct by (simp add: builds_def)
qed

interpretation sample_run: bench_run ref_db ref_lookup ref_position ref_lookup ref_others ref_others sample_env rw 4
  by unfold_locales auto

interpretation sample_checks: table_checks ref_db ref_lookup ref_position ref_lookup ref_others ref_others sample_env rw 4 9
    sample_events h
  by unfold_locales (auto simp: sample_events_distinct fair_concat scripted_walk_def)

interpretation sample_write: write_mode ref_db ref_lookup ref_position ref_lookup ref_others ref_others sample_env 9
    sample_events 4 h
  by unfold_locales (rule sample_builds)

end
