(* ===== verification/Bench_Modes.thy ===== *)
theory Bench_Modes
  imports Bench_Write
begin

text \<open>
  The other modes of \<^verbatim>\<open>datadir_bench\<close> from end to end, on a database that does not fail: reth's rebuild, alone
  and followed by the generator, and the modes that only read. What is said of a mode is that it
  ends normally, what the tables hold then, and the lines that were printed.
\<close>

section \<open>Reth's rebuild\<close>

text \<open>Reth's walk hands out chunks whose nodes that are not roots are those of \<open>es\<close>, and finds the root \<open>rt\<close>.\<close>

locale rebuild_mode = table_checks db rows position committed others committed_others env True N rt es h +
    reliable_walk db rows position committed others committed_others "env_walk env" chunks resume final
  for db :: "('d, 't, 'k) trie_db" and rows and position and committed and others and committed_others
    and env :: "('d, 't, 'k, 'st, 'w, 'h, 'p) bench_env" and chunks and resume and final and N and rt and es and h +
  assumes root_found: "final h = rt"
    and inserts_only: "\<forall>c \<in> set (chunks h None). no_removals (snd c)"
    and same_nodes: "mset (stored_events (chunk_events (chunks h None))) = mset (stored_events es)"

definition reports_rebuild :: "b256 \<Rightarrow> node_event list \<Rightarrow> report \<Rightarrow> bool" where
  "reports_rebuild rt es r \<longleftrightarrow>
     (\<exists>built el pk. r = Rebuild_Report built el pk \<and> rb_root built = rt \<and> rb_written built = length (stored_events es))"

context rebuild_mode
begin

lemma completes_rebuild_db:
  "completes (reached before (\<lambda>d. committed_others d = h) A) (rebuild_db env)
    (\<lambda>built s. (rb_root built = rt \<and> rb_written built = length (stored_events es)) \<and> reached before (holds env h es) A s)"
proof (rule specI)
  fix s :: "('d, 'h) bench" assume s: "reached before (\<lambda>d. committed_others d = h) A s"
  let ?ns = "stored_events (chunk_events (chunks h None))"
  have h: "committed_others (bench_db s) = h" using s by (simp add: reached_def)
  obtain d lg r where r: "reth_rebuild (env_rebuild_clock env) db (env_codec env) (env_walk env) None (bench_db s) = Some (d, lg, Ok r)"
      "committed d = encode_rows db (packed_of (env_codec env) h) (content_of ?ns)"
      "rb_root r = rt" "rb_written r = length ?ns"
    using reth_rebuild_nodes [of "bench_db s" None "env_rebuild_clock env" "env_codec env"] inserts_only root_found
    unfolding h by auto
  have "content_of (stored_events es) = content_of ?ns"
    using stored_keys same_nodes by (intro content_of_permute) simp_all
  then have db: "holds env h es d"
    using r(2) reth_rebuild_others [OF r(1)] h by (simp add: tables_hold_def)
  have len: "length ?ns = length (stored_events es)" by (rule mset_eq_length [OF same_nodes])
  let ?s = "s\<lparr>bench_db := d, bench_out := bench_out s @ map Rebuild_Line lg\<rparr>"
  have "reached before (\<lambda>d. committed_others d = h) (A \<union> {}) (?s\<lparr>bench_db := bench_db s\<rparr>)"
    by (rule reached_out [OF s]) simp_all
  then have "reached before (holds env h es) A ?s" using db by (simp add: reached_def)
  moreover have "rebuild_db env s = (Continue r, ?s)"
    using r(1) by (simp add: rebuild_db_def env_is andthen_def print_def expect_def)
  ultimately show "stops_with (\<lambda>_ _. False) (\<lambda>built s. (rb_root built = rt \<and> rb_written built = length (stored_events es)) \<and>
      reached before (holds env h es) A s) (rebuild_db env s)"
    using r(3,4) len by simp
qed

abbreviation "rebuild_lines \<equiv> {reports_rebuild rt es, reports_tables (env_hasher env) es, reports_walk rt}"

lemma completes_main_rebuild:
  assumes "expected_root args = None \<or> expected_root args = Some rt"
  shows "completes (reached before (\<lambda>d. committed_others d = h) A) (main_rebuild env args)
    (\<lambda>_. reached before (holds env h es) (A \<union> rebuild_lines))"
  unfolding main_rebuild_def
proof (rule spec_andthen [OF completes_read_tx_any], rule spec_andthen [OF completes_print_tip],
    rule completes_measured [OF completes_rebuild_db], goal_cases)
  case (1 _ _ built el pk)
  have print: "completes (reached before (holds env h es) A) (print [Rebuild_Report built el pk])
      (\<lambda>_. reached before (holds env h es) (A \<union> {reports_rebuild rt es}))"
    by (rule completes_print) (use 1 in \<open>simp add: reports_rebuild_def\<close>)
  have lines: "A \<union> rebuild_lines = A \<union> {reports_rebuild rt es} \<union> {reports_tables (env_hasher env) es} \<union> {reports_walk rt}"
    by blast
  have root: "rb_root built = rt" using 1 by simp
  show ?case
    unfolding lines root
    by (rule spec_andthen [OF print], rule spec_andthen [OF completes_check_root [OF assms]], rule completes_read_check)
qed

lemma forget_tables: "reached before (holds env h es) A s \<Longrightarrow> reached before (\<lambda>d. committed_others d = h) A s"
  by (simp add: reached_def tables_hold_def)

lemma main_rebuild_completes:
  assumes "expected_root args = None \<or> expected_root args = Some rt"
    and "reth_rebuild_flag args" and "\<not> write_flag args"
  shows "completes (reached before (\<lambda>d. committed_others d = h) {}) (main_with env args)
    (\<lambda>_. reached before (holds env h es) rebuild_lines)"
proof -
  have "main_with env args = andthen (runtime (env_runtime env) (threads args)) (\<lambda>n.
      andthen (opened env True (datadir args) ''open datadir db read-write'') (\<lambda>_.
      andthen (if_set (clear_flag args) (andthen (clear_tables env) (\<lambda>_. print [Trie_Tables_Cleared]))) (\<lambda>_.
      andthen (main_rebuild env args) (\<lambda>_. return ()))))"
    using assms(2,3) by (simp add: main_with_def writes_def if_set_def)
  then show ?thesis
    using completes_main_rebuild [OF assms(1), of _ "{}"]
    by (simp only: Un_empty_left) (rule spec_andthen [OF completes_runtime],
      rule spec_andthen [OF completes_opened], rule spec_andthen [OF completes_clear_flag], rule spec_andthen,
      assumption, rule spec_return)
qed

end

section \<open>Both builders in one run\<close>

locale compare_mode = write_mode db rows position committed others committed_others env rt es N h +
    rebuild_mode db rows position committed others committed_others env chunks resume final N rt es h
  for db :: "('d, 't, 'k) trie_db" and rows and position and committed and others and committed_others
    and env :: "('d, 't, 'k, 'st, 'w, 'h, 'p) bench_env" and chunks and resume and final and rt and es and N and h
begin

lemma main_compare_completes:
  assumes "expected_root args = None \<or> expected_root args = Some rt"
    and "reth_rebuild_flag args" and "write_flag args" and "repeat args \<noteq> 0"
  shows "completes (reached before (\<lambda>d. committed_others d = h) {}) (main_with env args)
    (\<lambda>_. reached before (holds env h es) (rebuild_lines \<union> (\<Union>i < unat (repeat args). run_lines (1 + i))))"
proof -
  have k: "unat (repeat args) \<noteq> 0" using assms(4) by (simp add: unat_eq_zero)
  have runs: "completes (reached before (\<lambda>d. committed_others d = h) rebuild_lines) (main_write env args n)
      (\<lambda>_. reached before (holds env h es) (rebuild_lines \<union> (\<Union>i < unat (repeat args). run_lines (1 + i))))" for n
    using completes_main_write [OF assms(1), of _ rebuild_lines] k by simp
  have main_write: "completes (reached before (holds env h es) rebuild_lines) (main_write env args n)
      (\<lambda>_. reached before (holds env h es) (rebuild_lines \<union> (\<Union>i < unat (repeat args). run_lines (1 + i))))" for n
    by (rule spec_pre [OF forget_tables runs])
  have main_rebuild: "completes (reached before (\<lambda>d. committed_others d = h) {}) (main_rebuild env args)
      (\<lambda>_. reached before (holds env h es) rebuild_lines)"
    using completes_main_rebuild [OF assms(1), of _ "{}"] by simp
  have "main_with env args = andthen (runtime (env_runtime env) (threads args)) (\<lambda>n.
      andthen (opened env True (datadir args) ''open datadir db read-write'') (\<lambda>_.
      andthen (if_set (clear_flag args) (andthen (clear_tables env) (\<lambda>_. print [Trie_Tables_Cleared]))) (\<lambda>_.
      andthen (main_rebuild env args) (\<lambda>_. main_write env args n))))"
    using assms(2,3) by (simp add: main_with_def writes_def if_set_def)
  then show ?thesis
    by (simp only:) (rule spec_andthen [OF completes_runtime], rule spec_andthen [OF completes_opened],
      rule spec_andthen [OF completes_clear_flag], rule spec_andthen [OF main_rebuild main_write])
qed

end

section \<open>The modes that read\<close>

locale read_mode = table_checks db rows position committed others committed_others env False N rt es h
  for db :: "('d, 't, 'k) trie_db" and rows and position and committed and others and committed_others
    and env :: "('d, 't, 'k, 'st, 'w, 'h, 'p) bench_env" and rt and es and N and h +
  assumes builds: "builds env rt es N"

definition reports_build :: "b256 \<Rightarrow> digest \<Rightarrow> nat \<Rightarrow> report \<Rightarrow> bool" where
  "reports_build rt d run r \<longleftrightarrow> (\<exists>w el pk. r = Build_Report run rt w d el pk)"

definition reports_serial :: "b256 \<Rightarrow> report \<Rightarrow> bool" where
  "reports_serial rt r \<longleftrightarrow> (\<exists>el pk. r = Serial_Report rt el pk)"

text \<open>A build into the digest.\<close>

lemma digest_takes_all: "takes_all (digest_emit hh) es x"
  by (simp add: takes_all_def digest_emit_def)

lemma feed_digest:
  assumes "calls_fit clk N calls" and "unat entries \<le> N" and "mset (concat (map called_node calls)) = mset es"
  shows "\<exists>sink. feed (digest_emit hh) calls (progress_new digest_default entries interval (clk i)) = (Returns (), sink) \<and>
    snapshot (ps_inner sink) = snapshot (fold (digest_on_branch_node hh) es digest_default)"
proof -
  let ?sink = "progress_new digest_default entries interval (clk i)" and ?ns = "concat (map called_node calls)"
  have "\<exists>sink. feed (digest_emit hh) calls ?sink = (Returns (), sink) \<and>
      ps_inner sink = fold (\<lambda>e x. snd (digest_emit hh e x)) ?ns (ps_inner ?sink)"
  proof (rule feed_calm)
    show "\<forall>t1 t2 t3 n. On_Progress (t1, t2, t3) n \<in> set calls \<longrightarrow>
        max (unat (ps_total ?sink)) 1 * (t3 - ps_started ?sink) < 2 ^ 58 * nanos_per_sec"
      using calls_fit_time [OF assms(1,2)] by (simp add: progress_new_def)
  qed (use assms(1) in \<open>simp_all add: progress_new_def calls_fit_def new_mutex_def digest_takes_all\<close>)
  moreover have "snapshot (fold (digest_on_branch_node hh) ?ns digest_default) = snapshot (fold (digest_on_branch_node hh) es digest_default)"
    by (rule digest_sink.order_irrelevant) (simp_all add: assms(3))
  ultimately show ?thesis by (auto simp: digest_emit_def progress_new_def)
qed

context read_mode
begin

abbreviation "unchanged before d0 \<equiv> reached before (\<lambda>d. d = d0)"
abbreviation "build_digest \<equiv> snapshot (fold (digest_on_branch_node (env_hasher env)) es digest_default)"

lemma completes_clock_reading:
  "completes (reached before D A) (read_clock env) (\<lambda>now s. (\<exists>i. now = env_clock env i) \<and> reached before D A s)"
proof (rule specI)
  fix s :: "('d, 'h) bench" assume s: "reached before D A s"
  have "reached before D A (snd (tick env s))" by (rule reached_same [OF s]) (simp_all add: tick_def)
  then show "stops_with (\<lambda>_ _. False) (\<lambda>now s. (\<exists>i. now = env_clock env i) \<and> reached before D A s) (read_clock env s)"
    by (auto simp: read_clock_def andthen_def return_def tick_def)
qed

lemma completes_read_tx_of:
  "completes (unchanged before d0 A) (read_tx env)
    (\<lambda>t s. (rows t = committed d0 \<and> others t = committed_others d0) \<and> unchanged before d0 A s)"
  by (rule spec_post [OF completes_read_tx]) (simp add: reached_def)

lemma completes_run_digest:
  assumes "unat entries \<le> N" and now: "\<exists>i. now = env_clock env i"
  shows "completes (unchanged before d0 A)
    (run_build env n run (digest_emit (env_hasher env)) (\<lambda>_ d. d) (progress_new digest_default entries progress_interval now))
    (\<lambda>x s. (fst x = rt \<and> snapshot (sink_inner (snd x)) = build_digest) \<and> unchanged before d0 A s)"
proof (rule specI)
  fix s :: "('d, 'h) bench" assume s: "unchanged before d0 A s"
  obtain i where i: "now = env_clock env i" using now by blast
  obtain t where t: "db_tx db (bench_db s) = Ok t" using tx_succeeds by blast
  obtain calls where build: "env_build env n run (source_provider_ro db (env_prune_modes env) (bench_db s)) = (calls, Ok rt)"
      and calls: "mset (concat (map called_node calls)) = mset es" and fit: "calls_fit (env_clock env) N calls"
    using builds t unfolding builds_def source_provider_ro_def by fastforce
  obtain sink where sink: "feed (digest_emit (env_hasher env)) calls
        (progress_new digest_default entries progress_interval now) = (Returns (), sink)"
      "snapshot (ps_inner sink) = build_digest"
    using feed_digest [OF fit assms(1) calls, of "env_hasher env"] unfolding i by blast
  let ?s = "s\<lparr>bench_out := bench_out s @ map (\<lambda>l. Progress_Line (snd l)) (ps_lines sink)\<rparr>"
  have "unchanged before d0 (A \<union> {}) ?s" by (rule reached_out [OF s]) simp_all
  moreover have "run_build env n run (digest_emit (env_hasher env)) (\<lambda>_ d. d)
      (progress_new digest_default entries progress_interval now) s = (Continue (rt, sink), ?s)"
    by (simp add: run_build_def root_with_sink_def env_is build sink(1))
  ultimately show "stops_with (\<lambda>_ _. False) (\<lambda>x s. (fst x = rt \<and> snapshot (sink_inner (snd x)) = build_digest) \<and>
      unchanged before d0 A s) (run_build env n run (digest_emit (env_hasher env)) (\<lambda>_ d. d)
      (progress_new digest_default entries progress_interval now) s)"
    using sink(2) by (simp add: sink_inner_def)
qed

lemma completes_digest_run:
  assumes "expected_root args = None \<or> expected_root args = Some rt" and "unat entries \<le> N"
  shows "completes (unchanged before d0 A) (digest_run env args n entries run)
    (\<lambda>_. unchanged before d0 (A \<union> {reports_build rt build_digest run}))"
  unfolding digest_run_def
proof (rule spec_andthen [OF completes_clock_reading], rule spec_fact,
    rule completes_measured [OF completes_run_digest [OF assms(2)]], goal_cases)
  case (2 now x el pk)
  obtain sink where x: "x = (rt, sink)" "snapshot (sink_inner sink) = build_digest" using 2 by (cases x) auto
  have print: "completes (unchanged before d0 A) (print [Build_Report run rt (walked sink) (snapshot (sink_inner sink)) el pk])
      (\<lambda>_. unchanged before d0 (A \<union> {reports_build rt build_digest run}))"
    by (rule completes_print) (simp add: reports_build_def x(2))
  show ?case unfolding x(1) prod.case by (rule spec_andthen [OF print completes_check_root [OF assms(1)]])
qed

definition read_lines :: "bench_args \<Rightarrow> (report \<Rightarrow> bool) set" where
  "read_lines args = (if digest_flag args then {reports_tables (env_hasher env) es}
     else if reth_serial_flag args then {reports_serial rt}
     else \<Union>i < unat (repeat args). {reports_build rt build_digest (1 + i)})"

lemma completes_main_read:
  assumes "expected_root args = None \<or> expected_root args = Some rt"
    and tables: "digest_flag args \<or> reth_serial_flag args \<longrightarrow>
      committed d0 = encode_rows db (packed_of (env_codec env) h) (content_of (stored_events es)) \<and> committed_others d0 = h"
  shows "completes (unchanged before d0 {}) (main_read env args n) (\<lambda>_. unchanged before d0 (read_lines args))"
  unfolding main_read_def
proof (rule spec_andthen [OF completes_read_tx_of], rule spec_fact, rule spec_andthen [OF completes_print_tip],
    rule spec_andthen [OF completes_print_any], goal_cases)
  case (1 t _ _)
  consider (digest) "digest_flag args" | (serial) "\<not> digest_flag args" "reth_serial_flag args"
    | (build) "\<not> digest_flag args" "\<not> reth_serial_flag args" by blast
  then show ?case
  proof cases
    case digest
    then have "rows t = encode_rows db (packed_of (env_codec env) h) (content_of (stored_events es))" "others t = h"
      using 1 tables by simp_all
    from completes_print_digest [OF this, of before "\<lambda>d. d = d0" "{}"] show ?thesis using digest by (simp add: read_lines_def)
  next
    case serial
    then have rows: "rows t = encode_rows db (packed_of (env_codec env) h) (content_of (stored_events es))" "others t = h"
      using 1 tables by simp_all
    have "completes (unchanged before d0 {}) (measured env (return rt) (\<lambda>rt elapsed peak.
        andthen (print [Serial_Report rt elapsed peak]) (\<lambda>_. check_root rt (expected_root args) ''reth serial'')))
        (\<lambda>_. unchanged before d0 {reports_serial rt})"
    proof (rule completes_measured [where X = "\<lambda>x. x = rt" and D' = "\<lambda>d. d = d0" and A' = "{}"], goal_cases)
      case 1
      show ?case by (rule spec_return) simp
    next
      case (2 x el pk)
      have "completes (unchanged before d0 {}) (print [Serial_Report rt el pk]) (\<lambda>_. unchanged before d0 ({} \<union> {reports_serial rt}))"
        by (rule completes_print) (simp add: reports_serial_def)
      then show ?case unfolding 2 Un_empty_left by (rule spec_andthen [OF _ completes_check_root [OF assms(1)]])
    qed
    then show ?thesis using serial by (simp add: read_lines_def serial_root_found [OF rows])
  next
    case build
    let ?k = "unat (repeat args)"
    let ?P = "\<lambda>i. unchanged before d0 (\<Union>j < i. {reports_build rt build_digest (1 + j)})"
    have runs: "completes (?P 0) (for_runs (digest_run env args n entries) 1 ?k) (\<lambda>_. ?P ?k)" if "unat entries \<le> N" for entries
    proof (rule completes_for_runs [where P = ?P])
      fix i
      have lines: "(\<Union>j < Suc i. {reports_build rt build_digest (1 + j)}) =
          (\<Union>j < i. {reports_build rt build_digest (1 + j)}) \<union> {reports_build rt build_digest (1 + i)}"
        by (simp only: lessThan_Suc UN_insert) blast
      show "completes (?P i) (digest_run env args n entries (1 + i)) (\<lambda>_. ?P (Suc i))"
        unfolding lines by (rule completes_digest_run [OF assms(1) that])
    qed
    have "completes (?P 0) (andthen (hashed_entries env t) (\<lambda>entries. andthen (print [Hashed_Entries entries]) (\<lambda>_.
        for_runs (digest_run env args n entries) 1 ?k))) (\<lambda>_. ?P ?k)"
      by (rule spec_andthen [OF completes_hashed_entries], rule spec_fact, rule spec_andthen [OF completes_print_any runs])
    then show ?thesis using build by (simp add: read_lines_def)
  qed
qed

lemma main_read_completes:
  assumes "expected_root args = None \<or> expected_root args = Some rt" and "\<not> writes args"
    and "digest_flag args \<or> reth_serial_flag args \<longrightarrow>
      committed d0 = encode_rows db (packed_of (env_codec env) h) (content_of (stored_events es)) \<and> committed_others d0 = h"
  shows "completes (unchanged before d0 {}) (main_with env args) (\<lambda>_. unchanged before d0 (read_lines args))"
proof -
  have "main_with env args = andthen (runtime (env_runtime env) (threads args)) (\<lambda>n.
      andthen (opened env False (datadir args) ''open datadir db read-only'') (\<lambda>_. main_read env args n))"
    using assms(2) by (simp add: main_with_def)
  then show ?thesis
    by (simp only:) (rule spec_andthen [OF completes_runtime], rule spec_andthen [OF completes_opened],
      rule completes_main_read [OF assms(1,3)])
qed

end

section \<open>Properties\<close>

text \<open>
  C2: A run with \<^verbatim>\<open>--reth-rebuild\<close>, alone or with \<^verbatim>\<open>--write\<close>, compares the two builders. On a database and a walk
  that do not fail, when reth's chunks insert the nodes \<open>es\<close> that the generator emits, the run ends normally,
  whatever the tables held before. Reth's rebuild and every run of the generator report the same root and the
  same number of nodes written, the digest printed of the tables is that of these nodes, reth's walk over
  them finds the root, and the tables hold exactly these nodes in the end.
\<close>

theorem rebuild_mode_end_to_end:
  assumes mode: "compare_mode db rows position committed others committed_others env chunks resume final rt es N
      (committed_others (bench_db s))"
    and parsed: "parse_args (env_parse_b256 env) argv = Ok args"
    and flags: "reth_rebuild_flag args" "repeat args \<noteq> 0"
    and root: "expected_root args = None \<or> expected_root args = Some rt"
  shows "\<exists>s' out. main env argv s = (Continue (), s') \<and>
    committed (bench_db s') = encode_rows db (packed_of (env_codec env) (committed_others (bench_db s)))
      (content_of (stored_events es)) \<and>
    committed_others (bench_db s') = committed_others (bench_db s) \<and> bench_out s' = bench_out s @ out \<and>
    (\<exists>built el pk. Rebuild_Report built el pk \<in> set out \<and> rb_root built = rt \<and> rb_written built = length (stored_events es)) \<and>
    (write_flag args \<longrightarrow> (\<forall>i < unat (repeat args). \<exists>w wr el pk. Write_Report (1 + i) rt w wr el pk \<in> set out \<and>
      wr_nodes wr = length (stored_events es))) \<and>
    (\<exists>el. Tables_Report (events_summary (env_hasher env) (stored_events es)) el \<in> set out) \<and>
    (\<exists>el. Walked_Root rt el \<in> set out)"
proof -
  let ?h = "committed_others (bench_db s)" and ?k = "unat (repeat args)"
  let ?rebuild = "{reports_rebuild rt es, reports_tables (env_hasher env) es, reports_walk rt}"
  let ?run = "\<lambda>run. {reports_run rt es run, reports_tables (env_hasher env) es, reports_walk rt}"
  let ?lines = "?rebuild \<union> (if write_flag args then \<Union>i < ?k. ?run (1 + i) else {})"
  have start: "reached (bench_out s) (\<lambda>d. committed_others d = ?h) {} s" by (simp add: reached_def)
  have "completes (reached (bench_out s) (\<lambda>d. committed_others d = ?h) {}) (main_with env args)
      (\<lambda>_. reached (bench_out s) (tables_hold db committed committed_others (packed_of (env_codec env) ?h) ?h es) ?lines)"
  proof (cases "write_flag args")
    case True
    then show ?thesis using compare_mode.main_compare_completes [OF mode root flags(1) True flags(2)] by simp
  next
    case False
    have "rebuild_mode db rows position committed others committed_others env chunks resume final N rt es ?h"
      using mode by (simp add: compare_mode_def)
    from rebuild_mode.main_rebuild_completes [OF this root flags(1) False] show ?thesis using False by simp
  qed
  from completesD [OF this start] obtain s' where run: "main_with env args s = (Continue (), s')"
      and s': "reached (bench_out s) (tables_hold db committed committed_others (packed_of (env_codec env) ?h) ?h es) ?lines s'"
    by auto
  obtain out where out: "bench_out s' = bench_out s @ out" and lines: "\<And>k. k \<in> ?lines \<Longrightarrow> \<exists>r \<in> set out. k r"
    using s' unfolding reached_def by blast
  have "\<exists>w wr el pk. Write_Report (1 + i) rt w wr el pk \<in> set out \<and> wr_nodes wr = length (stored_events es)"
    if "write_flag args" "i < ?k" for i
  proof -
    have "reports_run rt es (1 + i) \<in> ?lines" using that by auto
    from lines [OF this] show ?thesis unfolding reports_run_def by blast
  qed
  moreover have "\<exists>built el pk. Rebuild_Report built el pk \<in> set out \<and> rb_root built = rt \<and> rb_written built = length (stored_events es)"
    using lines [of "reports_rebuild rt es"] unfolding reports_rebuild_def by blast
  moreover have "\<exists>el. Tables_Report (events_summary (env_hasher env) (stored_events es)) el \<in> set out"
    using lines [of "reports_tables (env_hasher env) es"] unfolding reports_tables_def by blast
  moreover have "\<exists>el. Walked_Root rt el \<in> set out"
    using lines [of "reports_walk rt"] unfolding reports_walk_def by blast
  ultimately show ?thesis using run parsed out s' by (simp add: main_def reached_def tables_hold_def)
qed

text \<open>
  C4: The three modes that read report what can be compared. They end normally and leave the database as
  it is; every run of the generator reports its root and the digest of the nodes it emits, in whatever
  order it emits them; over tables that hold these nodes, as far as they are not roots, \<^verbatim>\<open>--digest-trie-tables\<close>
  prints the digest of the nodes held, and \<^verbatim>\<open>--reth-serial\<close> reports the same root.
\<close>

theorem read_modes_agree:
  assumes mode: "read_mode db rows position committed others committed_others env rt es N (committed_others (bench_db s))"
    and parsed: "parse_args (env_parse_b256 env) argv = Ok args"
    and flags: "\<not> writes args"
    and root: "expected_root args = None \<or> expected_root args = Some rt"
    and tables: "digest_flag args \<or> reth_serial_flag args \<longrightarrow> committed (bench_db s) =
      encode_rows db (packed_of (env_codec env) (committed_others (bench_db s))) (content_of (stored_events es))"
  shows "\<exists>s' out. main env argv s = (Continue (), s') \<and> bench_db s' = bench_db s \<and> bench_out s' = bench_out s @ out \<and>
    (if digest_flag args then \<exists>r el. Tables_Report r el \<in> set out \<and>
        tt_digest r = snapshot (fold (digest_on_branch_node (env_hasher env)) (stored_events es) digest_default)
     else if reth_serial_flag args then \<exists>el pk. Serial_Report rt el pk \<in> set out
     else \<forall>i < unat (repeat args). \<exists>w el pk. Build_Report (1 + i) rt w
        (snapshot (fold (digest_on_branch_node (env_hasher env)) es digest_default)) el pk \<in> set out)"
proof -
  let ?lines = "read_mode.read_lines env rt es args"
  have lines_def: "?lines = (if digest_flag args then {reports_tables (env_hasher env) es}
     else if reth_serial_flag args then {reports_serial rt} else \<Union>i < unat (repeat args).
       {reports_build rt (snapshot (fold (digest_on_branch_node (env_hasher env)) es digest_default)) (1 + i)})"
    by (rule read_mode.read_lines_def [OF mode])
  have start: "reached (bench_out s) (\<lambda>d. d = bench_db s) {} s" by (simp add: reached_def)
  from completesD [OF read_mode.main_read_completes [OF mode root flags] start] tables
  obtain s' where run: "main_with env args s = (Continue (), s')" and s': "reached (bench_out s) (\<lambda>d. d = bench_db s) ?lines s'"
    by auto
  obtain out where out: "bench_out s' = bench_out s @ out" and lines: "\<And>k. k \<in> ?lines \<Longrightarrow> \<exists>r \<in> set out. k r"
    using s' unfolding reached_def by blast
  have "if digest_flag args then \<exists>r el. Tables_Report r el \<in> set out \<and>
        tt_digest r = snapshot (fold (digest_on_branch_node (env_hasher env)) (stored_events es) digest_default)
     else if reth_serial_flag args then \<exists>el pk. Serial_Report rt el pk \<in> set out
     else \<forall>i < unat (repeat args). \<exists>w el pk. Build_Report (1 + i) rt w
        (snapshot (fold (digest_on_branch_node (env_hasher env)) es digest_default)) el pk \<in> set out"
  proof -
    consider (digest) "digest_flag args" | (serial) "\<not> digest_flag args" "reth_serial_flag args"
      | (build) "\<not> digest_flag args" "\<not> reth_serial_flag args" by blast
    then show ?thesis
    proof cases
      case digest
      then obtain r where "r \<in> set out" "reports_tables (env_hasher env) es r"
        using lines [of "reports_tables (env_hasher env) es"] unfolding lines_def by auto
      moreover have "tt_digest (events_summary (env_hasher env) (stored_events es)) =
          snapshot (fold (digest_on_branch_node (env_hasher env)) (stored_events es) digest_default)"
        by (simp add: events_summary_def digest_on_branch_node_def [abs_def])
      ultimately show ?thesis using digest unfolding reports_tables_def by auto
    next
      case serial
      then obtain r where "r \<in> set out" "reports_serial rt r"
        using lines [of "reports_serial rt"] unfolding lines_def by auto
      then show ?thesis using serial unfolding reports_serial_def by auto
    next
      case build
      have "\<exists>r \<in> set out. reports_build rt (snapshot (fold (digest_on_branch_node (env_hasher env)) es digest_default)) (1 + i) r"
        if "i < unat (repeat args)" for i
        using build that by (intro lines) (simp only: lines_def if_False, blast)
      then show ?thesis using build unfolding reports_build_def by (simp only: if_False) blast
    qed
  qed
  then show ?thesis using run parsed out s' by (simp add: main_def reached_def)
qed

section \<open>Samples\<close>

text \<open>A walk that hands out the sample's update set, and a build that emits its nodes in the other order.\<close>

definition sample_nodes :: "node_event list" where
  "sample_nodes = updates_events sample_updates"

definition compare_env :: "(ref_tables, ref_tables, ref_key, bool, nat, bump_heap, unit) bench_env" where
  "compare_env = sample_env\<lparr>env_walk := scripted_walk 9 [(4, sample_updates)],
     env_build := (\<lambda>n run p. (map On_Node (rev sample_nodes), Ok 9))\<rparr>"

lemma compare_env_simps [simp]:
  "env_db compare_env = ref_db" "env_codec compare_env = flag_codec" "env_walk compare_env = scripted_walk 9 [(4, sample_updates)]"
  "env_schedule compare_env = concat" "env_runtime compare_env c = Ok 2" "env_open compare_env rw dir d = Ok ()"
  "env_tip compare_env t = Ok None" "env_accounts compare_env t = Ok 2" "env_storages compare_env t = Ok 2"
  "env_build compare_env n run p = (map On_Node (rev sample_nodes), Ok 9)" "env_hasher compare_env = sample_hasher"
  "env_parse_b256 compare_env = env_parse_b256 sample_env"
  by (simp_all add: compare_env_def)

lemma sample_chunks: "script_chunks [(4, sample_updates)] = [(4, sample_updates)]"
  by (simp add: script_chunks_def sample_updates_wf)

lemma sample_nodes_distinct: "distinct (map event_key sample_nodes)"
  by (simp add: sample_nodes_def distinct_updates_events sample_updates_wf)

lemma compare_builds: "builds compare_env 9 sample_nodes 4"
proof -
  have "concat (map called_node (map On_Node es)) = es" for es by (induction es) simp_all
  then show ?thesis
    using sample_nodes_distinct by (auto simp: builds_def calls_fit_def comp_def map_replicate_const sum_list_replicate)
qed

lemma compare_write: "write_mode ref_db ref_lookup ref_position ref_lookup ref_others ref_others compare_env 9 sample_nodes 4 h"
  by unfold_locales (auto simp: compare_builds sample_nodes_distinct fair_concat scripted_walk_def)

interpretation sample_rebuild: rebuild_mode ref_db ref_lookup ref_position ref_lookup ref_others ref_others compare_env
    "\<lambda>_ _. script_chunks [(4, sample_updates)]" "\<lambda>_ _. script_resume" "\<lambda>_. 9" 4 9 sample_nodes h
proof (intro rebuild_mode.intro)
  show "table_checks ref_db ref_lookup ref_position ref_lookup ref_others ref_others compare_env True 4 9 sample_nodes h"
    using compare_write by (simp add: write_mode_def)
  show "reliable_walk ref_db ref_lookup ref_position ref_lookup ref_others ref_others (env_walk compare_env)
      (\<lambda>_ _. script_chunks [(4, sample_updates)]) (\<lambda>_ _. script_resume) (\<lambda>_. 9)"
    unfolding compare_env_simps by (rule script.reliable_walk_axioms)
  show "rebuild_mode_axioms (\<lambda>_ _. script_chunks [(4, sample_updates)]) (\<lambda>_. 9) 9 sample_nodes h"
    by (simp add: rebuild_mode_axioms_def sample_chunks sample_updates_wf chunk_events_def sample_nodes_def)
qed

interpretation sample_compare: compare_mode ref_db ref_lookup ref_position ref_lookup ref_others ref_others compare_env
    "\<lambda>_ _. script_chunks [(4, sample_updates)]" "\<lambda>_ _. script_resume" "\<lambda>_. 9" 9 sample_nodes 4 h
  by (intro compare_mode.intro compare_write sample_rebuild.rebuild_mode_axioms)

interpretation sample_read: read_mode ref_db ref_lookup ref_position ref_lookup ref_others ref_others compare_env 9 sample_nodes 4 h
  by unfold_locales (auto simp: compare_builds sample_nodes_distinct fair_concat scripted_walk_def)

theorem rebuild_mode_end_to_end_witness:
  "\<exists>s' built el pk w wr el' pk'. main compare_env [''--datadir'', ''d'', ''--reth-rebuild'', ''--write''] sample_bench = (Continue (), s') \<and>
     ref_lookup (bench_db s') = encode_rows ref_db True (content_of (stored_events sample_nodes)) \<and>
     Rebuild_Report built el pk \<in> set (bench_out s') \<and> Write_Report 1 9 w wr el' pk' \<in> set (bench_out s') \<and>
     rb_written built = length (stored_events sample_nodes) \<and> wr_nodes wr = length (stored_events sample_nodes)"
proof -
  let ?args = "args_default\<lparr>datadir := ''d'', reth_rebuild_flag := True, write_flag := True\<rparr>"
  have parsed: "parse_args (env_parse_b256 compare_env) [''--datadir'', ''d'', ''--reth-rebuild'', ''--write''] = Ok ?args"
    by (simp add: parse_args_def parse_flag_def flag_value_def parsed_def args_default_def)
  have flags: "reth_rebuild_flag ?args" "repeat ?args \<noteq> 0" "write_flag ?args" "expected_root ?args = None \<or> expected_root ?args = Some 9"
      "unat (repeat ?args) = 1"
    by (simp_all add: args_default_def)
  have "bench_out sample_bench = []" "packed_of flag_codec (ref_others (bench_db sample_bench)) = True"
    by (simp_all add: sample_bench_def)
  then show ?thesis
    using rebuild_mode_end_to_end [OF sample_compare.compare_mode_axioms parsed flags(1,2,4), of sample_bench] flags(3,5)
    by (auto dest!: spec [of _ 0]) blast
qed

theorem read_modes_agree_witness:
  "\<exists>s' w el pk. main compare_env [''--datadir'', ''d''] sample_bench = (Continue (), s') \<and> Build_Report 1 9 w
     (snapshot (fold (digest_on_branch_node sample_hasher) sample_nodes digest_default)) el pk \<in> set (bench_out s')"
proof -
  let ?args = "args_default\<lparr>datadir := ''d''\<rparr>"
  have parsed: "parse_args (env_parse_b256 compare_env) [''--datadir'', ''d''] = Ok ?args"
    by (simp add: parse_args_def parse_flag_def flag_value_def parsed_def args_default_def)
  have flags: "\<not> writes ?args" "expected_root ?args = None \<or> expected_root ?args = Some 9" "\<not> digest_flag ?args"
      "\<not> reth_serial_flag ?args" "unat (repeat ?args) = 1"
    by (simp_all add: args_default_def writes_def)
  have "bench_out sample_bench = []" by (simp add: sample_bench_def)
  then show ?thesis
    using read_modes_agree [OF sample_read.read_mode_axioms parsed flags(1,2), of sample_bench] flags(3-5)
    by (auto dest!: spec [of _ 0])
qed

end
