(* ===== verification/Sink_Parity.thy ===== *)
theory Sink_Parity
  imports Write_Sink Updates_Sink Table_Digest
begin

text \<open>
  The two ways a build's nodes reach the tables: collected into an update set that is written in one
  transaction (the sink of the tests and small runs), or through the chunk writer (the sink of a
  large run). Both leave the same rows.
\<close>

lemma no_removals_emit:
  assumes "\<forall>m \<in> set s. no_removals (guarded m)" and "updates_on_branch_node debug e s = (s', r)"
  shows "\<forall>m \<in> set s'. no_removals (guarded m)"
proof (cases "shard_of e")
  case (Panics msg)
  then show ?thesis using assms by (simp add: updates_on_branch_node_def)
next
  case (Returns i)
  have all: "\<forall>m \<in> set (s[i := m']). no_removals (guarded m)" if "i < length s \<Longrightarrow> no_removals (guarded m')" for m'
    using that assms(1) set_update_subset_insert [of s i m'] by (cases "i < length s") (auto simp: list_update_beyond)
  have "no_removals (updates_insert e (guarded (s ! i)))" if "i < length s"
    using that assms(1) by (simp add: no_removals_insert)
  then show ?thesis
    using assms Returns by (auto simp: updates_on_branch_node_def Let_def split: if_splits dest: all [rule_format, rotated])
qed

lemma no_removals_emit_all:
  "\<forall>m \<in> set s. no_removals (guarded m) \<Longrightarrow> emit_all debug es s = (s', r) \<Longrightarrow> \<forall>m \<in> set s'. no_removals (guarded m)"
proof (induction es arbitrary: s)
  case Nil
  then show ?case by simp
next
  case (Cons e es)
  obtain s1 r1 where e: "updates_on_branch_node debug e s = (s1, r1)" by fastforce
  note s1 = no_removals_emit [OF Cons.prems(1) e]
  show ?case using Cons.prems(2) e s1 Cons.IH [OF s1] by (cases r1) auto
qed

lemma set_hm_extend: "set (hm_extend xs ys) \<subseteq> set xs \<union> set ys"
proof (induction ys arbitrary: xs)
  case Nil
  then show ?case by (simp add: hm_extend_def)
next
  case (Cons y ys)
  have "hm_extend xs (y # ys) = hm_extend (hm_insert (fst y) (snd y) xs) ys" by (simp add: hm_extend_def case_prod_unfold)
  then show ?case using Cons [of "hm_insert (fst y) (snd y) xs"] set_hm_insert [of "fst y" "snd y" xs] by auto
qed

lemma no_removals_merge:
  "no_removals u \<Longrightarrow> \<forall>m \<in> set ms. no_removals (guarded m) \<Longrightarrow> merge_shards u ms = Returns r \<Longrightarrow> no_removals r"
proof (induction ms arbitrary: u)
  case Nil
  then show ?case by simp
next
  case (Cons m ms)
  let ?u = "u\<lparr>account_nodes := hm_extend (account_nodes u) (account_nodes (guarded m)),
              storage_tries := hm_extend (storage_tries u) (storage_tries (guarded m))\<rparr>"
  have "no_removals ?u"
    using Cons.prems(1,2) set_hm_extend [of "storage_tries u" "storage_tries (guarded m)"]
    by (auto simp: no_removals_def)
  then show ?case using Cons.IH Cons.prems(2,3) by (auto split: if_splits)
qed

lemma collected_no_removals:
  assumes "emit_all debug es updates_sink_default = (s, r)" and "into_trie_updates s = Returns u"
  shows "no_removals u"
proof (rule no_removals_merge [OF _ _ assms(2) [unfolded into_trie_updates_def]])
  show start: "no_removals default_updates" by (simp add: no_removals_def default_updates_def)
  show "\<forall>m \<in> set s. no_removals (guarded m)"
    by (rule no_removals_emit_all [OF _ assms(1)]) (simp add: updates_sink_default_def start)
qed

context reliable_store
begin

lemma write_trie_updates_succeeds: "\<exists>d' w. write_trie_updates db codec u d = (d', Ok w)"
  unfolding write_trie_updates_def
proof (rule in_tx_succeeds)
  fix t
  obtain w t' where "write_trie_updates_with db (packed_of codec (others t)) u t = Ok (w, t')"
    using write_trie_updates_with_succeeds by blast
  then show "\<exists>r t'. rbind (uses_packed_trie_keys db codec t) (\<lambda>packed. write_trie_updates_with db packed u t) = Ok (r, t')"
    by (simp add: uses_packed_succeeds)
qed

text \<open>Writing a collected update set to empty tables.\<close>

lemma write_collected:
  assumes "updates_wf u" and "no_removals u" and "updates_lookup u = content_of es" and "distinct (map event_key es)"
    and "committed d = Map.empty"
  shows "\<exists>d'. write_trie_updates db codec u d = (d', Ok (length (stored_events es))) \<and>
    committed d' = encode_rows db (packed_of codec (committed_others d)) (content_of (stored_events es))"
proof -
  obtain d' w where run: "write_trie_updates db codec u d = (d', Ok w)" using write_trie_updates_succeeds by blast
  have "committed d = encode_rows db (packed_of codec (committed_others d)) Map.empty" using assms(5) by simp
  note res = write_trie_updates_result [OF assms(1) run this]
  have "mset (updates_events u) = mset es"
    by (rule mset_events_of_lookup) (use assms in simp_all)
  then have "length (stored_events (updates_events u)) = length (stored_events es)"
    unfolding stored_events_def by (rule length_filter_mset)
  then show ?thesis
    using run res assms(2,3) by (simp add: apply_updates_inserts without_roots_content)
qed

end

section \<open>The contract of a delivery\<close>

text \<open>
  A way to bring nodes into empty tables. Its clients get that the order does not matter, what the
  digest of the tables is afterwards, and that two ways leave the same tables.
\<close>

locale node_delivery = reliable_store db rows position committed others committed_others
  for db :: "('d, 't, 'k) trie_db" and rows and position and committed and others and committed_others +
  fixes codec :: "'st settings_codec"
    and deliver :: "node_event list \<Rightarrow> 'd \<Rightarrow> ('d \<times> (db_error + nat)) option"
    and accepts :: "node_event \<Rightarrow> bool"
  assumes delivers: "(\<forall>e \<in> set es. accepts e) \<Longrightarrow> distinct (map event_key es) \<Longrightarrow> committed d = Map.empty \<Longrightarrow>
    \<exists>d'. deliver es d = Some (d', Ok (length (stored_events es))) \<and> committed_others d' = committed_others d \<and>
      committed d' = encode_rows db (packed_of codec (committed_others d)) (content_of (stored_events es))"
begin

lemma delivers_any_order:
  assumes "\<forall>e \<in> set es. accepts e" and "distinct (map event_key es)" and "committed d = Map.empty" and "mset fs = mset es"
  shows "\<exists>d'. deliver fs d = Some (d', Ok (length (stored_events es))) \<and> committed_others d' = committed_others d \<and>
    committed d' = encode_rows db (packed_of codec (committed_others d)) (content_of (stored_events es))"
proof -
  have keys: "distinct (map event_key fs)" using assms(2,4) by (metis mset_eq_imp_distinct_iff mset_map)
  have perm: "mset (stored_events fs) = mset (stored_events es)"
    unfolding stored_events_def mset_filter assms(4) ..
  have "content_of (stored_events fs) = content_of (stored_events es)" "length (stored_events fs) = length (stored_events es)"
    using content_of_permute [OF _ perm] distinct_map_filter [OF keys] perm mset_eq_length unfolding stored_events_def by blast+
  moreover have "\<forall>e \<in> set fs. accepts e" using assms(1) mset_eq_setD [OF assms(4)] by simp
  ultimately show ?thesis using delivers [OF _ keys assms(3)] by metis
qed

lemma delivered_digest:
  assumes "\<forall>e \<in> set es. accepts e" and "distinct (map event_key es)" and "committed d = Map.empty" and "mset fs = mset es"
    and "deliver fs d = Some (d', Ok w)" and "db_tx db d' = Ok t" and "fair_schedule schedule"
  shows "digest_trie_tables db codec h schedule t = Ok (events_summary h (stored_events es))"
proof -
  obtain r where r: "digest_trie_tables db codec h schedule t = Ok r" using digest_trie_tables_succeeds by blast
  have "committed_others d' = committed_others d"
      "committed d' = encode_rows db (packed_of codec (committed_others d)) (content_of (stored_events es))"
    using delivers_any_order [OF assms(1-4)] assms(5) by auto
  moreover have "rows t = committed d'" "others t = committed_others d'"
    using tx_rows [OF assms(6)] tx_others [OF assms(6)] by simp_all
  moreover have "distinct (map event_key (stored_events es))"
    unfolding stored_events_def by (rule distinct_map_filter [OF assms(2)])
  ultimately have "r = events_summary h (stored_events es)"
    by (intro digest_trie_tables_summary [OF r assms(7)]) simp_all
  then show ?thesis using r by simp
qed

end

text \<open>The two deliveries.\<close>

definition deliver_collected :: "('d, 't, 'k) trie_db \<Rightarrow> 'st settings_codec \<Rightarrow> bool \<Rightarrow> node_event list \<Rightarrow> 'd \<Rightarrow>
    ('d \<times> (db_error + nat)) option" where
  "deliver_collected db codec debug es d = (case emit_all debug es updates_sink_default of
     (s, Panics msg) \<Rightarrow> None
   | (s, Returns _) \<Rightarrow> (case into_trie_updates s of
       Panics msg \<Rightarrow> None
     | Returns u \<Rightarrow> Some (write_trie_updates db codec u d)))"

definition deliver_chunked :: "('d, 't, 'k) trie_db \<Rightarrow> 'st settings_codec \<Rightarrow> bool \<Rightarrow> nat \<Rightarrow> node_event list \<Rightarrow> 'd \<Rightarrow>
    ('d \<times> (db_error + nat)) option" where
  "deliver_chunked db codec debug n es d = (case new_write_sink db codec d n [] of
     Err e \<Rightarrow> Some (d, Err e)
   | Ok (packed, c, _) \<Rightarrow> (case write_chunks db packed debug c es d of
       Ended d' (Returns r) \<Rightarrow> Some (d', rbind r (\<lambda>wr. Ok (wr_nodes wr)))
     | _ \<Rightarrow> None))"

sublocale reliable_store \<subseteq> collected: node_delivery db rows position committed others committed_others codec
    "deliver_collected db codec debug" storable for codec debug
proof unfold_locales
  fix es :: "node_event list" and d
  assume a: "\<forall>e \<in> set es. storable e" "distinct (map event_key es)" "committed d = Map.empty"
  obtain s where s: "emit_all debug es updates_sink_default = (s, Returns ())" "sink_ok s" "unpoisoned s"
      and lk: "sink_lookup s = content_of es"
    using emit_all_ok [of updates_sink_default es debug] a(1,2) by auto
  obtain u where u: "into_trie_updates s = Returns u" "updates_wf u" "updates_lookup u = content_of es"
    using merged_content [OF s(2,3)] lk by auto
  obtain d' where "write_trie_updates db codec u d = (d', Ok (length (stored_events es)))"
      "committed d' = encode_rows db (packed_of codec (committed_others d)) (content_of (stored_events es))"
    using write_collected [OF u(2) collected_no_removals [OF s(1) u(1)] u(3) a(2,3)] by blast
  moreover from this(1) have "committed_others d' = committed_others d"
    using write_trie_updates_result [OF u(2), of codec d d' _ Map.empty] a(3) by simp
  ultimately show "\<exists>d'. deliver_collected db codec debug es d = Some (d', Ok (length (stored_events es))) \<and>
      committed_others d' = committed_others d \<and>
      committed d' = encode_rows db (packed_of codec (committed_others d)) (content_of (stored_events es))"
    using s(1) u(1) by (simp add: deliver_collected_def)
qed

sublocale reliable_store \<subseteq> chunked: node_delivery db rows position committed others committed_others codec
    "deliver_chunked db codec debug n" "\<lambda>_. True" for codec debug n
proof unfold_locales
  fix es :: "node_event list" and d
  assume a: "distinct (map event_key es)" "committed d = Map.empty"
  let ?p = "packed_of codec (committed_others d)"
  have "committed d = encode_rows db ?p Map.empty" "0 < max n 1" using a(2) by simp_all
  from write_chunks_succeeds [OF this(2,1), of debug es] a(1) obtain d' wr where
      w: "write_chunks db ?p debug (max n 1) es d = Ended d' (Returns (Ok wr))"
        "committed d' = encode_rows db ?p (content_of (stored_events es))" "wr_nodes wr = length (stored_events es)"
    by auto
  then show "\<exists>d'. deliver_chunked db codec debug n es d = Some (d', Ok (length (stored_events es))) \<and>
      committed_others d' = committed_others d \<and> committed d' = encode_rows db ?p (content_of (stored_events es))"
    using write_chunks_others [OF w(1)] by (simp add: deliver_chunked_def new_write_sink_succeeds)
qed

context reliable_store
begin

lemma deliveries_agree:
  assumes nodes: "\<forall>e \<in> set es. storable e" "distinct (map event_key es)" "mset fs = mset es"
    and empty: "committed d = Map.empty" and fair: "fair_schedule schedule"
  shows "\<exists>d1 d2 w. deliver_collected db codec debug es d = Some (d1, Ok w) \<and>
    deliver_chunked db codec debug n fs d = Some (d2, Ok w) \<and> committed d1 = committed d2 \<and>
    (\<forall>t. db_tx db d2 = Ok t \<longrightarrow>
      digest_trie_tables db codec h schedule t = Ok (events_summary h (stored_events es)))"
proof -
  note collected = collected.delivers_any_order [OF nodes(1,2) empty refl, of codec debug]
    and chunked = chunked.delivers_any_order [OF _ nodes(2) empty nodes(3), of codec debug n]
  obtain d1 d2 where "deliver_collected db codec debug es d = Some (d1, Ok (length (stored_events es)))"
      and d2: "deliver_chunked db codec debug n fs d = Some (d2, Ok (length (stored_events es)))"
      and "committed d1 = committed d2"
    using collected chunked by auto
  moreover have "digest_trie_tables db codec h schedule t = Ok (events_summary h (stored_events es))"
    if "db_tx db d2 = Ok t" for t
    by (rule chunked.delivered_digest [OF _ nodes(2) empty nodes(3) d2 that fair]) simp
  ultimately show ?thesis by blast
qed

end

section \<open>Properties\<close>

text \<open>
  C5: Collecting the nodes of a build and writing the update set in one transaction leaves the same rows
  in the tables, and reports the same number of entries, as sending them through the chunk writer,
  whatever the order in which either sink receives them and whatever the chunk size; and the digest
  of the tables is then the digest of the nodes that are not roots.
\<close>

theorem collected_updates_match_writer:
  assumes store: "reliable_store db rows position committed others committed_others"
    and nodes: "\<forall>e \<in> set es. storable e" "distinct (map event_key es)" "mset fs = mset es"
    and empty: "committed d = Map.empty" and fair: "fair_schedule schedule"
  shows "\<exists>d1 d2 w. deliver_collected db codec debug es d = Some (d1, Ok w) \<and>
    deliver_chunked db codec debug n fs d = Some (d2, Ok w) \<and> committed d1 = committed d2 \<and>
    (\<forall>t. db_tx db d2 = Ok t \<longrightarrow>
      digest_trie_tables db codec h schedule t = Ok (events_summary h (stored_events es)))"
  by (rule reliable_store.deliveries_agree [OF assms])

theorem collected_updates_match_writer_witness:
  "\<exists>d1 d2 w. deliver_collected ref_db flag_codec True sample_events (ref_empty True) = Some (d1, Ok w) \<and>
     deliver_chunked ref_db flag_codec True 2 (rev sample_events) (ref_empty True) = Some (d2, Ok w) \<and>
     ref_lookup d1 = ref_lookup d2"
proof -
  have "\<forall>e \<in> set sample_events. storable e" by (simp add: sample_events_def storable_def)
  then show ?thesis
    using collected_updates_match_writer [OF ref_store.reliable_store_axioms _ sample_events_distinct _ _ fair_concat,
        of "rev sample_events" "ref_empty True" flag_codec True 2] by fastforce
qed

end
