(* ===== verification/Threaded_Build.thy ===== *)
theory Threaded_Build
  imports Write_Sink Bench_Write
begin

text \<open>
  The build of \<^verbatim>\<open>datadir_bench --write\<close> with its threads: partition workers that call the progress sink
  (\<^verbatim>\<open>progress.rs\<close>), which sends their nodes into the channel of the chunk writer (\<^verbatim>\<open>writer.rs\<close>) and
  logs under a lock, and the writer thread. A run of the threads is projected to a run of the write
  sink and to one of the progress sink; what the program model takes for the build, calls one
  after the other, is a schedule of them.
\<close>

section \<open>Model\<close>

datatype build_call = Emits node_event | Walks u64

text \<open>
  What each worker still calls, what it has counted and not yet logged, the workers that panicked; the
  progress sink around the inner sink, and the clock; the channel and the writer.
\<close>

record 'd threaded_build =
  tb_calls :: "build_call list list"
  tb_counted :: "nat \<Rightarrow> u64 option"
  tb_panicked :: "nat set"
  tb_progress :: "unit progress_sink"
  tb_clock :: nat
  tb_sender :: bool
  tb_queue :: "node_event list"
  tb_writer :: "'d writer_thread"

definition threaded_start :: "build_call list list \<Rightarrow> u64 \<Rightarrow> nat \<Rightarrow> nat \<Rightarrow> 'd \<Rightarrow> 'd threaded_build" where
  "threaded_start workers expected interval now d = \<lparr>tb_calls = workers, tb_counted = Map.empty, tb_panicked = {},
     tb_progress = progress_new () expected interval now, tb_clock = now, tb_sender = True, tb_queue = [],
     tb_writer = writer_start d\<rparr>"

text \<open>
  A worker sends its node while the channel has room, or panics once the receiver is gone; it counts a
  batch, then takes the lock and logs. When the workers are through, or have panicked, the sink is
  dropped; the writer receives what was sent, and flushes its chunk when the channel is closed.
\<close>

inductive threaded_step :: "('d, 't, 'k) trie_db \<Rightarrow> bool \<Rightarrow> bool \<Rightarrow> nat \<Rightarrow> nat \<Rightarrow>
    'd threaded_build \<Rightarrow> 'd threaded_build \<Rightarrow> bool"
  for db packed debug capacity c where
  sends: "i < length (tb_calls s) \<Longrightarrow> tb_calls s ! i = Emits e # cs \<Longrightarrow> tb_counted s i = None \<Longrightarrow> tb_sender s \<Longrightarrow>
    is_running (tb_writer s) \<Longrightarrow> length (tb_queue s) < capacity \<Longrightarrow>
    threaded_step db packed debug capacity c s
      (s\<lparr>tb_calls := (tb_calls s)[i := cs], tb_queue := tb_queue s @ [e]\<rparr>)"
| send_fails: "i < length (tb_calls s) \<Longrightarrow> tb_calls s ! i = Emits e # cs \<Longrightarrow> tb_counted s i = None \<Longrightarrow> tb_sender s \<Longrightarrow>
    \<not> is_running (tb_writer s) \<Longrightarrow>
    threaded_step db packed debug capacity c s
      (s\<lparr>tb_calls := (tb_calls s)[i := []], tb_panicked := insert i (tb_panicked s)\<rparr>)"
| walks_nothing: "i < length (tb_calls s) \<Longrightarrow> tb_calls s ! i = Walks 0 # cs \<Longrightarrow> tb_counted s i = None \<Longrightarrow>
    threaded_step db packed debug capacity c s (s\<lparr>tb_calls := (tb_calls s)[i := cs]\<rparr>)"
| counts: "i < length (tb_calls s) \<Longrightarrow> tb_calls s ! i = Walks n # cs \<Longrightarrow> n \<noteq> 0 \<Longrightarrow> tb_counted s i = None \<Longrightarrow>
    count_entries n (tb_progress s) = (w, p) \<Longrightarrow>
    threaded_step db packed debug capacity c s
      (s\<lparr>tb_calls := (tb_calls s)[i := cs], tb_counted := (tb_counted s)(i \<mapsto> w), tb_progress := p\<rparr>)"
| logs: "tb_counted s i = Some w \<Longrightarrow> tb_clock s \<le> t1 \<Longrightarrow> t1 \<le> t2 \<Longrightarrow> t2 \<le> t3 \<Longrightarrow>
    log_progress (t1, t2, t3) w (tb_progress s) = (r, p) \<Longrightarrow>
    threaded_step db packed debug capacity c s
      (s\<lparr>tb_calls := (if r = Returns () then tb_calls s else (tb_calls s)[i := []]),
        tb_counted := (tb_counted s)(i := None),
        tb_panicked := (if r = Returns () then tb_panicked s else insert i (tb_panicked s)),
        tb_progress := p, tb_clock := t3\<rparr>)"
| receives: "tb_queue s = e # q \<Longrightarrow> is_running (tb_writer s) \<Longrightarrow>
    w = writer_receive db packed debug c e (tb_writer s) \<Longrightarrow>
    threaded_step db packed debug capacity c s
      (s\<lparr>tb_queue := (if is_running w then q else []), tb_writer := w\<rparr>)"
| joined: "\<forall>cs \<in> set (tb_calls s). cs = [] \<Longrightarrow> tb_counted s = Map.empty \<Longrightarrow> tb_sender s \<Longrightarrow>
    threaded_step db packed debug capacity c s (s\<lparr>tb_sender := False\<rparr>)"
| flushes: "tb_queue s = [] \<Longrightarrow> \<not> tb_sender s \<Longrightarrow> is_running (tb_writer s) \<Longrightarrow>
    threaded_step db packed debug capacity c s
      (s\<lparr>tb_writer := writer_flush db packed (tb_writer s)\<rparr>)"

inductive_simps threaded_step_iff: "threaded_step db packed debug capacity c s s'"

abbreviation "threaded_steps db packed debug capacity c \<equiv> (threaded_step db packed debug capacity c)\<^sup>*\<^sup>*"

text \<open>The nodes and the batches of a worker's calls.\<close>

fun emitted :: "build_call \<Rightarrow> node_event list" where
  "emitted (Emits e) = [e]"
| "emitted (Walks n) = []"

fun walked_batch :: "build_call \<Rightarrow> u64 list" where
  "walked_batch (Emits e) = []"
| "walked_batch (Walks n) = [n]"

definition emissions :: "build_call list list \<Rightarrow> node_event list list" where
  "emissions workers = map (\<lambda>cs. concat (map emitted cs)) workers"

definition batches :: "build_call list list \<Rightarrow> u64 list list" where
  "batches workers = map (\<lambda>cs. concat (map walked_batch cs)) workers"

section \<open>Projections\<close>

definition write_part :: "'d threaded_build \<Rightarrow> 'd write_run" where
  "write_part s = \<lparr>run_workers = emissions (tb_calls s), run_panicked = tb_panicked s, run_sender = tb_sender s,
     run_queue = tb_queue s, run_writer = tb_writer s\<rparr>"

definition progress_part :: "'d threaded_build \<Rightarrow> unit progress_run" where
  "progress_part s = \<lparr>pr_batches = batches (tb_calls s), pr_counted = tb_counted s, pr_sink = tb_progress s,
     pr_clock = tb_clock s\<rparr>"

lemma emissions_simps [simp]:
  "length (emissions ws) = length ws" "emissions (ws[i := cs]) = (emissions ws)[i := concat (map emitted cs)]"
  "i < length ws \<Longrightarrow> emissions ws ! i = concat (map emitted (ws ! i))"
  by (simp_all add: emissions_def map_update)

lemma batches_simps [simp]:
  "length (batches ws) = length ws" "batches (ws[i := cs]) = (batches ws)[i := concat (map walked_batch cs)]"
  "i < length ws \<Longrightarrow> batches ws ! i = concat (map walked_batch (ws ! i))"
  by (simp_all add: batches_def map_update)

lemma all_done_emissions: "\<forall>cs \<in> set ws. cs = [] \<Longrightarrow> \<forall>es \<in> set (emissions ws). es = []"
  by (auto simp: emissions_def)

lemma parts_start:
  "write_part (threaded_start ws expected interval now d) = run_start (emissions ws) d"
  "progress_part (threaded_start ws expected interval now d) = progress_start () expected interval now (batches ws)"
  by (simp_all add: write_part_def progress_part_def threaded_start_def run_start_def progress_start_def)

text \<open>A step is one of the write sink, unless the log panics, or leaves it alone.\<close>

lemma write_part_step:
  assumes "threaded_step db packed debug capacity c s s'"
    and calm: "\<And>i w t1 t2 t3. tb_counted s i = Some w \<Longrightarrow> t3 \<le> tb_clock s' \<Longrightarrow>
      fst (log_progress (t1, t2, t3) w (tb_progress s)) = Returns ()"
  shows "write_part s' = write_part s \<or> write_step db packed debug capacity c (write_part s) (write_part s')"
  using assms(1)
proof cases
  case (sends i e cs)
  then show ?thesis
    using write_step.worker_sends [of i "write_part s" e "concat (map emitted cs)" capacity db packed debug c]
    by (simp add: write_part_def)
next
  case (send_fails i e cs)
  then show ?thesis
    using write_step.worker_panics [of i "write_part s" e "concat (map emitted cs)" db packed debug capacity c]
    by (simp add: write_part_def)
next
  case (walks_nothing i cs)
  then have "emissions ((tb_calls s)[i := cs]) = emissions (tb_calls s)"
    by (simp add: list_update_same_conv)
  then show ?thesis by (simp add: walks_nothing(1) write_part_def del: emissions_simps)
next
  case (counts i n cs w p)
  then have "emissions ((tb_calls s)[i := cs]) = emissions (tb_calls s)"
    by (simp add: list_update_same_conv)
  then show ?thesis by (simp add: counts(1) write_part_def del: emissions_simps)
next
  case (logs i w t1 t2 t3 r p)
  then have "r = Returns ()" using calm [of i w t3 t1 t2] by simp
  then show ?thesis by (simp add: logs(1) write_part_def)
next
  case (receives e q w)
  then show ?thesis
    using write_step.writer_receives [of "write_part s" e q w db packed debug c capacity] by (simp add: write_part_def)
next
  case joined
  then show ?thesis
    using write_step.sender_dropped [of "write_part s" db packed debug capacity c] all_done_emissions
    by (simp add: write_part_def)
next
  case flushes
  then show ?thesis
    using write_step.writer_ends [of "write_part s" db packed debug capacity c] by (simp add: write_part_def)
qed

text \<open>A step is one of the progress sink, unless a send fails, or leaves it alone.\<close>

lemma progress_part_step:
  assumes "threaded_step db packed debug capacity c s s'"
  shows "progress_part s' = progress_part s \<or> progress_step (progress_part s) (progress_part s') \<or>
    (\<exists>i. tb_panicked s' \<noteq> {} \<and> progress_part s' = (progress_part s)\<lparr>pr_batches := (batches (tb_calls s))[i := []]\<rparr>)"
  using assms
proof cases
  case (sends i e cs)
  then have "batches ((tb_calls s)[i := cs]) = batches (tb_calls s)"
    by (simp add: list_update_same_conv)
  then show ?thesis by (simp add: sends(1) progress_part_def del: batches_simps)
next
  case (send_fails i e cs)
  then show ?thesis by (auto simp: progress_part_def)
next
  case (walks_nothing i cs)
  then show ?thesis
    using progress_step.empty_batch [of i "progress_part s" "concat (map walked_batch cs)"] by (simp add: progress_part_def)
next
  case (counts i n cs w p)
  then show ?thesis
    using progress_step.count_batch [of i "progress_part s" n "concat (map walked_batch cs)" w p] by (simp add: progress_part_def)
next
  case (logs i w t1 t2 t3 r p)
  then have "progress_step (progress_part s) (progress_part s')"
    using progress_step.take_lock [of "progress_part s" i w t1 t2 t3 r p]
    by (cases "r = Returns ()") (simp_all add: progress_part_def)
  then show ?thesis by blast
qed (simp_all add: progress_part_def)

section \<open>Invariants\<close>

text \<open>
  Without bounds: the channel keeps its capacity and is empty once the writer has ended; nobody is left
  when the sink is dropped, and the writer ends without an error only after that.
\<close>

definition threaded_shape :: "nat \<Rightarrow> 'd threaded_build \<Rightarrow> bool" where
  "threaded_shape capacity s \<longleftrightarrow> length (tb_queue s) \<le> capacity \<and> dom (tb_counted s) \<subseteq> {..<length (tb_calls s)} \<and>
     (\<not> is_running (tb_writer s) \<longrightarrow> tb_queue s = []) \<and>
     (\<not> tb_sender s \<longrightarrow> (\<forall>cs \<in> set (tb_calls s). cs = []) \<and> tb_counted s = Map.empty) \<and>
     (\<forall>d wr. tb_writer s = Ended d (Returns (Ok wr)) \<longrightarrow> \<not> tb_sender s)"

lemma threaded_shape_start: "threaded_shape capacity (threaded_start ws expected interval now d)"
  by (simp add: threaded_shape_def threaded_start_def writer_start_def)

lemma threaded_shape_step:
  assumes "threaded_step db packed debug capacity c s s'" and "threaded_shape capacity s"
  shows "threaded_shape capacity s'"
  using assms
proof cases
  case (receives e q w)
  then have "w \<noteq> Ended d (Returns (Ok wr))" for d wr using receive_not_Ok by metis
  then show ?thesis using receives assms(2) by (auto simp: threaded_shape_def)
next
  case flushes
  then show ?thesis using assms(2) flush_Ended [of db packed "tb_writer s"] by (auto simp: threaded_shape_def)
next
  case (logs i w t1 t2 t3 r p)
  then show ?thesis using assms(2) by (auto simp: threaded_shape_def)
next
  case (walks_nothing i cs)
  then have "tb_sender s" using assms(2) nth_mem [of i "tb_calls s"] by (auto simp: threaded_shape_def)
  then show ?thesis using walks_nothing assms(2) by (simp add: threaded_shape_def)
next
  case (counts i n cs w p)
  then have "tb_sender s" using assms(2) nth_mem [of i "tb_calls s"] by (auto simp: threaded_shape_def)
  then show ?thesis using counts assms(2) by (auto simp: threaded_shape_def)
qed (auto simp: threaded_shape_def)

lemma threaded_shape_steps:
  "threaded_steps db packed debug capacity c (threaded_start ws expected interval now d) s \<Longrightarrow> threaded_shape capacity s"
  by (induction rule: rtranclp_induct) (auto intro: threaded_shape_start threaded_shape_step)

text \<open>
  Within the bounds the log does not panic: the write sink's part is a run of the write sink, lines
  keep their distance, and a batch is lost only with a worker that panicked because the writer had ended.
\<close>

lemma batch_count_drop: "batch_count (bss[i := []]) \<le> batch_count bss"
proof (induction bss arbitrary: i)
  case Nil
  then show ?case by simp
next
  case (Cons b bss)
  then show ?case by (cases i) (auto simp: batch_count_def)
qed

definition time_fits :: "u64 \<Rightarrow> nat \<Rightarrow> nat \<Rightarrow> bool" where
  "time_fits expected now t \<longleftrightarrow> max (unat expected) 1 * (t - now) < 2 ^ 58 * nanos_per_sec"

lemma time_fits_before: "time_fits expected now t \<Longrightarrow> t' \<le> t \<Longrightarrow> time_fits expected now t'"
  unfolding time_fits_def by (erule le_less_trans [rotated]) (intro mult_le_mono2 diff_le_mono)

definition threaded_inv :: "('d, 't, 'k) trie_db \<Rightarrow> bool \<Rightarrow> bool \<Rightarrow> nat \<Rightarrow> nat \<Rightarrow> build_call list list \<Rightarrow> u64 \<Rightarrow> nat \<Rightarrow> nat \<Rightarrow>
    'd \<Rightarrow> 'd threaded_build \<Rightarrow> bool" where
  "threaded_inv db packed debug capacity c workers expected interval now d s \<longleftrightarrow>
     run_inv db packed debug capacity c (emissions workers) d (write_part s) \<and>
     (\<exists>n \<le> batch_count (batches workers). calm_inv expected now n (progress_part s) \<and>
        (tb_panicked s = {} \<longrightarrow> n = batch_count (batches workers))) \<and>
     (\<exists>m. progress_inv () interval now m (progress_part s))"

lemma threaded_inv_start:
  "threaded_inv db packed debug capacity c ws expected interval now d (threaded_start ws expected interval now d)"
proof -
  have "calm_inv expected now (batch_count (batches ws)) (progress_start () expected interval now (batches ws))"
    by (simp add: calm_inv_def progress_start_def progress_new_def walked_def new_mutex_def)
  then show ?thesis
    unfolding threaded_inv_def parts_start using run_inv_start progress_inv_start by (fastforce simp: threaded_start_def)
qed

lemma threaded_clock: "threaded_step db packed debug capacity c s s' \<Longrightarrow> tb_clock s \<le> tb_clock s'"
  by (induction rule: threaded_step.induct) auto

lemma calm_log:
  assumes "calm_inv expected now n (progress_part s)" and "tb_counted s i = Some w" and "time_fits expected now t3"
  shows "fst (log_progress (t1, t2, t3) w (tb_progress s)) = Returns ()"
  using log_progress_calm [of "tb_progress s" w t3 t1 t2] assms
  by (auto simp: calm_inv_def progress_part_def time_fits_def)

lemma threaded_panics: "threaded_step db packed debug capacity c s s' \<Longrightarrow> tb_panicked s \<subseteq> tb_panicked s'"
  by (induction rule: threaded_step.induct) auto

lemma threaded_inv_step:
  assumes step: "threaded_step db packed debug capacity c s s'"
    and inv: "threaded_inv db packed debug capacity c workers expected interval now d s"
    and fits: "batch_count (batches workers) < 2 ^ 64" "time_fits expected now (tb_clock s')"
  shows "threaded_inv db packed debug capacity c workers expected interval now d s'"
proof -
  obtain n m where n: "n \<le> batch_count (batches workers)" "calm_inv expected now n (progress_part s)"
      "tb_panicked s = {} \<longrightarrow> n = batch_count (batches workers)"
    and m: "progress_inv () interval now m (progress_part s)"
    using inv unfolding threaded_inv_def by blast
  have "write_part s' = write_part s \<or> write_step db packed debug capacity c (write_part s) (write_part s')"
    by (rule write_part_step [OF step]) (rule calm_log [OF n(2)], assumption, rule time_fits_before [OF fits(2)])
  then have run: "run_inv db packed debug capacity c (emissions workers) d (write_part s')"
    using run_inv_step inv unfolding threaded_inv_def by metis
  have clock: "time_fits expected now (pr_clock (progress_part s'))" using fits(2) by (simp add: progress_part_def)
  consider "progress_part s' = progress_part s" | "progress_step (progress_part s) (progress_part s')"
    | i where "tb_panicked s' \<noteq> {}" "progress_part s' = (progress_part s)\<lparr>pr_batches := (batches (tb_calls s))[i := []]\<rparr>"
    using progress_part_step [OF step] by blast
  then show ?thesis
  proof cases
    case 1
    then show ?thesis using run n m threaded_panics [OF step] unfolding threaded_inv_def by auto
  next
    case 2
    have "calm_inv expected now n (progress_part s')"
      using calm_inv_step [OF 2 n(2)] n(1) fits(1) clock by (simp add: time_fits_def)
    then show ?thesis
      using run n(1,3) progress_inv_step [OF 2 m] threaded_panics [OF step] unfolding threaded_inv_def by auto
  next
    case (3 i)
    let ?bss = "(batches (tb_calls s))[i := []]"
    let ?n = "unat (walked (tb_progress s)) + batch_count ?bss"
    have same: "pr_sink (progress_part s) = tb_progress s" "pr_batches (progress_part s) = batches (tb_calls s)"
      by (simp_all add: progress_part_def)
    have "?n \<le> n" "calm_inv expected now ?n (progress_part s')"
      using n(2) batch_count_drop [of "batches (tb_calls s)" i] unfolding 3 calm_inv_def same by (simp_all add: same)
    moreover have "progress_inv () interval now (walked (tb_progress s) + batch_sum ?bss) (progress_part s')"
      using m unfolding 3 progress_inv_def same by (simp add: same)
    ultimately show ?thesis using run n(1) 3(1) unfolding threaded_inv_def by (meson le_trans)
  qed
qed

lemma threaded_inv_steps:
  assumes "threaded_steps db packed debug capacity c (threaded_start workers expected interval now d) s"
    and "batch_count (batches workers) < 2 ^ 64" and "time_fits expected now (tb_clock s)"
  shows "threaded_inv db packed debug capacity c workers expected interval now d s"
  using assms(1,3)
proof (induction rule: rtranclp_induct)
  case base
  show ?case by (rule threaded_inv_start)
next
  case (step s s')
  have "threaded_inv db packed debug capacity c workers expected interval now d s"
    by (rule step.IH, rule time_fits_before [OF step.prems threaded_clock [OF step.hyps(2)]])
  from threaded_inv_step [OF step.hyps(2) this assms(2) step.prems] show ?case .
qed

section \<open>Every run ends\<close>

definition threaded_size :: "'d threaded_build \<Rightarrow> nat" where
  "threaded_size s = 2 * length (concat (tb_calls s)) + card (dom (tb_counted s)) + length (tb_queue s) +
     (if tb_sender s then 1 else 0) + (if is_running (tb_writer s) then 1 else 0)"

lemma threaded_step_decreases:
  assumes "threaded_step db packed debug capacity c s s'" and "threaded_shape capacity s"
  shows "threaded_size s' < threaded_size s"
  using assms(1)
proof cases
  case (sends i e cs)
  then show ?thesis using length_concat_update [of i "tb_calls s" "Emits e # cs" cs]
    by (simp add: threaded_size_def del: length_concat)
next
  case (send_fails i e cs)
  then show ?thesis using length_concat_update [of i "tb_calls s" "Emits e # cs" "[]"]
    by (simp add: threaded_size_def del: length_concat)
next
  case (walks_nothing i cs)
  then show ?thesis using length_concat_update [of i "tb_calls s" "Walks 0 # cs" cs]
    by (simp add: threaded_size_def del: length_concat)
next
  case (counts i n cs w p)
  have "finite (dom (tb_counted s))" using assms(2) unfolding threaded_shape_def by (meson finite_lessThan finite_subset)
  then have "card (dom ((tb_counted s)(i \<mapsto> w))) = Suc (card (dom (tb_counted s)))"
    using counts(5) by (simp add: domIff card_insert_if)
  then show ?thesis using counts length_concat_update [of i "tb_calls s" "Walks n # cs" cs]
    by (simp add: threaded_size_def del: length_concat dom_fun_upd)
next
  case (logs i w t1 t2 t3 r p)
  have "finite (dom (tb_counted s))" using assms(2) unfolding threaded_shape_def by (meson finite_lessThan finite_subset)
  then have card: "card (dom ((tb_counted s)(i := None))) < card (dom (tb_counted s))"
    using logs(2) by (intro psubset_card_mono) auto
  have "i < length (tb_calls s)" using assms(2) logs(2) by (auto simp: threaded_shape_def)
  then have "length (concat ((tb_calls s)[i := []])) \<le> length (concat (tb_calls s))"
    using length_concat_update [of i "tb_calls s" "tb_calls s ! i" "[]"] by (simp del: length_concat)
  then show ?thesis using card by (simp add: logs(1) threaded_size_def del: length_concat dom_fun_upd)
next
  case (receives e q w)
  then show ?thesis by (auto simp: threaded_size_def)
next
  case joined
  then show ?thesis by (simp add: threaded_size_def)
next
  case flushes
  then show ?thesis using flush_Ended [of db packed "tb_writer s"] by (simp add: threaded_size_def)
qed

lemma threaded_steps_bounded:
  "((threaded_step db packed debug capacity c) ^^ n) s s' \<Longrightarrow> threaded_shape capacity s \<Longrightarrow>
   threaded_size s' + n \<le> threaded_size s \<and> threaded_shape capacity s'"
proof (induction n arbitrary: s')
  case 0
  then show ?case by simp
next
  case (Suc n)
  then obtain s1 where first: "((threaded_step db packed debug capacity c) ^^ n) s s1"
      and last: "threaded_step db packed debug capacity c s1 s'" by auto
  have s1: "threaded_size s1 + n \<le> threaded_size s" "threaded_shape capacity s1"
    using Suc.IH [OF first Suc.prems(2)] by blast+
  show ?case using threaded_step_decreases [OF last s1(2)] threaded_shape_step [OF last s1(2)] s1(1) by simp
qed

text \<open>A run can go on until it is over, and it can do so with the clock standing still.\<close>

lemma moves_at_once:
  assumes "threaded_step db packed debug capacity c s s'"
  shows "\<exists>s1. threaded_step db packed debug capacity c s s1 \<and> tb_clock s1 = tb_clock s"
  using assms
proof cases
  case (logs i w t1 t2 t3 r p)
  obtain r1 p1 where "log_progress (tb_clock s, tb_clock s, tb_clock s) w (tb_progress s) = (r1, p1)" by fastforce
  note move = threaded_step.logs [OF logs(2) order.refl order.refl order.refl this]
  show ?thesis by (rule exI, rule conjI, rule move, simp)
qed (use assms in fastforce)+

lemma threaded_finishes:
  assumes "threaded_shape capacity s"
  shows "\<exists>s'. threaded_steps db packed debug capacity c s s' \<and> tb_clock s' = tb_clock s \<and>
    (\<nexists>s''. threaded_step db packed debug capacity c s' s'')"
  using assms
proof (induction "threaded_size s" arbitrary: s rule: less_induct)
  case less
  show ?case
  proof (cases "\<exists>s1. threaded_step db packed debug capacity c s s1")
    case True
    then obtain s1 where s1: "threaded_step db packed debug capacity c s s1" and clock: "tb_clock s1 = tb_clock s"
      using moves_at_once by blast
    obtain s' where "threaded_steps db packed debug capacity c s1 s'" "tb_clock s' = tb_clock s1"
        "\<nexists>s''. threaded_step db packed debug capacity c s' s''"
      using less.hyps [OF threaded_step_decreases [OF s1 less.prems] threaded_shape_step [OF s1 less.prems]] by blast
    then show ?thesis using s1 clock by (metis converse_rtranclp_into_rtranclp)
  next
    case False
    then show ?thesis by blast
  qed
qed

text \<open>Somebody can move until nothing is left to do.\<close>

lemma caller_moves:
  assumes "threaded_shape capacity s" and "0 < capacity"
    and "i < length (tb_calls s)" and "tb_calls s ! i \<noteq> []" and "tb_counted s i = None"
  shows "\<exists>s'. threaded_step db packed debug capacity c s s'"
proof -
  obtain call cs where call: "tb_calls s ! i = call # cs" using assms(4) by (cases "tb_calls s ! i") auto
  have sender: "tb_sender s" using assms(1,3,4) nth_mem [of i "tb_calls s"] by (auto simp: threaded_shape_def)
  show ?thesis
  proof (cases call)
    case (Walks n)
    show ?thesis
    proof (cases "n = 0")
      case True
      then show ?thesis using walks_nothing [OF assms(3) _ assms(5)] call Walks by blast
    next
      case False
      obtain w p where "count_entries n (tb_progress s) = (w, p)" by fastforce
      then show ?thesis using counts [OF assms(3) call [unfolded Walks] False assms(5)] by blast
    qed
  next
    case (Emits e)
    note moves = sends [OF assms(3) call [unfolded Emits] assms(5) sender]
      send_fails [OF assms(3) call [unfolded Emits] assms(5) sender]
    show ?thesis
    proof (cases "is_running (tb_writer s)")
      case True
      show ?thesis
      proof (cases "tb_queue s")
        case Nil
        then have "length (tb_queue s) < capacity" using assms(2) by simp
        from moves(1) [OF True this] show ?thesis by blast
      next
        case (Cons f q)
        then show ?thesis using receives [OF Cons True refl] by blast
      qed
    next
      case False
      then show ?thesis using moves(2) by blast
    qed
  qed
qed

lemma threaded_step_progress:
  assumes "threaded_shape capacity s" and "0 < capacity"
    and stuck: "\<nexists>s'. threaded_step db packed debug capacity c s s'"
  shows "(\<forall>cs \<in> set (tb_calls s). cs = []) \<and> tb_counted s = Map.empty \<and> \<not> tb_sender s \<and> \<not> is_running (tb_writer s)"
proof -
  have counted: "tb_counted s i = None" for i
  proof (cases "tb_counted s i")
    case (Some w)
    obtain r p where "log_progress (tb_clock s, tb_clock s, tb_clock s) w (tb_progress s) = (r, p)" by fastforce
    from logs [OF Some order.refl order.refl order.refl this] show ?thesis using stuck by blast
  qed
  have calls: "cs = []" if "cs \<in> set (tb_calls s)" for cs
    using that caller_moves [OF assms(1,2) _ _ counted] stuck by (metis in_set_conv_nth)
  have empty: "tb_counted s = Map.empty" using counted by blast
  have sender: "\<not> tb_sender s" using joined [of s] calls empty stuck by blast
  have "\<not> is_running (tb_writer s)"
  proof
    assume run: "is_running (tb_writer s)"
    show False
    proof (cases "tb_queue s")
      case Nil
      then show False using flushes [OF Nil sender run] stuck by blast
    next
      case (Cons e q)
      then show False using receives [OF Cons run refl] stuck by blast
    qed
  qed
  then show ?thesis using calls empty sender by blast
qed

section \<open>The calls one after the other\<close>

lemma interleaves_calls:
  "interleaves (emissions ws) es \<Longrightarrow> \<exists>cs. interleaves ws cs \<and> concat (map emitted cs) = es"
proof (induction "length (concat ws)" arbitrary: ws es rule: less_induct)
  case less
  show ?case
  proof (cases "\<exists>i n cs. i < length ws \<and> ws ! i = Walks n # cs")
    case True
    then obtain i n cs where i: "i < length ws" "ws ! i = Walks n # cs" by blast
    have "emissions (ws[i := cs]) = emissions ws" using i by (simp add: list_update_same_conv)
    moreover have "length (concat (ws[i := cs])) < length (concat ws)"
      using length_concat_update [of i ws "Walks n # cs" cs] i by (simp del: length_concat)
    ultimately obtain ds where "interleaves (ws[i := cs]) ds" "concat (map emitted ds) = es"
      using less.hyps [of "ws[i := cs]" es] less.prems by metis
    then show ?thesis using take_turn [OF i] by (intro exI [of _ "Walks n # ds"]) simp
  next
    case no_walks: False
    show ?thesis
      using less.prems
    proof (cases rule: interleaves.cases)
      case nothing_left
      have "cs = []" if "cs \<in> set ws" for cs
      proof (cases cs)
        case (Cons call ds)
        obtain i where i: "i < length ws" "ws ! i = call # ds" using \<open>cs \<in> set ws\<close> Cons by (metis in_set_conv_nth)
        then obtain e where e: "call = Emits e" using no_walks by (cases call) blast+
        have "emissions ws ! i \<in> set (emissions ws)" using i(1) by (intro nth_mem) simp
        then have "emissions ws ! i = []" using nothing_left(2) by blast
        then show ?thesis using i e by simp
      qed simp
      then show ?thesis using interleaves.nothing_left [of ws] nothing_left(1) by (intro exI [of _ "[]"]) simp
    next
      case (take_turn i e xs ys)
      then have i: "i < length ws" by simp
      obtain f cs where f: "ws ! i = Emits f # cs"
        using no_walks take_turn(3) i by (cases "ws ! i"; cases "hd (ws ! i)") auto
      then have e: "f = e" "concat (map emitted cs) = xs" using take_turn(3) i by simp_all
      have "length (concat (ws[i := cs])) < length (concat ws)"
        using length_concat_update [of i ws "Emits f # cs" cs] i f by (simp del: length_concat)
      moreover have "interleaves (emissions (ws[i := cs])) ys" using take_turn(4) e by simp
      ultimately obtain ds where "interleaves (ws[i := cs]) ds" "concat (map emitted ds) = ys"
        using less.hyps by blast
      then show ?thesis using interleaves.take_turn [OF i f] e(1) take_turn(1) by (intro exI [of _ "Emits f # ds"]) simp
    qed
  qed
qed

fun untimed :: "progress_call \<Rightarrow> build_call" where
  "untimed (On_Node e) = Emits e"
| "untimed (On_Progress readings n) = Walks n"

definition entry_count :: "build_call list \<Rightarrow> nat" where
  "entry_count cs = sum_list (map (\<lambda>c. sum_list (map unat (walked_batch c))) cs)"

lemma emitted_untimed: "concat (map emitted (map untimed calls)) = concat (map called_node calls)"
proof (induction calls)
  case (Cons c calls)
  then show ?case by (cases c) simp_all
qed simp

lemma entry_count_untimed: "of_nat (entry_count (map untimed calls)) = sum_list (map called_entries calls)"
proof (induction calls)
  case (Cons c calls)
  then show ?case by (cases c) (simp_all add: entry_count_def)
qed (simp add: entry_count_def)

lemma entry_count_batches: "batch_count (batches ws) = entry_count (concat ws)"
proof (induction ws)
  case Nil
  then show ?case by (simp add: batch_count_def batches_def entry_count_def)
next
  case (Cons cs ws)
  have "sum_list (map unat (concat (map walked_batch cs))) = entry_count cs"
    by (induction cs) (simp_all add: entry_count_def)
  then show ?case using Cons by (simp add: batch_count_def batches_def entry_count_def)
qed

lemma entry_count_interleaves: "interleaves ws cs \<Longrightarrow> entry_count cs = batch_count (batches ws)"
proof -
  let ?size = "\<lambda>c. sum_list (map unat (walked_batch c))"
  assume "interleaves ws cs"
  then have "mset (map ?size cs) = mset (map ?size (concat ws))"
    using interleaves_mset unfolding mset_map by metis
  then show ?thesis unfolding entry_count_batches entry_count_def by (metis sum_mset_sum_list)
qed

lemma fold_receive_not_Ok:
  "fold (writer_receive db packed debug c) es (writer_start d) \<noteq> Ended d' (Returns (Ok wr))"
proof (induction es rule: rev_induct)
  case Nil
  then show ?case by (simp add: writer_start_def)
next
  case (snoc e es)
  let ?w = "fold (writer_receive db packed debug c) es (writer_start d)"
  show ?case
  proof (cases "is_running ?w")
    case True
    then show ?thesis using receive_not_Ok by simp
  next
    case False
    then obtain d1 r where "?w = Ended d1 r" using Ended_cases by blast
    then show ?thesis using snoc by simp
  qed
qed

text \<open>The calls one after the other: once the writer has ended, the next node panics and the rest is left out.\<close>

lemma feed_writer_calm:
  assumes "\<not> poisoned (ps_last_log s)"
    and "unat (ps_walked s) + sum_list (map (\<lambda>c. unat (called_entries c)) cs) < 2 ^ 64"
    and "\<forall>t1 t2 t3 n. On_Progress (t1, t2, t3) n \<in> set cs \<longrightarrow> time_fits (ps_total s) (ps_started s) t3"
  shows "\<exists>r sink. feed (writer_emit db packed debug c) cs s = (r, sink) \<and>
    ps_inner sink = fold (writer_receive db packed debug c) (concat (map called_node cs)) (ps_inner s) \<and>
    (is_running (ps_inner sink) \<longrightarrow> r = Returns () \<and> ps_walked sink = ps_walked s + sum_list (map called_entries cs))"
  using assms
proof (induction cs arbitrary: s)
  case Nil
  then show ?case by simp
next
  case (Cons call cs)
  show ?case
  proof (cases call)
    case (On_Node e)
    show ?thesis
    proof (cases "is_running (ps_inner s)")
      case True
      let ?s = "s\<lparr>ps_inner := writer_receive db packed debug c e (ps_inner s)\<rparr>"
      have "call_sink (writer_emit db packed debug c) call s = (Returns (), ?s)"
        using True by (simp add: On_Node call_sink_def progress_on_branch_node_def writer_emit_def)
      then show ?thesis using Cons.IH [of ?s] Cons.prems by (simp add: On_Node)
    next
      case False
      then obtain d r where ended: "ps_inner s = Ended d r" using Ended_cases by blast
      then show ?thesis by (simp add: On_Node call_sink_def progress_on_branch_node_def writer_emit_def fold_receive_Ended)
    qed
  next
    case (On_Progress readings n)
    obtain t1 t2 t3 where t: "readings = (t1, t2, t3)" by (cases readings)
    have "time_fits (ps_total s) (ps_started s) t3"
      using Cons.prems(3) unfolding On_Progress t by (meson list.set_intros(1))
    then obtain s1 where s1: "on_progress readings n s = (Returns (), s1)" "\<not> poisoned (ps_last_log s1)"
      using on_progress_calm [of s n t3 t1 t2] Cons.prems(1,2) by (auto simp: On_Progress t time_fits_def)
    have n: "unat (ps_walked s + n) = unat (ps_walked s) + unat n"
      using Cons.prems(2) by (simp add: On_Progress unat_word_ariths)
    have same: "ps_inner s1 = ps_inner s" "ps_walked s1 = ps_walked s + n"
      using on_progress_inner [of readings n s] on_progress_walked [of readings n s] s1(1) by simp_all
    have fixed: "ps_total s1 = ps_total s" "ps_started s1 = ps_started s"
      using on_progress_fixed [of readings n s] s1(1) by simp_all
    have "call_sink (writer_emit db packed debug c) call s = (Returns (), s1)"
      using s1(1) by (simp add: On_Progress call_sink_def)
    moreover have "\<exists>r sink. feed (writer_emit db packed debug c) cs s1 = (r, sink) \<and>
        ps_inner sink = fold (writer_receive db packed debug c) (concat (map called_node cs)) (ps_inner s1) \<and>
        (is_running (ps_inner sink) \<longrightarrow> r = Returns () \<and> ps_walked sink = ps_walked s1 + sum_list (map called_entries cs))"
    proof (rule Cons.IH [OF s1(2)])
      show "\<forall>t1 t2 t3 n. On_Progress (t1, t2, t3) n \<in> set cs \<longrightarrow> time_fits (ps_total s1) (ps_started s1) t3"
        using Cons.prems(3) unfolding fixed by (meson list.set_intros(2))
    qed (use Cons.prems(2) in \<open>simp add: On_Progress same n\<close>)
    ultimately show ?thesis by (simp add: On_Progress same add.assoc)
  qed
qed

text \<open>What has ended, within the bounds.\<close>

lemma threaded_ended:
  assumes "threaded_steps db packed debug capacity c (threaded_start workers expected interval now d) s"
    and "\<not> is_running (tb_writer s)"
    and "batch_count (batches workers) < 2 ^ 64" and "time_fits expected now (tb_clock s)"
  shows "\<exists>es. interleaves (emissions workers) es \<and> tb_writer s = write_chunks db packed debug c es d"
    "tb_writer s = Ended d' (Returns (Ok wr)) \<Longrightarrow> tb_panicked s = {} \<and> unat (walked (tb_progress s)) = batch_count (batches workers)"
    "spaced interval (now # line_times (tb_progress s)) \<and> now + length (ps_lines (tb_progress s)) * interval \<le> tb_clock s"
proof -
  note inv = threaded_inv_steps [OF assms(1,3,4)]
  show "\<exists>es. interleaves (emissions workers) es \<and> tb_writer s = write_chunks db packed debug c es d"
    using inv assms(2) by (auto simp: threaded_inv_def run_inv_def write_part_def)
  obtain m where m: "progress_inv () interval now m (progress_part s)" using inv unfolding threaded_inv_def by blast
  then show "spaced interval (now # line_times (tb_progress s)) \<and> now + length (ps_lines (tb_progress s)) * interval \<le> tb_clock s"
    using progress_inv_rate [OF m] by (simp add: progress_part_def)
  assume ok: "tb_writer s = Ended d' (Returns (Ok wr))"
  have panicked: "tb_panicked s = {}" using inv ok by (auto simp: threaded_inv_def run_inv_def write_part_def)
  then have "calm_inv expected now (batch_count (batches workers)) (progress_part s)" using inv unfolding threaded_inv_def by blast
  moreover have "\<forall>cs \<in> set (tb_calls s). cs = []" using threaded_shape_steps [OF assms(1)] ok by (auto simp: threaded_shape_def)
  then have "batch_count (batches (tb_calls s)) = 0" by (intro batch_count_done) (auto simp: batches_def)
  ultimately show "tb_panicked s = {} \<and> unat (walked (tb_progress s)) = batch_count (batches workers)"
    using panicked by (simp add: calm_inv_def progress_part_def)
qed

lemma feed_reaches:
  assumes "interleaves workers (map untimed calls)" and "calls_fit (\<lambda>_. now) (unat expected) calls"
  shows "\<exists>r sink. feed (writer_emit db packed debug c) calls (progress_new (writer_start d) expected interval now) = (r, sink) \<and>
    writer_flush db packed (into_inner sink) = write_chunks db packed debug c (concat (map called_node calls)) d \<and>
    (\<forall>d' wr. write_chunks db packed debug c (concat (map called_node calls)) d = Ended d' (Returns (Ok wr)) \<longrightarrow>
      r = Returns () \<and> walked sink = of_nat (batch_count (batches workers)))"
proof -
  let ?s = "progress_new (writer_start d) expected interval now"
  let ?w = "fold (writer_receive db packed debug c) (concat (map called_node calls)) (writer_start d)"
  have start: "\<not> poisoned (ps_last_log ?s)" "ps_walked ?s = 0" "ps_total ?s = expected" "ps_started ?s = now" "ps_inner ?s = writer_start d"
    by (simp_all add: progress_new_def new_mutex_def)
  obtain r sink where fed: "feed (writer_emit db packed debug c) calls ?s = (r, sink)" and inner: "ps_inner sink = ?w"
      and running: "is_running ?w \<longrightarrow> r = Returns () \<and> ps_walked sink = sum_list (map called_entries calls)"
    using feed_writer_calm [OF start(1), of calls db packed debug c, unfolded start] assms(2)
    unfolding calls_fit_def time_fits_def by auto
  have "is_running ?w" if "writer_flush db packed ?w = Ended d' (Returns (Ok wr))" for d' wr
  proof (rule ccontr)
    assume ended: "\<not> is_running ?w"
    then have "?w = Ended d' (Returns (Ok wr))" using that Ended_cases [OF ended] by auto
    then show False by (simp add: fold_receive_not_Ok)
  qed
  moreover have "sum_list (map called_entries calls) = of_nat (batch_count (batches workers))"
    using entry_count_untimed [of calls] entry_count_interleaves [OF assms(1)] by simp
  ultimately show ?thesis using fed inner running by (auto simp: into_inner_def write_chunks_def walked_def)
qed

section \<open>Properties\<close>

text \<open>
  C12: The threads of a build cannot block one another. Whatever the workers call, on any database, the
  number of steps is bounded, every run can be continued until nothing is left to do, and then the workers
  are through and have logged what they counted, the sink is dropped and the writer has ended.
\<close>

theorem threaded_build_ends:
  assumes "threaded_steps db packed debug capacity c (threaded_start workers expected interval now d) s" and "0 < capacity"
  shows "(\<forall>n s'. ((threaded_step db packed debug capacity c) ^^ n) s s' \<longrightarrow> n \<le> threaded_size s) \<and>
    (\<exists>s'. threaded_steps db packed debug capacity c s s' \<and> (\<nexists>s''. threaded_step db packed debug capacity c s' s'')) \<and>
    (\<forall>s'. threaded_steps db packed debug capacity c s s' \<and> (\<nexists>s''. threaded_step db packed debug capacity c s' s'') \<longrightarrow>
      (\<forall>cs \<in> set (tb_calls s'). cs = []) \<and> tb_counted s' = Map.empty \<and> \<not> tb_sender s' \<and> finish_result (tb_writer s') \<noteq> None)"
proof (intro conjI allI impI)
  fix n s' assume "((threaded_step db packed debug capacity c) ^^ n) s s'"
  then show "n \<le> threaded_size s"
    using threaded_steps_bounded [OF _ threaded_shape_steps [OF assms(1)]] by fastforce
next
  show "\<exists>s'. threaded_steps db packed debug capacity c s s' \<and> (\<nexists>s''. threaded_step db packed debug capacity c s' s'')"
    using threaded_finishes [OF threaded_shape_steps [OF assms(1)]] by blast
next
  fix s' assume s': "threaded_steps db packed debug capacity c s s' \<and> (\<nexists>s''. threaded_step db packed debug capacity c s' s'')"
  then have "threaded_steps db packed debug capacity c (threaded_start workers expected interval now d) s'"
    using assms(1) by (meson rtranclp_trans)
  note over = threaded_step_progress [OF threaded_shape_steps [OF this] assms(2) conjunct2 [OF s']]
  then show "\<forall>cs \<in> set (tb_calls s'). cs = []" "tb_counted s' = Map.empty" "\<not> tb_sender s'" by blast+
  show "finish_result (tb_writer s') \<noteq> None"
    using over by (cases "tb_writer s'" rule: finish_result.cases) auto
qed

definition sample_workers :: "build_call list list" where
  "sample_workers = [map Emits sample_events @ [Walks 3], [Walks 0, Emits (None, [9], sample_branch 8), Walks 4]]"

theorem threaded_build_ends_witness:
  "\<exists>s. threaded_steps ref_db True True 1 2 (threaded_start sample_workers 7 0 0 (ref_empty True)) s \<and>
     (\<forall>cs \<in> set (tb_calls s). cs = []) \<and> finish_result (tb_writer s) \<noteq> None"
  using threaded_build_ends [OF rtranclp.rtrancl_refl zero_less_one, of ref_db True True 2 sample_workers 7 0 0 "ref_empty True"]
  by blast

lemma sample_run:
  "\<exists>s. threaded_steps ref_db True True 1 2 (threaded_start sample_workers 7 0 0 (ref_empty True)) s \<and>
     \<not> is_running (tb_writer s) \<and> tb_clock s = 0"
proof -
  obtain s where s: "threaded_steps ref_db True True 1 2 (threaded_start sample_workers 7 0 0 (ref_empty True)) s"
      "tb_clock s = 0" "\<nexists>s'. threaded_step ref_db True True 1 2 s s'"
    using threaded_finishes [OF threaded_shape_start [of 1 sample_workers 7 0 0 "ref_empty True"], of ref_db True True 2]
    by (auto simp: threaded_start_def)
  then show ?thesis using threaded_step_progress [OF threaded_shape_steps [OF s(1)] zero_less_one s(3)] by blast
qed

lemma sample_batches: "batch_count (batches sample_workers) = 7"
  by (simp add: batch_count_def batches_def sample_workers_def comp_def)

lemma time_fits_now: "time_fits expected now now"
  by (simp add: time_fits_def nanos_per_sec_def)

text \<open>
  C8: The threads refine the sequential build. Within the bounds of the clock and the counter, whatever the
  database does, a run whose writer has ended is one of the calls made one after the other in some
  order that keeps the order of every worker: the writer ends the same way, with the same tables, and
  when it ends without an error no worker has panicked and the same number of entries was walked. At what
  times the sequential calls read the clock does not matter.
\<close>

theorem threaded_build_refines_feed:
  assumes "threaded_steps db packed debug capacity c (threaded_start workers expected interval now d) s"
    and "\<not> is_running (tb_writer s)"
    and "batch_count (batches workers) < 2 ^ 64" and "time_fits expected now (tb_clock s)"
  shows "\<exists>cs. interleaves workers cs \<and> (\<forall>calls. map untimed calls = cs \<and> calls_fit (\<lambda>_. now) (unat expected) calls \<longrightarrow>
    (\<exists>r sink. feed (writer_emit db packed debug c) calls (progress_new (writer_start d) expected interval now) = (r, sink) \<and>
      writer_flush db packed (into_inner sink) = tb_writer s \<and>
      (\<forall>d' wr. tb_writer s = Ended d' (Returns (Ok wr)) \<longrightarrow>
        r = Returns () \<and> tb_panicked s = {} \<and> walked sink = walked (tb_progress s))))"
proof -
  obtain es where es: "interleaves (emissions workers) es" "tb_writer s = write_chunks db packed debug c es d"
    using threaded_ended(1) [OF assms] by blast
  obtain cs where cs: "interleaves workers cs" "concat (map emitted cs) = es" using interleaves_calls [OF es(1)] by blast
  have walked: "walked (tb_progress s) = of_nat (batch_count (batches workers))"
    if "tb_writer s = Ended d' (Returns (Ok wr))" for d' wr
    using conjunct2 [OF threaded_ended(2) [OF assms that], symmetric] by simp
  show ?thesis
  proof (intro exI [of _ cs] conjI allI impI cs(1))
    fix calls assume calls: "map untimed calls = cs \<and> calls_fit (\<lambda>_. now) (unat expected) calls"
    then have "concat (map called_node calls) = es" using cs(2) emitted_untimed [of calls] by simp
    then show "\<exists>r sink. feed (writer_emit db packed debug c) calls (progress_new (writer_start d) expected interval now) = (r, sink) \<and>
      writer_flush db packed (into_inner sink) = tb_writer s \<and>
      (\<forall>d' wr. tb_writer s = Ended d' (Returns (Ok wr)) \<longrightarrow>
        r = Returns () \<and> tb_panicked s = {} \<and> walked sink = walked (tb_progress s))"
      using feed_reaches [of workers calls now expected db packed debug c d interval] calls cs(1) es(2)
        threaded_ended(2) [OF assms] walked by metis
  qed
qed

text \<open>The calls of the sample in some order, all at time 0.\<close>

fun at_start :: "build_call \<Rightarrow> progress_call" where
  "at_start (Emits e) = On_Node e"
| "at_start (Walks n) = On_Progress (0, 0, 0) n"

lemma untimed_at_start: "map untimed (map at_start cs) = cs"
proof (induction cs)
  case (Cons c cs)
  then show ?case by (cases c) simp_all
qed simp

lemma calls_fit_at_start:
  assumes "entry_count cs < 2 ^ 64" shows "calls_fit (\<lambda>_. 0) N (map at_start cs)"
proof -
  have "sum_list (map (\<lambda>c. unat (called_entries c)) (map at_start cs)) = entry_count cs"
  proof (induction cs)
    case (Cons c cs)
    then show ?case by (cases c) (simp_all add: entry_count_def)
  qed (simp add: entry_count_def)
  then have sum: "sum_list (map (\<lambda>c. unat (called_entries c)) (map at_start cs)) < 2 ^ 64" using assms by (rule ord_eq_less_trans)
  have "max N 1 * (t3 - 0) < 2 ^ 58 * nanos_per_sec" if mem: "On_Progress (t1, t2, t3) n \<in> set (map at_start cs)" for t1 t2 t3 n
  proof -
    obtain x where "at_start x = On_Progress (t1, t2, t3) n" using mem by fastforce
    then have "t3 = 0" by (cases x) simp_all
    then show ?thesis by (simp add: nanos_per_sec_def)
  qed
  then show ?thesis using sum unfolding calls_fit_def by blast
qed

theorem threaded_build_refines_feed_witness:
  "\<exists>s cs sink. threaded_steps ref_db True True 1 2 (threaded_start sample_workers 7 0 0 (ref_empty True)) s \<and>
     interleaves sample_workers cs \<and>
     snd (feed (writer_emit ref_db True True 2) (map at_start cs) (progress_new (writer_start (ref_empty True)) 7 0 0)) = sink \<and>
     writer_flush ref_db True (into_inner sink) = tb_writer s"
proof -
  obtain s where s: "threaded_steps ref_db True True 1 2 (threaded_start sample_workers 7 0 0 (ref_empty True)) s"
      "\<not> is_running (tb_writer s)" "tb_clock s = 0"
    using sample_run by blast
  have fits: "batch_count (batches sample_workers) < 2 ^ 64" "time_fits 7 0 (tb_clock s)"
    by (simp_all add: sample_batches s(3) time_fits_now)
  obtain cs where cs: "interleaves sample_workers cs \<and> (\<forall>calls. map untimed calls = cs \<and> calls_fit (\<lambda>_. 0) (unat (7 :: u64)) calls \<longrightarrow>
      (\<exists>r sink. feed (writer_emit ref_db True True 2) calls (progress_new (writer_start (ref_empty True)) 7 0 0) = (r, sink) \<and>
        writer_flush ref_db True (into_inner sink) = tb_writer s \<and>
        (\<forall>d' wr. tb_writer s = Ended d' (Returns (Ok wr)) \<longrightarrow>
          r = Returns () \<and> tb_panicked s = {} \<and> walked sink = walked (tb_progress s))))"
    using threaded_build_refines_feed [OF s(1,2) fits] ..
  have "calls_fit (\<lambda>_. 0) (unat (7 :: u64)) (map at_start cs)"
    by (rule calls_fit_at_start) (simp add: entry_count_interleaves [OF conjunct1 [OF cs]] sample_batches)
  then obtain r sink where "feed (writer_emit ref_db True True 2) (map at_start cs) (progress_new (writer_start (ref_empty True)) 7 0 0) = (r, sink)"
      "writer_flush ref_db True (into_inner sink) = tb_writer s"
    using cs untimed_at_start by blast
  then show ?thesis using s(1) cs by (intro exI [of _ s] exI [of _ cs] exI [of _ sink]) simp
qed

text \<open>
  C3: A threaded build writes everything it walks. On a database that does not fail, when the workers
  emit nodes with different keys and the bounds of the clock and the counter hold, every schedule that has
  ended has no panic: on top of what they held the tables hold exactly the nodes of the workers, the
  report counts them and the chunks, the walked entries are the sum of all batches, and the log had at
  most one line an interval.
\<close>

theorem threaded_build_writes_all:
  assumes store: "reliable_store db rows position committed others committed_others"
    and run: "threaded_steps db packed debug capacity c (threaded_start workers expected interval now d) s"
      "\<not> is_running (tb_writer s)"
    and fits: "batch_count (batches workers) < 2 ^ 64" "time_fits expected now (tb_clock s)"
    and nodes: "nodes = concat (emissions workers)" "distinct (map event_key nodes)"
    and before: "committed d = encode_rows db packed m" and "0 < c"
  shows "\<exists>d' wr. tb_writer s = Ended d' (Returns (Ok wr)) \<and> tb_panicked s = {} \<and>
    committed d' = encode_rows db packed (m ++ content_of (stored_events nodes)) \<and>
    wr_nodes wr = length (stored_events nodes) \<and> wr_chunks wr = (length nodes + c - 1) div c \<and>
    unat (walked (tb_progress s)) = batch_count (batches workers) \<and>
    now + length (ps_lines (tb_progress s)) * interval \<le> tb_clock s"
proof -
  obtain es where es: "interleaves (emissions workers) es" "tb_writer s = write_chunks db packed debug c es d"
    using threaded_ended(1) [OF run fits] by blast
  have keys: "distinct (map event_key (concat (emissions workers)))" using nodes by simp
  obtain d' wr where result: "tb_writer s = Ended d' (Returns (Ok wr))"
      "committed d' = encode_rows db packed (m ++ content_of (stored_events nodes))"
      "wr_nodes wr = length (stored_events nodes)" "wr_chunks wr = (length nodes + c - 1) div c"
    using run_over [OF store es(1) \<open>0 < c\<close> keys before, of debug] unfolding es(2) [symmetric] nodes(1) [symmetric] by blast
  then show ?thesis using threaded_ended(2) [OF run fits result(1)] threaded_ended(3) [OF run fits] by blast
qed

theorem threaded_build_writes_all_witness:
  "\<exists>s d' wr. threaded_steps ref_db True True 1 2 (threaded_start sample_workers 7 0 0 (ref_empty True)) s \<and>
     tb_writer s = Ended d' (Returns (Ok wr)) \<and> wr_nodes wr = 3 \<and> wr_chunks wr = 2 \<and> unat (walked (tb_progress s)) = 7"
proof -
  obtain s where s: "threaded_steps ref_db True True 1 2 (threaded_start sample_workers 7 0 0 (ref_empty True)) s"
      "\<not> is_running (tb_writer s)" "tb_clock s = 0"
    using sample_run by blast
  have fits: "batch_count (batches sample_workers) < 2 ^ 64" "time_fits 7 0 (tb_clock s)"
    by (simp_all add: sample_batches s(3) time_fits_now)
  have nodes: "sample_events @ [(None, [9], sample_branch 8)] = concat (emissions sample_workers)"
    by (simp add: emissions_def sample_workers_def sample_events_def)
  have keys: "distinct (map event_key (sample_events @ [(None, [9], sample_branch 8)]))" by (simp add: sample_events_def)
  have lengths: "length (stored_events (sample_events @ [(None, [9], sample_branch 8)])) = 3"
      "(length (sample_events @ [(None, [9], sample_branch 8)]) + 2 - 1) div 2 = 2"
    by (simp_all add: sample_events_def stored_events_def)
  obtain d' wr where "tb_writer s = Ended d' (Returns (Ok wr))" "wr_nodes wr = 3" "wr_chunks wr = 2"
      "unat (walked (tb_progress s)) = 7"
    using threaded_build_writes_all [OF ref_store.reliable_store_axioms s(1,2) fits nodes keys ref_empty_encodes zero_less_numeral,
        unfolded lengths sample_batches] by blast
  then show ?thesis using s(1) by blast
qed

end
