(* ===== verification/Spec2Isabelle.thy ===== *)
theory Spec2Isabelle
  imports Updates_Sink Synth_State Human_Bytes Bench_Heap Bench_Modes Sink_Parity Threaded_Build
begin

text \<open>
  A model of \<^verbatim>\<open>reth-trie-rebuild-bench\<close>, the crate that checks and times reth's partitioned build of
  the state trie (\<^verbatim>\<open>crates/bench\<close>), and its correctness.

  The program. A database holds the hashed state (accounts and storage slots) and the two trie
  tables, whose rows are the branch nodes of the account trie and of the storage tries. Two
  builders compute the trie from the hashed state: reth's serial walk, which hands its nodes out in
  chunks, and the partitioned build, whose workers emit nodes concurrently into a sink. The crate
  holds what surrounds them: the sinks, the writers of the tables, the digest by which two results
  are compared, in-memory and synthetic states to build from, and the program that runs it all on
  a datadir.

  The theories, from the bottom up, with the files they model:

  Prelude, Rust_Maps, Rust_Fmt: words, results and panics as values, interleavings of threads; hash
  maps as lists without duplicate keys in any order and B-tree maps as sorted lists, behind the
  locales \<open>finite_map\<close> and \<open>ordered_map\<close>; decimal and hexadecimal numbers as text.

  Rust_F64, Rust_Duration: the binary64 numbers the crate computes with, exact on natural numbers and
  rounded to even, with bounds on the error of every operation, and the durations of the standard
  library in nanoseconds, their product with a float and their display.

  Trie_Types: nibbles, branch nodes, update sets, the 256-bit addresses as words and as bytes.
  \<open>content_of\<close> is what a list of emitted nodes amounts to: the last node for every path.

  Sink_Contract: the locale \<open>trie_sink\<close>, for which the order of emissions that are compatible does not
  matter. Interpreted by the digest, the collecting sink and the progress sink.

  Node_Digest (\<^verbatim>\<open>digest.rs\<close>): the byte form of a node, the two seeded hashes, the atomic operations of
  a push; concurrent pushes linearise, the byte form determines the node, the digest of a set of
  nodes is independent of the order and changes when one node changes.

  Updates_Sink (\<^verbatim>\<open>updates.rs\<close>, \<^verbatim>\<open>lib.rs\<close>): the sixteen locked shards, their merge, the poisoning by a
  node emitted twice, the normalisation of update sets.

  Trie_Store: the database as a record of operations on transactions, and its contract in four
  locales, \<open>trie_store\<close> (the rows of the trie tables), \<open>scannable_store\<close> (ordered scans), \<open>full_store\<close>
  (the other tables), \<open>reliable_store\<close> (no operation fails), with an interpretation by tables in
  memory, \<open>ref_db\<close>. A transaction that fails leaves no trace.

  Mdbx_Settings, Table_Digest (\<^verbatim>\<open>mdbx.rs\<close>): which key encoding a database uses; the digest of the
  tables over sixteen address ranges in parallel; reth's roots.

  Table_Writes (\<^verbatim>\<open>rebuild.rs\<close>, \<^verbatim>\<open>write_trie_updates\<close> and \<^verbatim>\<open>clear_trie_tables\<close>): the writer of update
  sets, which refines the effect of a set on the content of the tables for both key encodings.

  Table_Rebuild (\<^verbatim>\<open>rebuild.rs\<close>, \<^verbatim>\<open>reth_rebuild\<close>): reth's rebuild, a loop that may go on
  as long as the walk does (\<open>partial_function\<close>); under the contract of a walk (\<open>chunked_walk\<close>,
  \<open>reliable_walk\<close>) it ends and leaves exactly the nodes of the chunks, or those of some first chunks.

  Chunk_Writer, Write_Sink (\<^verbatim>\<open>writer.rs\<close>): the writer's loop as a function, and the thread behind its
  bounded channel as a step relation with the workers; the threads refine the loop, no run blocks, and
  the result does not depend on the schedule. Nothing is assumed of the capacity but that it is positive.

  Sink_Parity: the collecting sink with the writer of update sets, and the chunk writer, leave the same
  rows.

  Memory_State (\<^verbatim>\<open>memory.rs\<close>), Synth_State (\<^verbatim>\<open>synth.rs\<close>, \<^verbatim>\<open>examples/make_datadir.rs\<close>): the state in memory
  with its cached post-state refines a map of accounts and slots; the generator does not repeat,
  so the synthetic states have exactly the size asked for.

  Peak_Alloc, Human_Bytes (\<^verbatim>\<open>alloc.rs\<close>): the counting allocator over an allocator with the contract
  \<open>system_heap\<close>; the sizes printed for people, right up to the rounding of the count.

  Progress_Sink (\<^verbatim>\<open>progress.rs\<close>): counting and rate-limited logging around another sink. Within the bounds
  of 2^64 entries and 2^58 entry seconds nothing panics, and the percentage printed is right.

  Bench_Args, Bench_Main (\<^verbatim>\<open>bin/datadir_bench.rs\<close>, \<^verbatim>\<open>runtime\<close> of \<^verbatim>\<open>lib.rs\<close>, the providers of \<^verbatim>\<open>mdbx.rs\<close>):
  the command line and the program, actions on the database, the console and the heap that return,
  exit or panic. Bench_Report: the lines the program prints. Bench_Walk: rules for actions, and the
  locales \<open>build_walk\<close> and \<open>main_walk\<close>: what the steps of the program keep, every run keeps. Bench_Runs:
  the instances on the database, the roots reported, the exit codes and termination. Bench_Heap: the
  instance on the heap and the clock. Bench_Write, Bench_Modes: runs from end to end, in the locales
  \<open>bench_run\<close> and \<open>table_checks\<close>: \<open>write_mode\<close> (\<^verbatim>\<open>--write\<close>), \<open>rebuild_mode\<close> (\<^verbatim>\<open>--reth-rebuild\<close>), \<open>compare_mode\<close>
  (both), \<open>read_mode\<close> (the modes that read).

  Threaded_Build: the build of a run with \<^verbatim>\<open>--write\<close> with all its threads, workers that call the progress
  sink, its lock, the channel and the writer thread, as one step relation. Its runs project to
  those of Write_Sink and of Progress_Sink; it ends, it writes everything, and it does what Bench_Main
  does with the same calls one after the other.

  This theory: the statements that span the components.

  Parameters. Code outside the repository is an argument, with what is relied on as hypotheses: MDBX
  and its cursors (\<open>trie_db\<close>), \<^verbatim>\<open>StateRoot\<close> (\<open>state_root_walk\<close>), the partitioned build (the calls it
  makes on its sink, in the order in which they take effect), the JSON of the settings, foldhash
  and the packing of nibbles (\<open>hasher\<close>), the post-state types of reth, the display of a \<^verbatim>\<open>B256\<close>, the
  system allocator and what the program asks of it, the clock, the rayon pool. \<^verbatim>\<open>usize\<close> is a 64-bit
  word where it can wrap, as it does without overflow checks.

  Simplifications. In Bench_Main the sink of a run is the sequential composition of its parts, the
  channel of the writer is the writer's loop itself, and the first panic of a worker ends the build:
  Threaded_Build justifies this within the bounds of the clock and the counter, outside
  of them the log can panic in a worker while others go on. Console lines are kept as the data they print;
  \<open>report_text\<close> is their text. The clock and the requests to the allocator are given from one
  reading to the next, \<open>tick\<close>. The text of a panic is that of its \<^verbatim>\<open>expect\<close>.

  Not modelled: the derived \<^verbatim>\<open>Debug\<close> instances, the test suites under \<^verbatim>\<open>tests/\<close>, the scripts and the build
  files, and the sources of reth.
\<close>

section \<open>A generator run writes what it builds\<close>

text \<open>
  C1: From end to end, \<^verbatim>\<open>datadir_bench --write\<close> does what it is for. On a database that does not fail,
  with a build that emits each of the nodes \<open>es\<close> once, in any order, whatever the tables held before and
  whatever the chunk size, the run ends normally; the tables then hold exactly the nodes that are
  not roots, the hashed state is untouched; every run reports the root and the number of nodes
  written, the digest printed for the tables is that of these nodes, and reth's walk over them finds
  the root again.
\<close>

theorem write_mode_end_to_end:
  assumes mode: "write_mode db rows position committed others committed_others env rt es N (committed_others (bench_db s))"
    and parsed: "parse_args (env_parse_b256 env) argv = Ok args"
    and flags: "write_flag args" "\<not> reth_rebuild_flag args" "repeat args \<noteq> 0"
    and root: "expected_root args = None \<or> expected_root args = Some rt"
  shows "\<exists>s' out. main env argv s = (Continue (), s') \<and>
    committed (bench_db s') = encode_rows db (packed_of (env_codec env) (committed_others (bench_db s)))
      (content_of (stored_events es)) \<and>
    committed_others (bench_db s') = committed_others (bench_db s) \<and> bench_out s' = bench_out s @ out \<and>
    (\<forall>i < unat (repeat args). \<exists>w wr el pk. Write_Report (1 + i) rt w wr el pk \<in> set out \<and> wr_nodes wr = length (stored_events es)) \<and>
    (\<exists>el. Tables_Report (events_summary (env_hasher env) (stored_events es)) el \<in> set out) \<and>
    (\<exists>el. Walked_Root rt el \<in> set out)"
proof -
  let ?h = "committed_others (bench_db s)" and ?k = "unat (repeat args)"
  have k: "?k \<noteq> 0" using flags(3) by (simp add: unat_eq_zero)
  have "reached (bench_out s) (\<lambda>d. committed_others d = ?h) {} s" by (simp add: reached_def)
  from specD [OF write_mode.main_write_completes [OF mode root flags(1,2)] this]
  obtain s' where run: "main_with env args s = (Continue (), s')"
      and s': "reached (bench_out s) (tables_hold db committed committed_others (packed_of (env_codec env) ?h) ?h es)
        (\<Union>i < ?k. {reports_run rt es (1 + i), reports_tables (env_hasher env) es, reports_walk rt}) s'"
    using k by (cases "main_with env args s"; cases "fst (main_with env args s)") auto
  obtain out where out: "bench_out s' = bench_out s @ out"
      and lines: "\<And>i p. i < ?k \<Longrightarrow> p \<in> {reports_run rt es (1 + i), reports_tables (env_hasher env) es, reports_walk rt} \<Longrightarrow>
        \<exists>r \<in> set out. p r"
    using s' unfolding reached_def by blast
  have "\<exists>w wr el pk. Write_Report (1 + i) rt w wr el pk \<in> set out \<and> wr_nodes wr = length (stored_events es)" if "i < ?k" for i
    using lines [OF that, of "reports_run rt es (1 + i)"] unfolding reports_run_def by blast
  moreover have "\<exists>el. Tables_Report (events_summary (env_hasher env) (stored_events es)) el \<in> set out"
    using lines [of 0 "reports_tables (env_hasher env) es"] k unfolding reports_tables_def by blast
  moreover have "\<exists>el. Walked_Root rt el \<in> set out"
    using lines [of 0 "reports_walk rt"] k unfolding reports_walk_def by blast
  ultimately show ?thesis
    using run parsed out s' by (simp add: main_def reached_def tables_hold_def)
qed

theorem write_mode_end_to_end_witness:
  "\<exists>s'. main sample_env [''--datadir'', ''d'', ''--write'', ''--repeat'', ''2''] sample_bench = (Continue (), s') \<and>
     ref_lookup (bench_db s') = encode_rows ref_db True (content_of (stored_events sample_events))"
proof -
  have two: "parse_usize ''2'' = Some 2" by (simp add: parse_usize_def parse_digits_def is_digit_def digits_value_def)
  have parsed: "parse_args (env_parse_b256 sample_env) [''--datadir'', ''d'', ''--write'', ''--repeat'', ''2''] =
      Ok (args_default\<lparr>datadir := ''d'', write_flag := True, repeat := 2\<rparr>)"
    by (simp add: parse_args_def parse_flag_def flag_value_def parsed_def two args_default_def)
  show ?thesis
    using write_mode_end_to_end [OF sample_write.write_mode_axioms parsed, of sample_bench]
    by (simp add: args_default_def sample_bench_def) blast
qed

section \<open>The two builders agree\<close>

text \<open>
  C6: The comparison the crate exists for. If the partitioned build emits the nodes that reth's walk
  hands out in its chunks, then reth's rebuild and a cleared database written by the chunk writer
  end with the same rows in the trie tables, in the database's key encoding, and both report the
  same number of entries written, whatever the chunks of either side and the order of the nodes.
\<close>

theorem generator_matches_reth_rebuild:
  assumes "reliable_walk db rows position committed others committed_others walk chunks resume final"
    and "\<forall>c \<in> set (chunks (committed_others d) thr). no_removals (snd c)"
    and "mset es = mset (chunk_events (chunks (committed_others d) thr))" and "distinct (map event_key es)"
    and "0 < c"
  shows "\<exists>d1 lg r d2 d3 wr. reth_rebuild clk db codec walk thr d = Some (d1, lg, Ok r) \<and>
    clear_trie_tables db d = (d2, Ok ()) \<and>
    write_chunks db (packed_of codec (committed_others d)) debug c es d2 = Ended d3 (Returns (Ok wr)) \<and>
    committed d3 = committed d1 \<and> wr_nodes wr = rb_written r"
proof -
  let ?p = "packed_of codec (committed_others d)" and ?ns = "chunk_events (chunks (committed_others d) thr)"
  have store: "reliable_store db rows position committed others committed_others"
    using assms(1) by (simp add: reliable_walk_def)
  obtain d1 lg r where r: "reth_rebuild clk db codec walk thr d = Some (d1, lg, Ok r)"
      "committed d1 = encode_rows db ?p (content_of (stored_events ?ns))" "rb_written r = length (stored_events ?ns)"
    using reliable_walk.reth_rebuild_nodes [OF assms(1,2), of clk codec] by blast
  obtain d2 where clear: "clear_trie_tables db d = (d2, Ok ())"
    using reliable_store.clear_trie_tables_succeeds [OF store] by blast
  have "trie_store db rows position committed"
    using store by (simp add: reliable_store_def full_store_def scannable_store_def)
  then have "committed d2 = encode_rows db ?p Map.empty"
    using trie_store.clear_trie_tables_Ok [OF _ clear] by simp
  from reliable_store.write_chunks_succeeds [OF store assms(5) this, of debug es] assms(4)
  obtain d3 wr where w: "write_chunks db ?p debug c es d2 = Ended d3 (Returns (Ok wr))"
      "committed d3 = encode_rows db ?p (content_of (stored_events es))" "wr_nodes wr = length (stored_events es)"
    by auto
  have perm: "mset (stored_events es) = mset (stored_events ?ns)"
    unfolding stored_events_def mset_filter assms(3) ..
  have "content_of (stored_events es) = content_of (stored_events ?ns)"
    using content_of_permute [OF _ perm] distinct_map_filter [OF assms(4)] unfolding stored_events_def by blast
  moreover have "length (stored_events es) = length (stored_events ?ns)" using perm mset_eq_length by blast
  ultimately show ?thesis using r clear w by auto
qed

theorem generator_matches_reth_rebuild_witness:
  "\<exists>d1 lg r d2 d3 wr. reth_rebuild (\<lambda>n. n) ref_db flag_codec (scripted_walk 9 [(4, sample_updates)]) None (ref_empty True) =
      Some (d1, lg, Ok r) \<and> clear_trie_tables ref_db (ref_empty True) = (d2, Ok ()) \<and>
    write_chunks ref_db True True 1 (rev (updates_events sample_updates)) d2 = Ended d3 (Returns (Ok wr)) \<and>
    ref_lookup d3 = ref_lookup d1 \<and> wr_nodes wr = rb_written r"
proof -
  have cs: "script_chunks [(4, sample_updates)] = [(4, sample_updates)]"
    by (simp add: script_chunks_def sample_updates_wf)
  have "distinct (map event_key (rev (updates_events sample_updates)))"
    by (simp add: rev_map [symmetric] distinct_updates_events sample_updates_wf)
  then show ?thesis
    using generator_matches_reth_rebuild [OF script.reliable_walk_axioms [where root = 9 and cs = "[(4, sample_updates)]"],
        where d = "ref_empty True" and thr = None and codec = flag_codec and debug = True and c = 1
        and es = "rev (updates_events sample_updates)"]
    by (simp add: cs sample_updates_wf chunk_events_def)
qed

end
